(* ===== verification/Kernel_Prelude.thy ===== *)
theory Kernel_Prelude
  imports Main "HOL-Library.Word"
begin

unbundle bit_operations_syntax

section \<open>Shared vocabulary of the bloodmoon kernel model\<close>

text \<open>
  What every component theory of the development shares: the machine integer types of the C
  sources, the result type of kernel code (a value, a panic, a bad memory access, or no return
  at all), bounded \<^verbatim>\<open>for\<close> loops, and the linked chains of C structures that the kernel keeps its
  queues and registries in, with the two loops the sources run over such chains.
\<close>

named_theorems res_simps \<open>rewriting of sequenced kernel results\<close>

type_synonym u8 = "8 word"
type_synonym u16 = "16 word"
type_synonym u32 = "32 word"
type_synonym u64 = "64 word"

subsection \<open>Machine words\<close>

lemma bit_single: "n < 8 \<Longrightarrow> bit (2 ^ n :: u8) k \<longleftrightarrow> k = n"
  by (auto simp: bit_simps)

lemma unat_push_bit_small:
  "unat x * 2 ^ n < 2 ^ 64 \<Longrightarrow> unat (push_bit n x :: u64) = unat x * 2 ^ n"
  by (simp only: unsigned_push_bit_eq) (simp add: push_bit_nat_def take_bit_nat_eq_self)

lemma unat_drop_bit_div: "unat (drop_bit n x :: u64) = unat x div 2 ^ n"
  by (simp only: unat_drop_bit_eq) (simp add: drop_bit_nat_def)

lemma word_plus_1_nat: "x < (y::u64) \<Longrightarrow> unat (x + 1) = Suc (unat x)"
  by unat_arith

lemma least_word:
  assumes "P (k::u64)"
  obtains k0 where "P k0" "k0 \<le> k" "\<And>j. j < k0 \<Longrightarrow> \<not> P j"
proof (rule that)
  show "P (LEAST k. P k)" using assms by (rule LeastI)
  show "(LEAST k. P k) \<le> k" using assms by (rule Least_le)
  show "\<not> P j" if "j < (LEAST k. P k)" for j using that by (rule not_less_Least)
qed

lemma unat_less_64 [simp]: "unat (x::u64) < 18446744073709551616"
  using unsigned_less [of x] by simp

lemma unat_add_small: "unat a + unat b < 2 ^ 64 \<Longrightarrow> unat (a + b :: u64) = unat a + unat b"
  using unat_add_lem [of a b] by simp

lemma unat_of_nat_small: "n < 2 ^ 64 \<Longrightarrow> unat (word_of_nat n :: u64) = n"
  by (simp add: unat_of_nat)

lemma word_and_not_mask: "(x::u64) AND NOT (mask n) = push_bit n (drop_bit n x)"
  by (rule bit_word_eqI) (auto simp: bit_simps)

lemma page_mask: "(0xFFF::u64) = mask 12"
  by (simp add: mask_eq_exp_minus_1)

lemma unat_and_page_mask: "unat ((x::u64) AND 0xFFF) = unat x mod 4096"
  by (simp add: page_mask take_bit_eq_mask [symmetric] unsigned_take_bit_eq take_bit_eq_mod unat_mod)

lemma unat_page_floor: "unat (- 4096 AND (x::u64)) = unat x div 4096 * 4096"
proof -
  have "- 4096 = (NOT 0xFFF :: u64)" by simp
  moreover have "unat (drop_bit 12 x) * 2 ^ 12 < 2 ^ 64"
    using unat_less_64 [of x] by (simp add: unat_drop_bit_div del: unat_less_64)
  ultimately show ?thesis
    by (simp only: and.commute [of _ x] page_mask word_and_not_mask unat_push_bit_small unat_drop_bit_div) simp
qed

lemma page_ceil_aligned: "(n::nat) mod 4096 = 0 \<Longrightarrow> (n + 4095) div 4096 * 4096 = n"
  by (auto simp: mod_eq_0_iff_dvd)

lemma page_ceil_unaligned: "(n::nat) mod 4096 \<noteq> 0 \<Longrightarrow> (n + 4096) div 4096 = (n + 4095) div 4096"
  using div_Suc [of "n + 4095" 4096] mod_Suc [of n 4096] mod_Suc [of "n + 4095" 4096]
  by (auto simp: add.commute [of n 4096] split: if_splits)

subsection \<open>Results of kernel code\<close>

text \<open>
  A call of a kernel function returns a value (\<open>ret\<close>), stops the machine with \<^verbatim>\<open>panic(msg)\<close>
  (\<open>panic\<close>), or accesses memory that holds no object of the model, such as a null pointer
  (\<open>fault\<close>). A loop that never ends is the remaining value \<open>None\<close>; loops without a termination
  argument are \<^theory_text>\<open>partial_function (option)\<close>s, whose missing result is exactly that \<open>None\<close>.
\<close>

datatype kerror = Panic string | Fault

type_synonym 'a res = "(kerror + 'a) option"

abbreviation ret :: "'a \<Rightarrow> 'a res" where
  "ret x \<equiv> Some (Inr x)"

abbreviation panic :: "string \<Rightarrow> 'a res" where
  "panic msg \<equiv> Some (Inl (Panic msg))"

abbreviation fault :: "'a res" where
  "fault \<equiv> Some (Inl Fault)"

text \<open>Sequencing: the rest of the function runs only when the call before it has returned.\<close>

definition bind_res :: "'a res \<Rightarrow> ('a \<Rightarrow> 'b res) \<Rightarrow> 'b res" where
  "bind_res m f = Option.bind m (\<lambda>r. case r of Inl e \<Rightarrow> Some (Inl e) | Inr x \<Rightarrow> f x)"

lemma bind_res_simps [simp, res_simps]:
  "bind_res None f = None"
  "bind_res (Some (Inl e)) f = Some (Inl e)"
  "bind_res (ret x) f = f x"
  by (simp_all add: bind_res_def)

lemma bind_res_assoc [res_simps]:
  "bind_res (bind_res m f) g = bind_res m (\<lambda>x. bind_res (f x) g)"
  by (cases m) (auto simp: bind_res_def split: sum.splits)

lemma bind_res_eq_ret [res_simps]:
  "bind_res m f = ret y \<longleftrightarrow> (\<exists>x. m = ret x \<and> f x = ret y)"
  by (cases m) (auto simp: bind_res_def split: sum.splits)

lemma bind_res_ret_right [simp]: "bind_res m (\<lambda>x. ret x) = m"
  by (cases m) (auto simp: bind_res_def split: sum.splits)

lemma bind_res_cong [fundef_cong]:
  "m = m' \<Longrightarrow> (\<And>x. m' = ret x \<Longrightarrow> f x = f' x) \<Longrightarrow> bind_res m f = bind_res m' f'"
  by (cases m') (auto simp: bind_res_def split: sum.splits)

lemma bind_res_mono [partial_function_mono]:
  assumes "mono_option B" and "\<And>y. mono_option (\<lambda>f. C y f)"
  shows "mono_option (\<lambda>f. bind_res (B f) (\<lambda>y. C y f))"
  unfolding bind_res_def using assms
  by (intro bind_mono) (auto simp: monotone_def flat_ord_def fun_ord_def split: sum.splits)

text \<open>The values of C's \<^verbatim>\<open>int\<close>. Arithmetic that leaves them is undefined; where it can happen it is a fault.\<close>

definition int_ok :: "int \<Rightarrow> bool" where
  "int_ok n \<longleftrightarrow> - 0x80000000 \<le> n \<and> n < 0x80000000"

definition int_inc :: "int \<Rightarrow> int res" where
  "int_inc n = (if int_ok (n + 1) then ret (n + 1) else fault)"

text \<open>Reading a C object through a pointer: a pointer to no object of the store faults.\<close>

definition deref :: "('a \<rightharpoonup> 'b) \<Rightarrow> 'a \<Rightarrow> 'b res" where
  "deref h p = (case h p of None \<Rightarrow> fault | Some v \<Rightarrow> ret v)"

lemma deref_Some [simp]: "h p = Some v \<Longrightarrow> deref h p = ret v"
  by (simp add: deref_def)

lemma deref_None [simp]: "h p = None \<Longrightarrow> deref h p = fault"
  by (simp add: deref_def)

lemma deref_eq_ret [res_simps]: "deref h p = ret v \<longleftrightarrow> h p = Some v"
  by (simp add: deref_def split: option.splits)

text \<open>Writing fields of a C object through a pointer.\<close>

definition modify :: "'a \<Rightarrow> ('b \<Rightarrow> 'b) \<Rightarrow> ('a \<rightharpoonup> 'b) \<Rightarrow> ('a \<rightharpoonup> 'b) res" where
  "modify p f h = bind_res (deref h p) (\<lambda>v. ret (h(p \<mapsto> f v)))"

lemma modify_Some [simp]: "h p = Some v \<Longrightarrow> modify p f h = ret (h(p \<mapsto> f v))"
  by (simp add: modify_def)

lemma modify_eq_ret [res_simps]: "modify p f h = ret h' \<longleftrightarrow> (\<exists>v. h p = Some v \<and> h' = h(p \<mapsto> f v))"
  by (auto simp: modify_def bind_res_eq_ret deref_eq_ret)

subsection \<open>Bounded loops\<close>

text \<open>
  \<open>iter_res body [i\<^sub>0, i\<^sub>1, \<dots>]\<close> runs a loop body for the listed counter values and stops at the
  first one that does not return; \<open>for_u64 n\<close> is \<^verbatim>\<open>for (uint64_t i = 0; i < n; i++)\<close>.
\<close>

primrec iter_res :: "('i \<Rightarrow> 's \<Rightarrow> 's res) \<Rightarrow> 'i list \<Rightarrow> 's \<Rightarrow> 's res" where
  "iter_res body [] s = ret s"
| "iter_res body (i # is) s = bind_res (body i s) (iter_res body is)"

definition for_u64 :: "u64 \<Rightarrow> (u64 \<Rightarrow> 's \<Rightarrow> 's res) \<Rightarrow> 's \<Rightarrow> 's res" where
  "for_u64 n body s = iter_res body (map word_of_nat [0..<unat n]) s"

text \<open>\<^verbatim>\<open>for (uint64_t i = start; i < stop; i += step)\<close>\<close>

partial_function (option) for_from :: "u64 \<Rightarrow> u64 \<Rightarrow> u64 \<Rightarrow> (u64 \<Rightarrow> 's \<Rightarrow> 's res) \<Rightarrow> 's \<Rightarrow> 's res" where
  "for_from i stop step body s =
     (if i < stop then bind_res (body i s) (\<lambda>s. for_from (i + step) stop step body s) else ret s)"

lemma iter_res_append [res_simps]:
  "iter_res body (is @ js) s = bind_res (iter_res body is s) (iter_res body js)"
proof (induction "is" arbitrary: s)
  case (Cons i "is")
  then have "iter_res body (is @ js) = (\<lambda>x. bind_res (iter_res body is x) (iter_res body js))"
    by (rule ext)
  then show ?case by (simp add: bind_res_assoc)
qed simp

lemma iter_res_invariant:
  assumes "iter_res body is s = ret t" and "P s"
    and "\<And>i s t. i \<in> set is \<Longrightarrow> P s \<Longrightarrow> body i s = ret t \<Longrightarrow> P t"
  shows "P t"
  using assms by (induction "is" arbitrary: s) (auto simp: bind_res_eq_ret)

lemma for_from_iter:
  assumes "unat i + n * unat step < 2 ^ 64" and "0 < step" and "stop = i + word_of_nat n * step"
  shows "for_from i stop step body s = iter_res body (map (\<lambda>k. i + word_of_nat k * step) [0..<n]) s"
  using assms
proof (induction n arbitrary: i s)
  case 0
  then show ?case by (simp add: for_from.simps)
next
  case (Suc n)
  have small: "unat i + unat step < 2 ^ 64" using Suc.prems(1) by (simp add: algebra_simps)
  then have i': "unat (i + step) = unat i + unat step" by (rule unat_add_small)
  have stop: "stop = (i + step) + word_of_nat n * step" using Suc.prems(3) by (simp add: algebra_simps)
  have "i < stop"
  proof -
    have n: "unat (word_of_nat (Suc n) * step) = Suc n * unat step"
    proof -
      have lt: "Suc n * unat step < 2 ^ 64" using Suc.prems(1) by linarith
      moreover have "Suc n \<le> Suc n * unat step" using Suc.prems(2) by (cases "unat step") (auto simp: word_less_nat_alt)
      ultimately have "Suc n < 2 ^ 64" by linarith
      then have "unat (word_of_nat (Suc n) :: u64) = Suc n" by (rule unat_of_nat_small)
      with lt show ?thesis using unat_mult_lem [of "word_of_nat (Suc n)" step] by simp
    qed
    moreover have "unat stop = unat i + Suc n * unat step"
      unfolding Suc.prems(3) using n Suc.prems(1) by (subst unat_add_small) simp_all
    moreover have "0 < unat step" using Suc.prems(2) by (simp add: word_less_nat_alt)
    ultimately show ?thesis by (simp add: word_less_nat_alt)
  qed
  moreover have "for_from (i + step) stop step body =
      iter_res body (map (\<lambda>k. (i + step) + word_of_nat k * step) [0..<n])"
    by (rule ext, rule Suc.IH) (use i' Suc.prems stop in \<open>simp_all add: algebra_simps\<close>)
  moreover have "map (\<lambda>k. i + word_of_nat k * step) [0..<Suc n] =
      i # map (\<lambda>k. (i + step) + word_of_nat k * step) [0..<n]"
    by (simp add: map_upt_Suc algebra_simps del: upt_Suc)
  ultimately show ?case by (subst for_from.simps) (simp del: upt_Suc)
qed

subsection \<open>Linked chains of C structures\<close>

text \<open>
  The kernel links structures by a pointer field, null (0) at the end. A store is a partial map
  from addresses to structures and \<open>nxt\<close> reads the link field; \<open>path nxt h p xs q\<close> says that from
  the pointer \<open>p\<close> the links visit exactly the addresses \<open>xs\<close> and then hold \<open>q\<close>, and a chain is a
  path that ends in the null pointer.
\<close>

fun path :: "('n \<Rightarrow> u64) \<Rightarrow> (u64 \<rightharpoonup> 'n) \<Rightarrow> u64 \<Rightarrow> u64 list \<Rightarrow> u64 \<Rightarrow> bool" where
  "path nxt h p [] q \<longleftrightarrow> p = q"
| "path nxt h p (a # as) q \<longleftrightarrow> p = a \<and> a \<noteq> 0 \<and> (\<exists>n. h a = Some n \<and> path nxt h (nxt n) as q)"

abbreviation chain :: "('n \<Rightarrow> u64) \<Rightarrow> (u64 \<rightharpoonup> 'n) \<Rightarrow> u64 \<Rightarrow> u64 list \<Rightarrow> bool" where
  "chain nxt h p xs \<equiv> path nxt h p xs 0"

text \<open>\<^verbatim>\<open>while (cur->next != 0) cur = cur->next;\<close>\<close>

partial_function (option) seek_last :: "('n \<Rightarrow> u64) \<Rightarrow> (u64 \<rightharpoonup> 'n) \<Rightarrow> u64 \<Rightarrow> u64 res" where
  "seek_last nxt h p = bind_res (deref h p) (\<lambda>n.
     if nxt n = 0 then ret p else seek_last nxt h (nxt n))"

text \<open>\<^verbatim>\<open>while (cur != 0) { if (P(cur)) return cur; cur = cur->next; } return 0;\<close>\<close>

partial_function (option) seek :: "('n \<Rightarrow> bool) \<Rightarrow> ('n \<Rightarrow> u64) \<Rightarrow> (u64 \<rightharpoonup> 'n) \<Rightarrow> u64 \<Rightarrow> u64 res" where
  "seek P nxt h p = (if p = 0 then ret 0 else bind_res (deref h p) (\<lambda>n.
     if P n then ret p else seek P nxt h (nxt n)))"

lemma path_append:
  "path nxt h p (xs @ ys) q \<longleftrightarrow> (\<exists>r. path nxt h p xs r \<and> path nxt h r ys q)"
  by (induction xs arbitrary: p) auto

lemma chain_0 [simp]: "chain nxt h 0 xs \<longleftrightarrow> xs = []"
  by (cases xs) auto

lemma path_not_0: "path nxt h p xs q \<Longrightarrow> a \<in> set xs \<Longrightarrow> a \<noteq> 0"
  by (induction xs arbitrary: p) auto

lemma path_dom: "path nxt h p xs q \<Longrightarrow> set xs \<subseteq> dom h"
  by (induction xs arbitrary: p) auto

lemma chain_unique: "chain nxt h p xs \<Longrightarrow> chain nxt h p ys \<Longrightarrow> xs = ys"
proof (induction xs arbitrary: p ys)
  case Nil
  then show ?case by (cases ys) auto
next
  case (Cons a xs)
  then show ?case by (cases ys) auto
qed

lemma chain_distinct: "chain nxt h p xs \<Longrightarrow> distinct xs"
proof (induction xs arbitrary: p)
  case (Cons a xs)
  have "a \<notin> set xs"
  proof
    assume "a \<in> set xs"
    then obtain us vs where xs: "xs = us @ a # vs" by (auto simp: in_set_conv_decomp)
    with Cons.prems have "chain nxt h a (a # vs)" by (auto simp: path_append)
    moreover from Cons.prems have "chain nxt h a (a # xs)" by simp
    ultimately have "a # vs = a # xs" by (rule chain_unique)
    with xs show False by simp
  qed
  with Cons show ?case by auto
qed simp

lemma path_cong:
  assumes "\<And>a. a \<in> set xs \<Longrightarrow> map_option nxt (h' a) = map_option nxt (h a)"
  shows "path nxt h' p xs q = path nxt h p xs q"
  using assms
proof (induction xs arbitrary: p)
  case (Cons a xs)
  from Cons.prems have a: "map_option nxt (h' a) = map_option nxt (h a)" by simp
  from Cons have "\<And>r. path nxt h' r xs q = path nxt h r xs q" by simp
  with a show ?case by (cases "h a"; cases "h' a") auto
qed simp

lemma path_upd_other [simp]:
  "a \<notin> set xs \<Longrightarrow> path nxt (h(a := v)) p xs q = path nxt h p xs q"
  by (rule path_cong) auto

lemma seek_last_chain:
  "chain nxt h p (xs @ [z]) \<Longrightarrow> seek_last nxt h p = ret z"
proof (induction xs arbitrary: p)
  case Nil
  then show ?case by (auto simp: seek_last.simps)
next
  case (Cons a xs)
  then obtain n where n: "h a = Some n" "chain nxt h (nxt n) (xs @ [z])" "p = a" by auto
  then have "nxt n \<noteq> 0" by (cases xs) auto
  with n Cons.IH show ?case by (subst seek_last.simps) simp
qed

lemma seek_chain:
  "chain nxt h p xs \<Longrightarrow>
   seek P nxt h p = ret (case find (\<lambda>a. P (the (h a))) xs of None \<Rightarrow> 0 | Some a \<Rightarrow> a)"
proof (induction xs arbitrary: p)
  case Nil
  then show ?case by (simp add: seek.simps)
next
  case (Cons a xs)
  then obtain n where "h a = Some n" "chain nxt h (nxt n) xs" "p = a" "a \<noteq> 0" by auto
  with Cons.IH show ?case by (subst seek.simps) simp
qed

text \<open>
  What a linked structure promises: writing its link field and reading it back agree. The edits
  the kernel makes to its chains are proved once here and used at every structure through an
  interpretation.
\<close>

locale linked_node =
  fixes nxt :: "'n \<Rightarrow> u64" and set_nxt :: "u64 \<Rightarrow> 'n \<Rightarrow> 'n"
  assumes nxt_set_nxt: "nxt (set_nxt p n) = p"
begin

lemma chain_snoc:
  assumes "chain nxt h p (xs @ [z])" and "h z = Some n"
    and "q \<noteq> 0" and "q \<notin> set (xs @ [z])" and "nxt m = 0"
  shows "chain nxt (h(z \<mapsto> set_nxt q n, q \<mapsto> m)) p (xs @ [z, q])"
proof -
  from assms(1) have "z \<notin> set xs" using chain_distinct by fastforce
  with assms show ?thesis by (auto simp: path_append nxt_set_nxt)
qed

lemma chain_unlink:
  assumes "chain nxt h p (xs @ z # a # ys)" and "h z = Some n" and "h a = Some m"
  shows "chain nxt (h(z \<mapsto> set_nxt (nxt m) n)) p (xs @ z # ys)"
proof -
  from assms(1) have "z \<notin> set xs" "z \<notin> set ys" using chain_distinct by fastforce+
  with assms show ?thesis by (auto simp: path_append nxt_set_nxt)
qed

end

end
