(* ===== verification/Frames.thy ===== *)
theory Frames
  imports Kernel_Prelude
begin

section \<open>The physical page frame allocator (\<^verbatim>\<open>src/src/memory/memory.c\<close>)\<close>

text \<open>
  The allocator owns the biggest usable chunk of the boot memory map and keeps one bit per
  4 KiB frame of it. The model has the structure \<^verbatim>\<open>struct system_memory\<close> as a record, with the
  bitmap as the byte function of the memory that starts at \<^verbatim>\<open>memory->bitfield\<close> (the C code
  indexes that memory without a bound), and the static variables of \<^verbatim>\<open>request_page\<close> and
  \<^verbatim>\<open>request_contiguous_pages\<close> beside it. Every panic of the source is a panic of the model; the
  search loop may run for ever and is a partial function.
\<close>

subsection \<open>State\<close>

record system_memory =
  total_available_pages :: u64
  first_available_page_addr :: u64
  last_available_page_address :: u64
  total_memory :: u64
  total_pages :: u64
  bitfield :: "u64 \<Rightarrow> u8"
  free_memory :: u64
  locked_memory :: u64
  reserved_memory :: u64

record frames =
  sysmem :: system_memory
  last_requested :: u64
  statistics_requested :: u64
  c_last_requested :: u64
  c_statistics_requested :: u64

abbreviation PAGESIZE :: u64 where
  "PAGESIZE \<equiv> 0x1000"

subsection \<open>Address and bitmap macros\<close>

definition IS_ALIGNED :: "u64 \<Rightarrow> bool" where
  "IS_ALIGNED x \<longleftrightarrow> x AND (PAGESIZE - 1) = 0"

definition ALIGN_ADDR :: "u64 \<Rightarrow> u64" where
  "ALIGN_ADDR x = (if (PAGESIZE - 1) AND x \<noteq> 0 then (x + PAGESIZE) AND NOT (PAGESIZE - 1) else x)"

definition ADDR_TO_PAGE :: "u64 \<Rightarrow> u64" where
  "ADDR_TO_PAGE x = drop_bit 12 x"

definition SET_PAGE_BIT :: "u64 \<Rightarrow> system_memory \<Rightarrow> system_memory" where
  "SET_PAGE_BIT x m = m\<lparr>bitfield := (bitfield m)(drop_bit 3 x :=
     bitfield m (drop_bit 3 x) OR push_bit (unat (x mod 8)) 1)\<rparr>"

definition CLEAR_PAGE_BIT :: "u64 \<Rightarrow> system_memory \<Rightarrow> system_memory" where
  "CLEAR_PAGE_BIT x m = m\<lparr>bitfield := (bitfield m)(drop_bit 3 x :=
     bitfield m (drop_bit 3 x) AND NOT (push_bit (unat (x mod 8)) 1))\<rparr>"

definition GET_PAGE_BIT :: "u64 \<Rightarrow> system_memory \<Rightarrow> u8" where
  "GET_PAGE_BIT x m = drop_bit (unat (x mod 8))
     (bitfield m (drop_bit 3 x) AND push_bit (unat (x mod 8)) 1)"

definition set_page_bit :: "u64 \<Rightarrow> system_memory \<Rightarrow> system_memory res" where
  "set_page_bit address m =
     (if ADDR_TO_PAGE address > total_available_pages m
      then panic ''set_page_bit: address out of bounds''
      else let m' = SET_PAGE_BIT (ADDR_TO_PAGE address) m in
        if GET_PAGE_BIT (ADDR_TO_PAGE address) m' \<noteq> 1
        then panic ''set_page_bit: bit not set'' else ret m')"

definition clear_page_bit :: "u64 \<Rightarrow> system_memory \<Rightarrow> system_memory res" where
  "clear_page_bit address m =
     (if ADDR_TO_PAGE address > total_available_pages m
      then panic ''clear_page_bit: address out of bounds''
      else ret (CLEAR_PAGE_BIT (ADDR_TO_PAGE address) m))"

definition get_page_bit :: "u64 \<Rightarrow> system_memory \<Rightarrow> u8 res" where
  "get_page_bit address m =
     (if ADDR_TO_PAGE address > total_available_pages m
      then panic ''get_page_bit: address out of bounds''
      else ret (GET_PAGE_BIT (ADDR_TO_PAGE address) m))"

subsection \<open>Reserving and locking\<close>

definition reserve_page :: "u64 \<Rightarrow> system_memory \<Rightarrow> system_memory res" where
  "reserve_page address m = bind_res (get_page_bit address m) (\<lambda>b.
     if b = 1 then panic ''Page already reserved!''
     else bind_res (set_page_bit address m) (\<lambda>m.
       ret (m\<lparr>free_memory := free_memory m - PAGESIZE,
               reserved_memory := reserved_memory m + PAGESIZE\<rparr>)))"

definition unreserve_page :: "u64 \<Rightarrow> system_memory \<Rightarrow> system_memory res" where
  "unreserve_page address m = bind_res (get_page_bit address m) (\<lambda>b.
     if b = 0 then panic ''Page not reserved!''
     else bind_res (clear_page_bit address m) (\<lambda>m.
       ret (m\<lparr>free_memory := free_memory m + PAGESIZE,
               reserved_memory := reserved_memory m - PAGESIZE\<rparr>)))"

definition lock_page :: "u64 \<Rightarrow> system_memory \<Rightarrow> system_memory res" where
  "lock_page address m = bind_res (get_page_bit address m) (\<lambda>b.
     if b = 1 then panic ''Page already locked!''
     else bind_res (set_page_bit address m) (\<lambda>m.
       ret (m\<lparr>free_memory := free_memory m - PAGESIZE,
               locked_memory := locked_memory m + PAGESIZE\<rparr>)))"

text \<open>\<^verbatim>\<open>unlock_page\<close> moves the two counters in the same direction as \<^verbatim>\<open>lock_page\<close> does.\<close>

definition unlock_page :: "u64 \<Rightarrow> system_memory \<Rightarrow> system_memory res" where
  "unlock_page address m = bind_res (get_page_bit address m) (\<lambda>b.
     if b = 0 then panic ''Page not locked!''
     else bind_res (clear_page_bit address m) (\<lambda>m.
       ret (m\<lparr>free_memory := free_memory m - PAGESIZE,
               locked_memory := locked_memory m + PAGESIZE\<rparr>)))"

definition reserve_pages :: "u64 \<Rightarrow> u64 \<Rightarrow> system_memory \<Rightarrow> system_memory res" where
  "reserve_pages address pages m =
     (if sint address < 0 then panic ''NEGATIVE''
      else for_u64 pages (\<lambda>i. reserve_page (address + push_bit 12 i)) m)"

definition unreserve_pages :: "u64 \<Rightarrow> u64 \<Rightarrow> system_memory \<Rightarrow> system_memory res" where
  "unreserve_pages address pages m =
     for_u64 pages (\<lambda>i. unreserve_page (address + push_bit 12 i)) m"

definition lock_pages :: "u64 \<Rightarrow> u64 \<Rightarrow> system_memory \<Rightarrow> system_memory res" where
  "lock_pages address pages m = for_u64 pages (\<lambda>i. lock_page (address + push_bit 12 i)) m"

definition unlock_pages :: "u64 \<Rightarrow> u64 \<Rightarrow> system_memory \<Rightarrow> system_memory res" where
  "unlock_pages address pages m = for_u64 pages (\<lambda>i. unlock_page (address + push_bit 12 i)) m"

subsection \<open>Requesting and freeing frames\<close>

text \<open>
  The loop of \<^verbatim>\<open>request_page\<close> and of \<^verbatim>\<open>request_contiguous_pages\<close>: skip taken frames, restart at
  the bottom after the last one, and give up on meeting the frame before the starting point.
\<close>

partial_function (option) search_free :: "system_memory \<Rightarrow> u64 \<Rightarrow> u64 \<Rightarrow> u64 res" where
  "search_free m first cur =
     (if GET_PAGE_BIT cur m = 1 then
        let cur' = (if cur \<ge> total_available_pages m then 0 else cur) in
        if cur' = first then panic ''No free pages available!''
        else search_free m first (cur' + 1)
      else ret cur)"

definition request_page :: "frames \<Rightarrow> (frames \<times> u64) res" where
  "request_page f =
     (let first = last_requested f - 1 in
      bind_res (search_free (sysmem f) first (last_requested f)) (\<lambda>last.
      bind_res (lock_page (push_bit 12 last) (sysmem f)) (\<lambda>m.
        if GET_PAGE_BIT last m = 0 then panic ''Page not reserved!''
        else ret (f\<lparr>sysmem := m, last_requested := last,
                    statistics_requested := statistics_requested f + 1\<rparr>,
                  first_available_page_addr m + push_bit 12 last))))"

definition free_page :: "u64 \<Rightarrow> system_memory \<Rightarrow> system_memory res" where
  "free_page addr m =
     (let normaliced_address = addr - first_available_page_addr m in
      if addr < first_available_page_addr m then panic ''Page below active range''
      else if GET_PAGE_BIT (drop_bit 12 normaliced_address) m = 0 then panic ''page was not locked''
      else bind_res (unlock_page normaliced_address m) (\<lambda>m'.
        if GET_PAGE_BIT (drop_bit 12 normaliced_address) m' = 1 then panic ''Page not freed!''
        else ret m'))"

text \<open>
  The contiguous request locks \<open>num\<close> frames from the first free one on; the address it returns is
  computed from the frame before the one the search started at.
\<close>

definition lock_next :: "u64 \<Rightarrow> system_memory \<times> u64 \<Rightarrow> (system_memory \<times> u64) res" where
  "lock_next i s = (case s of (m, cur) \<Rightarrow>
     if GET_PAGE_BIT cur m = 1 then panic ''Page already reserved!''
     else bind_res (lock_page (push_bit 12 cur) m) (\<lambda>m'. ret (m', cur + 1)))"

definition request_contiguous_pages :: "u64 \<Rightarrow> frames \<Rightarrow> (frames \<times> u64) res" where
  "request_contiguous_pages num f =
     (let first = c_last_requested f - 1; last = c_last_requested f - 1 in
      bind_res (search_free (sysmem f) first (c_last_requested f)) (\<lambda>start.
      bind_res (for_u64 num lock_next (sysmem f, start)) (\<lambda>(m, cur).
        ret (f\<lparr>sysmem := m, c_last_requested := cur,
               c_statistics_requested := c_statistics_requested f + num\<rparr>,
             first_available_page_addr m + push_bit 12 last))))"

definition free_contiguous_pages :: "u64 \<Rightarrow> u64 \<Rightarrow> system_memory \<Rightarrow> system_memory res" where
  "free_contiguous_pages address num m =
     (let normaliced_address = address - first_available_page_addr m in
      if address < first_available_page_addr m then panic ''Page below active range!''
      else bind_res (for_u64 num (\<lambda>i m.
          if GET_PAGE_BIT (drop_bit 12 normaliced_address + i) m = 0
          then panic ''Page was not locked!''
          else unlock_page (normaliced_address + push_bit 12 i) m) m) (\<lambda>m'.
        if GET_PAGE_BIT (drop_bit 12 normaliced_address) m' = 1 then panic ''Page not freed''
        else ret m'))"

subsection \<open>Start-up from the boot memory map\<close>

text \<open>
  The memory map of the boot loader is a list of \<open>(base, length, type)\<close> entries; usable entries
  have type 0. The callbacks of \<^verbatim>\<open>memory_cb.h\<close> run over it.
\<close>

type_synonym memmap = "(u64 \<times> u64 \<times> u64) list"

record chunk_data =
  chunk_addr :: u64
  chunk_size :: u64

definition MEMMAP_USABLE :: u64 where
  "MEMMAP_USABLE = 0"

definition iterate_memory :: "('s \<Rightarrow> u64 \<Rightarrow> u64 \<Rightarrow> u64 \<Rightarrow> 's) \<Rightarrow> memmap \<Rightarrow> 's \<Rightarrow> 's" where
  "iterate_memory callback mm s = foldl (\<lambda>s (base, len, type). callback s base len type) s mm"

definition get_total_memory_cb :: "u64 \<Rightarrow> u64 \<Rightarrow> u64 \<Rightarrow> u64 \<Rightarrow> u64" where
  "get_total_memory_cb acc base len type = acc + len"

definition get_free_memory_cb :: "u64 \<Rightarrow> u64 \<Rightarrow> u64 \<Rightarrow> u64 \<Rightarrow> u64" where
  "get_free_memory_cb acc base len type = (if type = MEMMAP_USABLE then acc + len else acc)"

definition init_memory_cb :: "chunk_data \<Rightarrow> u64 \<Rightarrow> u64 \<Rightarrow> u64 \<Rightarrow> chunk_data" where
  "init_memory_cb chunk base len type =
     (if type = MEMMAP_USABLE \<and> len > chunk_size chunk
      then chunk\<lparr>chunk_size := len, chunk_addr := base\<rparr> else chunk)"

text \<open>The two totals are cached in a static variable, here the second argument.\<close>

definition get_total_memory :: "memmap \<Rightarrow> u64 \<Rightarrow> u64" where
  "get_total_memory mm cached =
     (if cached > 0 then cached else iterate_memory get_total_memory_cb mm cached)"

definition get_free_memory :: "memmap \<Rightarrow> u64 \<Rightarrow> u64" where
  "get_free_memory mm cached =
     (if cached > 0 then cached else iterate_memory get_free_memory_cb mm cached)"

definition memset_bytes :: "(u64 \<Rightarrow> u8) \<Rightarrow> u8 \<Rightarrow> u64 \<Rightarrow> u64 \<Rightarrow> u8" where
  "memset_bytes bf v n = (\<lambda>i. if i < n then v else bf i)"

text \<open>The check of the bit macros on the pattern \<^verbatim>\<open>0x55\<close> over the first 100 bytes.\<close>

definition bitfield_selftest :: "system_memory \<Rightarrow> bool" where
  "bitfield_selftest m \<longleftrightarrow> (\<forall>i \<in> set [0..<100]. \<forall>j \<in> set [0..<8].
     if j mod 2 = 1 then GET_PAGE_BIT (word_of_nat (i * 8 + j)) m \<noteq> 1
     else GET_PAGE_BIT (word_of_nat (i * 8 + j)) m \<noteq> 0)"

text \<open>
  \<^verbatim>\<open>init_memory\<close> on the memory map, the content \<open>raw\<close> of the memory the bitmap is placed in, and
  the chunk its static variable holds from an earlier call: nothing to do (\<open>None\<close>, the return value
  0), or the initialised allocator (the return value 1). \<^verbatim>\<open>sizeof(struct system_memory)\<close> is 72.
\<close>

definition init_memory ::
    "memmap \<Rightarrow> (u64 \<Rightarrow> u8) \<Rightarrow> system_memory \<Rightarrow> chunk_data \<Rightarrow> system_memory option res" where
  "init_memory mm raw m0 static_chunk =
     (if chunk_size static_chunk > 0 then ret None else
      let total_mem = get_total_memory mm 0;
          chunk = iterate_memory init_memory_cb mm static_chunk;
          first_available_address = ALIGN_ADDR (chunk_addr chunk);
          last_available_adress = ALIGN_ADDR (chunk_addr chunk + chunk_size chunk);
          available_pages = drop_bit 12 (last_available_adress - first_available_address);
          bitfield_entries = (if available_pages mod 8 = 0 then drop_bit 3 available_pages
                              else drop_bit 3 available_pages + 1);
          bitfield_address = ALIGN_ADDR (first_available_address + 8)
      in if chunk_size chunk < bitfield_entries + 72 + 0x3000
         then panic ''init_memory: not enough memory for memory bitfield''
         else let m1 = m0\<lparr>bitfield := memset_bytes raw 0x55 100\<rparr> in
           if \<not> bitfield_selftest m1 then panic ''init_memory: GET_PAGE_BIT failed''
           else let m2 = m1\<lparr>bitfield := memset_bytes (bitfield m1) 0 bitfield_entries,
                            total_available_pages := available_pages,
                            total_memory := total_mem,
                            total_pages := drop_bit 12 total_mem,
                            free_memory := last_available_adress - first_available_address,
                            locked_memory := 0,
                            reserved_memory := 0,
                            last_available_page_address := last_available_adress,
                            first_available_page_addr := first_available_address\<rparr>
                in if \<not> IS_ALIGNED first_available_address \<or> \<not> IS_ALIGNED bitfield_address
                   then panic ''Memory alignment error!''
                   else bind_res (reserve_pages 0 (drop_bit 12 (bitfield_entries + 72 + 0x3000)) m2)
                          (\<lambda>m3. ret (Some m3)))"

subsection \<open>The bitmap as a set of taken frames\<close>

definition taken :: "system_memory \<Rightarrow> u64 \<Rightarrow> bool" where
  "taken m x \<longleftrightarrow> bit (bitfield m (drop_bit 3 x)) (unat (x mod 8))"

lemma unat_mod_8: "unat (x mod 8 :: u64) < 8"
  by (simp add: unat_mod)

lemma page_index_eqI:
  assumes "drop_bit 3 x = drop_bit 3 (y::u64)" and "x mod 8 = y mod 8"
  shows "x = y"
proof -
  have "take_bit 3 x = take_bit 3 y" using assms(2) by (simp add: take_bit_eq_mod)
  with assms(1) show ?thesis by (metis bits_ident)
qed

lemma GET_PAGE_BIT_taken: "GET_PAGE_BIT x m = of_bool (taken m x)"
proof (rule bit_word_eqI)
  fix n assume "n < LENGTH(8)"
  then show "bit (GET_PAGE_BIT x m) n = bit (of_bool (taken m x) :: u8) n"
    using unat_mod_8 [of x]
    by (simp add: GET_PAGE_BIT_def taken_def bit_drop_bit_eq bit_and_iff bit_single bit_of_bool_iff)
      (auto simp: bit_1_iff)
qed

lemma taken_SET: "taken (SET_PAGE_BIT x m) y \<longleftrightarrow> y = x \<or> taken m y"
proof (cases "drop_bit 3 y = drop_bit 3 x")
  case True
  then have "unat (y mod 8) = unat (x mod 8) \<longleftrightarrow> y = x"
    using page_index_eqI [of y x] by (auto dest: word_unat_eq_iff [THEN iffD2])
  with True show ?thesis using unat_mod_8 [of x]
    by (simp add: SET_PAGE_BIT_def taken_def bit_or_iff bit_single) blast
next
  case False
  then show ?thesis by (auto simp: SET_PAGE_BIT_def taken_def)
qed

lemma taken_CLEAR: "taken (CLEAR_PAGE_BIT x m) y \<longleftrightarrow> y \<noteq> x \<and> taken m y"
proof (cases "drop_bit 3 y = drop_bit 3 x")
  case True
  then have "unat (y mod 8) = unat (x mod 8) \<longleftrightarrow> y = x"
    using page_index_eqI [of y x] by (auto dest: word_unat_eq_iff [THEN iffD2])
  with True show ?thesis using unat_mod_8 [of x] unat_mod_8 [of y]
    by (simp add: CLEAR_PAGE_BIT_def taken_def bit_and_iff bit_not_iff bit_single) blast
next
  case False
  then show ?thesis by (auto simp: CLEAR_PAGE_BIT_def taken_def)
qed

lemma ADDR_TO_PAGE_push: "x < 2 ^ 52 \<Longrightarrow> ADDR_TO_PAGE (push_bit 12 x) = x"
  by (simp add: ADDR_TO_PAGE_def word_unat_eq_iff word_less_nat_alt unat_drop_bit_div unat_push_bit_small)

lemma SET_PAGE_BIT_frame [simp]:
  "total_available_pages (SET_PAGE_BIT x m) = total_available_pages m"
  "first_available_page_addr (SET_PAGE_BIT x m) = first_available_page_addr m"
  "free_memory (SET_PAGE_BIT x m) = free_memory m"
  "locked_memory (SET_PAGE_BIT x m) = locked_memory m"
  "reserved_memory (SET_PAGE_BIT x m) = reserved_memory m"
  by (simp_all add: SET_PAGE_BIT_def)

lemma CLEAR_PAGE_BIT_frame [simp]:
  "total_available_pages (CLEAR_PAGE_BIT x m) = total_available_pages m"
  "first_available_page_addr (CLEAR_PAGE_BIT x m) = first_available_page_addr m"
  "free_memory (CLEAR_PAGE_BIT x m) = free_memory m"
  "locked_memory (CLEAR_PAGE_BIT x m) = locked_memory m"
  "reserved_memory (CLEAR_PAGE_BIT x m) = reserved_memory m"
  by (simp_all add: CLEAR_PAGE_BIT_def)

lemma lock_page_eq_ret:
  "lock_page a m = ret m' \<longleftrightarrow>
     ADDR_TO_PAGE a \<le> total_available_pages m \<and> \<not> taken m (ADDR_TO_PAGE a) \<and>
     m' = (SET_PAGE_BIT (ADDR_TO_PAGE a) m)
       \<lparr>free_memory := free_memory m - PAGESIZE, locked_memory := locked_memory m + PAGESIZE\<rparr>"
  by (auto simp: lock_page_def get_page_bit_def set_page_bit_def Let_def GET_PAGE_BIT_taken taken_SET
      bind_res_eq_ret split: if_splits)

lemma reserve_page_eq_ret:
  "reserve_page a m = ret m' \<longleftrightarrow>
     ADDR_TO_PAGE a \<le> total_available_pages m \<and> \<not> taken m (ADDR_TO_PAGE a) \<and>
     m' = (SET_PAGE_BIT (ADDR_TO_PAGE a) m)
       \<lparr>free_memory := free_memory m - PAGESIZE, reserved_memory := reserved_memory m + PAGESIZE\<rparr>"
  by (auto simp: reserve_page_def get_page_bit_def set_page_bit_def Let_def GET_PAGE_BIT_taken taken_SET
      bind_res_eq_ret split: if_splits)

lemma unlock_page_eq_ret:
  "unlock_page a m = ret m' \<longleftrightarrow>
     ADDR_TO_PAGE a \<le> total_available_pages m \<and> taken m (ADDR_TO_PAGE a) \<and>
     m' = (CLEAR_PAGE_BIT (ADDR_TO_PAGE a) m)
       \<lparr>free_memory := free_memory m - PAGESIZE, locked_memory := locked_memory m + PAGESIZE\<rparr>"
  by (auto simp: unlock_page_def get_page_bit_def clear_page_bit_def Let_def GET_PAGE_BIT_taken 
      bind_res_eq_ret split: if_splits)

lemma taken_counters [simp]:
  "taken (m\<lparr>free_memory := a\<rparr>) = taken m" "taken (m\<lparr>locked_memory := a\<rparr>) = taken m"
  "taken (m\<lparr>reserved_memory := a\<rparr>) = taken m" 
  by (simp_all add: taken_def fun_eq_iff)

lemma search_free_taken:
  "taken m cur \<Longrightarrow> cur < total_available_pages m \<Longrightarrow> cur \<noteq> first \<Longrightarrow>
   search_free m first cur = search_free m first (cur + 1)"
  by (subst search_free.simps) (auto simp: GET_PAGE_BIT_taken)

lemma search_free_top:
  "taken m cur \<Longrightarrow> cur \<ge> total_available_pages m \<Longrightarrow> first \<noteq> 0 \<Longrightarrow>
   search_free m first cur = search_free m first 1"
  by (subst search_free.simps) (simp add: GET_PAGE_BIT_taken)

lemma search_free_untaken: "\<not> taken m cur \<Longrightarrow> search_free m first cur = ret cur"
  by (subst search_free.simps) (simp add: GET_PAGE_BIT_taken)

lemma search_free_scan:
  assumes "\<And>j. cur \<le> j \<Longrightarrow> j < k \<Longrightarrow> taken m j \<and> j \<noteq> first"
    and "cur \<le> k" and "k \<le> total_available_pages m"
  shows "search_free m first cur = search_free m first k"
  using assms
proof (induction "unat k - unat cur" arbitrary: cur)
  case 0
  then have "cur = k" by (simp add: word_le_nat_alt word_unat_eq_iff)
  then show ?case by simp
next
  case (Suc n)
  then have lt: "cur < k" by (simp add: word_less_nat_alt)
  with Suc.prems(1)[of cur] Suc.prems(3)
  have "search_free m first cur = search_free m first (cur + 1)"
    by (intro search_free_taken) auto
  also have "\<dots> = search_free m first k"
  proof (rule Suc.hyps(1))
    show "n = unat k - unat (cur + 1)" using Suc.hyps(2) word_plus_1_nat[OF lt] by simp
    show "cur + 1 \<le> k" using lt word_plus_1_nat[OF lt] by (simp add: word_le_nat_alt word_less_nat_alt)
    show "k \<le> total_available_pages m" by fact
  next
    fix j assume "cur + 1 \<le> j" "j < k"
    then have "cur \<le> j" using word_plus_1_nat[OF lt] by (simp add: word_le_nat_alt)
    then show "taken m j \<and> j \<noteq> first" using Suc.prems(1) \<open>j < k\<close> by blast
  qed
  finally show ?case .
qed

lemma search_free_finds:
  assumes free: "1 \<le> k" "k \<le> total_available_pages m" "\<not> taken m k"
    and start: "s \<le> total_available_pages m" and small: "total_available_pages m < 2 ^ 52"
  shows "\<exists>k'. search_free m (s - 1) s = ret k' \<and> \<not> taken m k' \<and> k' \<le> total_available_pages m"
proof (cases "\<exists>k'. s \<le> k' \<and> k' \<le> total_available_pages m \<and> \<not> taken m k'")
  case True
  then obtain k0 where k0: "s \<le> k0" "k0 \<le> total_available_pages m" "\<not> taken m k0"
    and min: "\<And>j. j < k0 \<Longrightarrow> \<not> (s \<le> j \<and> j \<le> total_available_pages m \<and> \<not> taken m j)"
    using least_word[of "\<lambda>k'. s \<le> k' \<and> k' \<le> total_available_pages m \<and> \<not> taken m k'"] by metis
  have "search_free m (s - 1) s = search_free m (s - 1) k0"
  proof (rule search_free_scan[OF _ k0(1,2)])
    fix j assume j: "s \<le> j" "j < k0"
    then have "taken m j" using min[of j] k0(2) by (meson less_imp_le order_trans)
    moreover have "j \<noteq> s - 1"
      using j k0(2) small by unat_arith
    ultimately show "taken m j \<and> j \<noteq> s - 1" ..
  qed
  then show ?thesis using k0 search_free_untaken by auto
next
  case False
  then have all: "\<And>j. s \<le> j \<Longrightarrow> j \<le> total_available_pages m \<Longrightarrow> taken m j" by blast
  with free have ks: "k < s" by (meson not_le)
  then have s2: "s - 1 \<noteq> 0" "unat (s - 1) = unat s - 1" using free(1) by unat_arith+
  obtain k0 where k0: "1 \<le> k0" "k0 \<le> k" "\<not> taken m k0"
    and min: "\<And>j. j < k0 \<Longrightarrow> \<not> (1 \<le> j \<and> \<not> taken m j)"
    using least_word[of "\<lambda>j. 1 \<le> j \<and> \<not> taken m j" k] free by metis
  let ?T = "total_available_pages m"
  have "search_free m (s - 1) s = search_free m (s - 1) ?T"
    by (rule search_free_scan) (use all start s2 ks in \<open>auto simp: word_le_nat_alt word_less_nat_alt\<close>)
  also have "\<dots> = search_free m (s - 1) 1"
    by (rule search_free_top) (use all start s2 in auto)
  also have "\<dots> = search_free m (s - 1) k0"
  proof (rule search_free_scan[OF _ k0(1)])
    show "k0 \<le> ?T" using k0 free by simp
  next
    fix j assume "1 \<le> j" "j < k0"
    then show "taken m j \<and> j \<noteq> s - 1" using min[of j] k0(2) ks s2
      by (auto simp: word_le_nat_alt word_less_nat_alt)
  qed
  finally show ?thesis using k0 free search_free_untaken by (metis order_trans)
qed

definition frames_wf :: "system_memory \<Rightarrow> bool" where
  "frames_wf m \<longleftrightarrow> 0 < total_available_pages m \<and> total_available_pages m < 2 ^ 52"

lemma search_free_step_le:
  "frames_wf m \<Longrightarrow> (if cur \<ge> total_available_pages m then 0 else cur) + 1 \<le> total_available_pages m"
  unfolding frames_wf_def by (cases "total_available_pages m \<le> cur") (simp_all, unat_arith+)

definition search_ok :: "system_memory \<Rightarrow> u64 \<Rightarrow> kerror + u64 \<Rightarrow> bool" where
  "search_ok m cur r \<longleftrightarrow> (\<forall>k. r = Inr k \<longrightarrow> \<not> taken m k \<and>
     (frames_wf m \<longrightarrow> cur \<le> total_available_pages m \<longrightarrow> k \<le> total_available_pages m))"

lemma search_free_ok:
  assumes "search_free m first cur = Some r"
  shows "search_ok m cur r"
proof (rule search_free.raw_induct [where P = "\<lambda>m first cur r. search_ok m cur r", OF _ assms])
  fix search m first cur r
  assume IH: "\<And>m first cur r. search m first cur = Some r \<Longrightarrow> search_ok m cur r"
    and eq: "(if GET_PAGE_BIT cur m = 1 then
        let cur' = (if cur \<ge> total_available_pages m then 0 else cur) in
        if cur' = first then panic ''No free pages available!'' else search m first (cur' + 1)
      else ret cur) = Some r"
  define c where "c = (if cur \<ge> total_available_pages m then 0 else cur)"
  show "search_ok m cur r"
  proof (cases "taken m cur")
    case True
    with eq have "(if c = first then panic ''No free pages available!''
        else search m first (c + 1)) = Some r"
      by (auto simp: GET_PAGE_BIT_taken c_def split: if_splits)
    then show ?thesis using IH [of m first "c + 1" r] search_free_step_le [of m cur]
      by (auto simp: c_def [symmetric] search_ok_def split: if_splits)
  next
    case False
    with eq show ?thesis by (auto simp: GET_PAGE_BIT_taken search_ok_def)
  qed
qed

lemma search_free_sound:
  assumes "search_free m first cur = ret k"
  shows "\<not> taken m k" 
    and "frames_wf m \<Longrightarrow> cur \<le> total_available_pages m \<Longrightarrow> k \<le> total_available_pages m"
  using search_free_ok [OF assms] by (auto simp: search_ok_def)

definition frames_inv :: "frames \<Rightarrow> bool" where
  "frames_inv f \<longleftrightarrow> frames_wf (sysmem f) \<and> last_requested f \<le> total_available_pages (sysmem f)"

definition page_addr :: "system_memory \<Rightarrow> u64 \<Rightarrow> u64" where
  "page_addr m k = first_available_page_addr m + push_bit 12 k"

lemma frames_le_small: "frames_wf m \<Longrightarrow> k \<le> total_available_pages m \<Longrightarrow> k < 2 ^ 52"
  by (auto simp: frames_wf_def)

definition locked :: "u64 \<Rightarrow> system_memory \<Rightarrow> system_memory" where
  "locked k m = (SET_PAGE_BIT k m)\<lparr>free_memory := free_memory m - PAGESIZE,
     locked_memory := locked_memory m + PAGESIZE\<rparr>"

lemma locked_simps [simp]:
  "taken (locked k m) j \<longleftrightarrow> j = k \<or> taken m j"
  "total_available_pages (locked k m) = total_available_pages m"
  "first_available_page_addr (locked k m) = first_available_page_addr m"
  "page_addr (locked k m) = page_addr m"
  by (simp_all add: locked_def taken_SET page_addr_def fun_eq_iff)

definition granted :: "u64 \<Rightarrow> frames \<Rightarrow> frames" where
  "granted k f = f\<lparr>sysmem := locked k (sysmem f), last_requested := k,
     statistics_requested := statistics_requested f + 1\<rparr>"

lemma granted_simps [simp]:
  "sysmem (granted k f) = locked k (sysmem f)" "last_requested (granted k f) = k"
  by (simp_all add: granted_def)

text \<open>What \<^verbatim>\<open>request_page\<close> amounts to on a well-formed allocator.\<close>

lemma request_page_search:
  assumes "frames_inv f"
  shows "request_page f =
     bind_res (search_free (sysmem f) (last_requested f - 1) (last_requested f))
       (\<lambda>k. ret (granted k f, page_addr (sysmem f) k))"
  unfolding request_page_def Let_def
proof (rule bind_res_cong [OF refl])
  fix k assume k: "search_free (sysmem f) (last_requested f - 1) (last_requested f) = ret k"
  with assms search_free_sound [OF k]
  have "k \<le> total_available_pages (sysmem f)" "\<not> taken (sysmem f) k"
    by (auto simp: frames_inv_def)
  with assms frames_le_small [of "sysmem f" k]
  have "lock_page (push_bit 12 k) (sysmem f) = ret (locked k (sysmem f))"
    by (simp add: lock_page_eq_ret ADDR_TO_PAGE_push locked_def frames_inv_def)
  then show "bind_res (lock_page (push_bit 12 k) (sysmem f)) (\<lambda>m.
        if GET_PAGE_BIT k m = 0 then panic ''Page not reserved!''
        else ret (f\<lparr>sysmem := m, last_requested := k,
                    statistics_requested := statistics_requested f + 1\<rparr>,
                  first_available_page_addr m + push_bit 12 k)) =
      ret (granted k f, page_addr (sysmem f) k)"
    by (simp add: GET_PAGE_BIT_taken page_addr_def granted_def)
qed

lemma request_page_ret:
  assumes "frames_inv f" and "request_page f = ret (f', p)"
  obtains k where "k \<le> total_available_pages (sysmem f)" "\<not> taken (sysmem f) k"
    "f' = granted k f" "p = page_addr (sysmem f) k"
  using assms search_free_sound [of "sysmem f" "last_requested f - 1" "last_requested f"]
  by (auto simp: request_page_search bind_res_eq_ret frames_inv_def)

lemma request_page_inv:
  assumes "frames_inv f" and "request_page f = ret (f', p)"
  shows "frames_inv f'"
proof -
  from assms obtain k where "k \<le> total_available_pages (sysmem f)" "f' = granted k f"
    by (rule request_page_ret)
  with assms(1) show ?thesis by (simp add: frames_inv_def frames_wf_def)
qed

lemma unat_ALIGN_ADDR:
  assumes "unat x + 4096 < 2 ^ 64"
  shows "unat (ALIGN_ADDR x) = (unat x + 4095) div 4096 * 4096"
proof (cases "x AND 0xFFF = 0")
  case True
  then have "unat x mod 4096 = 0" by (metis unat_and_page_mask unat_0)
  then have "(unat x + 4095) div 4096 * 4096 = unat x" by (rule page_ceil_aligned)
  with True show ?thesis by (simp add: ALIGN_ADDR_def and.commute)
next
  case False
  then have "unat x mod 4096 \<noteq> 0" by (metis unat_and_page_mask unat_eq_zero)
  then have "(unat x + 4096) div 4096 = (unat x + 4095) div 4096" by (rule page_ceil_unaligned)
  moreover have "unat (x + PAGESIZE) = unat x + 4096" using assms by (simp add: unat_add_small)
  ultimately have "unat (x + PAGESIZE) div 4096 = (unat x + 4095) div 4096" by simp
  with False show ?thesis by (simp add: ALIGN_ADDR_def and.commute unat_page_floor)
qed

lemma IS_ALIGNED_iff: "IS_ALIGNED x \<longleftrightarrow> unat x mod 4096 = 0"
  by (simp add: IS_ALIGNED_def word_unat_eq_iff unat_and_page_mask)

lemma taken_memset: "taken (m\<lparr>bitfield := memset_bytes bf v n\<rparr>) k \<longleftrightarrow>
   (if drop_bit 3 k < n then bit v (unat (k mod 8)) else bit (bf (drop_bit 3 k)) (unat (k mod 8)))"
  by (simp add: taken_def memset_bytes_def)

lemma selftest_passes: "bitfield_selftest (m\<lparr>bitfield := memset_bytes raw 0x55 100\<rparr>)"
proof -
  have ev: "bit (0x55::u8) j \<longleftrightarrow> j mod 2 = 0" if "j < 8" for j :: nat
  proof -
    from that have "j \<in> {0,1,2,3,4,5,6,7}" by auto
    then show ?thesis by (auto simp: bit_numeral_rec)
  qed
  have "taken (m\<lparr>bitfield := memset_bytes raw 0x55 100\<rparr>) (word_of_nat (i * 8 + j)) \<longleftrightarrow> j mod 2 = 0"
    if "i < 100" "j < 8" for i j :: nat
  proof -
    have u: "unat (word_of_nat (i * 8 + j) :: u64) = i * 8 + j" using that by (intro unat_of_nat_small) simp
    then have "unat (drop_bit 3 (word_of_nat (i * 8 + j) :: u64)) = i" 
      using that by (simp only: unat_drop_bit_div) simp
    moreover have "unat (word_of_nat (i * 8 + j) mod 8 :: u64) = j" 
      using that u by (simp add: unat_mod)
    ultimately show ?thesis using that ev
      by (simp only: taken_memset word_less_nat_alt) simp
  qed
  then show ?thesis by (simp add: bitfield_selftest_def GET_PAGE_BIT_taken)
qed

subsection \<open>The frames in use over any run of requests and releases\<close>

lemma push_page_inj: "j < 2 ^ 52 \<Longrightarrow> k < 2 ^ 52 \<Longrightarrow> push_bit 12 j = (push_bit 12 k :: u64) \<longleftrightarrow> j = k"
  by (metis ADDR_TO_PAGE_push)

lemma page_addr_inj:
  "j < 2 ^ 52 \<Longrightarrow> k < 2 ^ 52 \<Longrightarrow> page_addr m j = page_addr m k \<longleftrightarrow> j = k"
  by (simp add: page_addr_def push_page_inj)

definition unlocked :: "u64 \<Rightarrow> system_memory \<Rightarrow> system_memory" where
  "unlocked k m = (CLEAR_PAGE_BIT k m)\<lparr>free_memory := free_memory m - PAGESIZE,
     locked_memory := locked_memory m + PAGESIZE\<rparr>"

lemma unlocked_simps [simp]:
  "taken (unlocked k m) j \<longleftrightarrow> j \<noteq> k \<and> taken m j"
  "total_available_pages (unlocked k m) = total_available_pages m"
  "first_available_page_addr (unlocked k m) = first_available_page_addr m"
  "page_addr (unlocked k m) = page_addr m"
  by (simp_all add: unlocked_def taken_CLEAR page_addr_def fun_eq_iff)

lemma free_page_ret:
  assumes "k < 2 ^ 52" and "free_page (page_addr m k) m = ret m'"
  shows "taken m k \<and> m' = unlocked k m"
proof -
  have "drop_bit 12 (push_bit 12 k) = k" 
    using ADDR_TO_PAGE_push [OF assms(1)] by (simp add: ADDR_TO_PAGE_def)
  with assms(2) show ?thesis
    by (auto simp: free_page_def Let_def page_addr_def GET_PAGE_BIT_taken bind_res_eq_ret unlock_page_eq_ret
      ADDR_TO_PAGE_def unlocked_def taken_CLEAR split: if_splits)
qed

lemma free_page_returns:
  assumes "frames_wf m" and "k \<le> total_available_pages m" and "taken m k"
    and "first_available_page_addr m \<le> page_addr m k"
  shows "free_page (page_addr m k) m = ret (unlocked k m)"
proof -
  from assms frames_le_small have k: "k < 2 ^ 52" by blast
  then have "drop_bit 12 (push_bit 12 k) = k" 
    using ADDR_TO_PAGE_push [of k] by (simp add: ADDR_TO_PAGE_def)
  moreover then have "unlock_page (push_bit 12 k) m = ret (unlocked k m)"
    using assms by (simp add: unlock_page_eq_ret ADDR_TO_PAGE_def unlocked_def)
  ultimately show ?thesis using assms
    by (simp add: free_page_def Let_def page_addr_def GET_PAGE_BIT_taken)
qed

text \<open>
  A run of the allocator: requests and releases in any order, with the set of addresses handed out
  and not yet released. Only such an address is released.
\<close>

inductive frames_run :: "frames \<Rightarrow> frames \<Rightarrow> u64 set \<Rightarrow> bool" for f0 where
  start: "frames_run f0 f0 {}"
| request: "frames_run f0 f L \<Longrightarrow> request_page f = ret (f', p) \<Longrightarrow> frames_run f0 f' (insert p L)"
| release: "frames_run f0 f L \<Longrightarrow> p \<in> L \<Longrightarrow> free_page p (sysmem f) = ret m \<Longrightarrow>
    frames_run f0 (f\<lparr>sysmem := m\<rparr>) (L - {p})"

definition live_in :: "system_memory \<Rightarrow> u64 \<Rightarrow> bool" where
  "live_in m p \<longleftrightarrow> (\<exists>k \<le> total_available_pages m. p = page_addr m k \<and> taken m k)"

lemma live_in_locked: "live_in m p \<Longrightarrow> live_in (locked k m) p"
  by (auto simp: live_in_def)

lemma live_in_unlocked:
  assumes "live_in m p" and "p \<noteq> page_addr m k"
  shows "live_in (unlocked k m) p"
  using assms by (auto simp: live_in_def)

lemma frames_run_inv:
  assumes "frames_run f0 f L" and "frames_inv f0"
  shows "frames_inv f \<and> (\<forall>p \<in> L. live_in (sysmem f) p)"
  using assms
proof (induction rule: frames_run.induct)
  case (request f L f' p)
  then have inv: "frames_inv f" by blast
  from this request.hyps(2) obtain k where k: "k \<le> total_available_pages (sysmem f)"
    "f' = granted k f" "p = page_addr (sysmem f) k" by (rule request_page_ret)
  then have "live_in (sysmem f') p" by (auto simp: live_in_def)
  with k request inv show ?case by (auto intro: live_in_locked request_page_inv)
next
  case (release f L p m)
  then have inv: "frames_inv f" and "live_in (sysmem f) p" by blast+
  then obtain k where k: "k \<le> total_available_pages (sysmem f)" "p = page_addr (sysmem f) k"
    by (auto simp: live_in_def)
  with release.hyps(3) inv have "m = unlocked k (sysmem f)"
    using free_page_ret frames_le_small unfolding frames_inv_def by blast
  with k release inv show ?case
    by (auto simp: frames_inv_def frames_wf_def intro: live_in_unlocked)
qed simp

lemma request_page_not_live:
  assumes "frames_inv f" and "request_page f = ret (f', p)"
  shows "\<not> live_in (sysmem f) p"
proof
  assume "live_in (sysmem f) p"
  then obtain j where j: "j \<le> total_available_pages (sysmem f)" "p = page_addr (sysmem f) j"
    "taken (sysmem f) j" by (auto simp: live_in_def)
  from assms obtain k where "k \<le> total_available_pages (sysmem f)" "\<not> taken (sysmem f) k"
    "p = page_addr (sysmem f) k" by (rule request_page_ret)
  with j show False using assms(1) frames_le_small
    by (metis frames_inv_def page_addr_inj)
qed

subsection \<open>Start-up\<close>

lemma reserve_first:
  assumes "n \<le> unat (total_available_pages m)" and "frames_wf m"
    and "\<And>k. unat k < n \<Longrightarrow> \<not> taken m k"
  shows "\<exists>m'. iter_res (\<lambda>i. reserve_page (push_bit 12 i)) (map word_of_nat [0..<n]) m = ret m' \<and>
    (\<forall>k. taken m' k \<longleftrightarrow> unat k < n \<or> taken m k) \<and>
    total_available_pages m' = total_available_pages m \<and>
    first_available_page_addr m' = first_available_page_addr m \<and>
    free_memory m' = free_memory m - word_of_nat n * PAGESIZE \<and>
    reserved_memory m' = reserved_memory m + word_of_nat n * PAGESIZE"
  using assms(1,3)
proof (induction n)
  case (Suc n)
  then obtain m' where m': "iter_res (\<lambda>i. reserve_page (push_bit 12 i)) (map word_of_nat [0..<n]) m = ret m'"
    "\<And>k. taken m' k \<longleftrightarrow> unat k < n \<or> taken m k" "total_available_pages m' = total_available_pages m"
    "first_available_page_addr m' = first_available_page_addr m"
    "free_memory m' = free_memory m - word_of_nat n * PAGESIZE"
    "reserved_memory m' = reserved_memory m + word_of_nat n * PAGESIZE"
    using less_SucI Suc_leD by blast
  define k :: u64 where "k = word_of_nat n"
  have n: "n < 2 ^ 52" using Suc.prems(1) assms(2) by (auto simp: frames_wf_def word_less_nat_alt)
  then have kn: "unat k = n" by (simp add: k_def unat_of_nat_small)
  with Suc.prems m'(2) have "\<not> taken m' k" by auto
  moreover have "k \<le> total_available_pages m'" using kn Suc.prems(1) m'(3) by (simp add: word_le_nat_alt)
  moreover have "ADDR_TO_PAGE (push_bit 12 k) = k" using n kn by (intro ADDR_TO_PAGE_push) (simp add: word_less_nat_alt)
  ultimately have "reserve_page (push_bit 12 k) m' = ret ((SET_PAGE_BIT k m')
     \<lparr>free_memory := free_memory m' - PAGESIZE, reserved_memory := reserved_memory m' + PAGESIZE\<rparr>)"
    by (simp add: reserve_page_eq_ret)
  moreover have "j = k \<longleftrightarrow> unat j = n" for j using kn by (metis word_unat_eq_iff)
  ultimately show ?case using m'
    by (auto simp: iter_res_append k_def [symmetric] taken_SET algebra_simps less_Suc_eq)
qed (simp_all add: word_less_nat_alt)

lemma reserve_pages_from_0:
  assumes "n \<le> total_available_pages m" and "frames_wf m" and "\<And>k. k < n \<Longrightarrow> \<not> taken m k"
  shows "\<exists>m'. reserve_pages 0 n m = ret m' \<and> (\<forall>k. taken m' k \<longleftrightarrow> k < n \<or> taken m k) \<and>
    total_available_pages m' = total_available_pages m \<and>
    first_available_page_addr m' = first_available_page_addr m \<and>
    free_memory m' = free_memory m - n * PAGESIZE \<and>
    reserved_memory m' = reserved_memory m + n * PAGESIZE"
  using reserve_first [of "unat n" m] assms
  by (simp add: reserve_pages_def for_u64_def word_le_nat_alt word_less_nat_alt)

lemma biggest_chunk:
  assumes "chunk = iterate_memory init_memory_cb mm c0"
  shows "(chunk = c0 \<or> (chunk_addr chunk, chunk_size chunk, MEMMAP_USABLE) \<in> set mm) \<and>
    chunk_size c0 \<le> chunk_size chunk \<and>
    (\<forall>(base, len, type) \<in> set mm. type = MEMMAP_USABLE \<longrightarrow> len \<le> chunk_size chunk)"
  unfolding assms iterate_memory_def
proof (induction mm rule: rev_induct)
  case (snoc e mm)
  then show ?case by (cases e) (auto simp: init_memory_cb_def)
qed simp

definition first_of :: "chunk_data \<Rightarrow> u64" where
  "first_of c = ALIGN_ADDR (chunk_addr c)"

definition pages_of :: "chunk_data \<Rightarrow> u64" where
  "pages_of c = drop_bit 12 (ALIGN_ADDR (chunk_addr c + chunk_size c) - first_of c)"

definition bitmap_bytes :: "chunk_data \<Rightarrow> u64" where
  "bitmap_bytes c = (if pages_of c mod 8 = 0 then drop_bit 3 (pages_of c) else drop_bit 3 (pages_of c) + 1)"

definition chunk_ok :: "chunk_data \<Rightarrow> bool" where
  "chunk_ok c \<longleftrightarrow> unat (chunk_addr c) + unat (chunk_size c) + 4096 < 2 ^ 64 \<and>
     bitmap_bytes c + 72 + 0x3000 \<le> chunk_size c"

definition used_of :: "chunk_data \<Rightarrow> u64" where
  "used_of c = drop_bit 12 (bitmap_bytes c + 72 + 0x3000)"

lemma unat_pages_of:
  assumes "chunk_ok c"
  shows "unat (chunk_size c) div 4096 \<le> unat (pages_of c)" and "unat (pages_of c) < 2 ^ 52"
proof -
  let ?a = "unat (chunk_addr c)" and ?s = "unat (chunk_size c)"
  have lim: "?a + ?s + 4096 < 2 ^ 64" using assms by (simp add: chunk_ok_def)
  then have f: "unat (first_of c) = (?a + 4095) div 4096 * 4096"
    unfolding first_of_def by (intro unat_ALIGN_ADDR) simp
  have as: "unat (chunk_addr c + chunk_size c) = ?a + ?s" using lim by (intro unat_add_small) simp
  then have l: "unat (ALIGN_ADDR (chunk_addr c + chunk_size c)) = (?a + ?s + 4095) div 4096 * 4096"
    using lim by (subst unat_ALIGN_ADDR) simp_all
  have mono: "(?a + 4095) div 4096 + ?s div 4096 \<le> (?a + ?s + 4095) div 4096"
    using div_add1_eq [of "?a + 4095" ?s 4096] by (simp add: add.commute add.left_commute)
  then have "first_of c \<le> ALIGN_ADDR (chunk_addr c + chunk_size c)"
    by (simp add: word_le_nat_alt f l)
  then have "unat (ALIGN_ADDR (chunk_addr c + chunk_size c) - first_of c) =
      (?a + ?s + 4095) div 4096 * 4096 - (?a + 4095) div 4096 * 4096"
    by (simp add: unat_sub f l)
  also have "\<dots> = ((?a + ?s + 4095) div 4096 - (?a + 4095) div 4096) * 4096"
    by (simp add: diff_mult_distrib)
  finally have p: "unat (pages_of c) = (?a + ?s + 4095) div 4096 - (?a + 4095) div 4096"
    by (simp add: pages_of_def unat_drop_bit_div)
  from p mono show "?s div 4096 \<le> unat (pages_of c)"
    by (metis add.commute add_le_imp_le_diff)
  have "(?a + ?s + 4095) div 4096 - (?a + 4095) div 4096 \<le> (?a + ?s + 4095) div 4096" by (rule diff_le_self)
  also have "\<dots> < 2 ^ 52"
    using lim by (intro less_mult_imp_div_less) simp
  finally show "unat (pages_of c) < 2 ^ 52" by (simp only: p)
qed

lemma unat_bitmap_bytes:
  assumes "chunk_ok c"
  shows "unat (bitmap_bytes c) = (unat (pages_of c) + 7) div 8"
proof -
  have "unat (drop_bit 3 (pages_of c)) + unat (1::u64) < 2 ^ 64"
    using unat_pages_of(2) [OF assms] by (simp add: unat_drop_bit_div)
  then have "unat (drop_bit 3 (pages_of c) + 1) = unat (drop_bit 3 (pages_of c)) + 1"
    by (simp only: unat_add_small) simp
  moreover have "pages_of c mod 8 = 0 \<longleftrightarrow> unat (pages_of c) mod 8 = 0"
    by (simp add: word_unat_eq_iff unat_mod)
  ultimately show ?thesis by (auto simp: bitmap_bytes_def unat_drop_bit_div) presburger+
qed

lemma used_of_bounds:
  assumes "chunk_ok c"
  shows "3 \<le> unat (used_of c)" and "used_of c \<le> pages_of c"
    and "4096 + unat (bitmap_bytes c) + 4096 < unat (used_of c) * 4096"
    and "unat (used_of c) * 4096 \<le> 4096 + unat (bitmap_bytes c) + 2 * 4096 + 72"
proof -
  let ?e = "unat (bitmap_bytes c)"
  have "?e < 2 ^ 50"
    unfolding unat_bitmap_bytes [OF assms] using unat_pages_of(2) [OF assms]
    by (intro less_mult_imp_div_less) simp
  then have sz: "unat (bitmap_bytes c + 72 + 0x3000) = ?e + 72 + 0x3000"
    by (simp add: unat_add_small add.assoc)
  then have u: "unat (used_of c) = (?e + 72 + 0x3000) div 4096"
    by (simp add: used_of_def unat_drop_bit_div)
  then show "3 \<le> unat (used_of c)" by simp
  have "?e + 72 + 0x3000 \<le> unat (chunk_size c)"
    using assms sz by (simp add: chunk_ok_def word_le_nat_alt)
  then have "unat (used_of c) \<le> unat (chunk_size c) div 4096" using u by (simp add: div_le_mono)
  also have "\<dots> \<le> unat (pages_of c)" using unat_pages_of(1) [OF assms] .
  finally show "used_of c \<le> pages_of c" by (simp add: word_le_nat_alt)
  have "?e + 72 + 0x3000 < unat (used_of c) * 4096 + 4096"
    using dividend_less_div_times [of 4096 "?e + 72 + 0x3000"] u by simp
  then show "4096 + ?e + 4096 < unat (used_of c) * 4096" by simp
  show "unat (used_of c) * 4096 \<le> 4096 + ?e + 2 * 4096 + 72"
    using div_times_less_eq_dividend [of "?e + 72 + 0x3000" 4096] u by simp
qed

lemma IS_ALIGNED_ALIGN_ADDR: "IS_ALIGNED (ALIGN_ADDR x)"
proof (cases "x AND 0xFFF = 0")
  case True
  then show ?thesis by (simp add: IS_ALIGNED_def ALIGN_ADDR_def and.commute)
next
  case False
  then show ?thesis by (simp add: IS_ALIGNED_iff ALIGN_ADDR_def and.commute unat_page_floor)
qed

lemma frame_byte:
  assumes "chunk_ok c" and "k < pages_of c"
  shows "drop_bit 3 k < bitmap_bytes c"
proof -
  have "unat k div 8 < (unat (pages_of c) + 7) div 8" using assms(2) by (simp add: word_less_nat_alt)
  then show ?thesis by (simp add: word_less_nat_alt unat_drop_bit_div unat_bitmap_bytes assms(1))
qed

lemma taken_other_fields [simp]:
  "taken (m\<lparr>total_available_pages := x\<rparr>) = taken m" "taken (m\<lparr>total_memory := x\<rparr>) = taken m"
  "taken (m\<lparr>total_pages := x\<rparr>) = taken m" "taken (m\<lparr>last_available_page_address := x\<rparr>) = taken m"
  "taken (m\<lparr>first_available_page_addr := x\<rparr>) = taken m"
  by (simp_all add: taken_def fun_eq_iff)

definition fresh_memory :: "memmap \<Rightarrow> (u64 \<Rightarrow> u8) \<Rightarrow> system_memory \<Rightarrow> chunk_data \<Rightarrow> system_memory" where
  "fresh_memory mm raw m0 c = m0
     \<lparr>bitfield := memset_bytes (memset_bytes raw 0x55 100) 0 (bitmap_bytes c),
      total_available_pages := pages_of c, total_memory := get_total_memory mm 0,
      total_pages := drop_bit 12 (get_total_memory mm 0),
      free_memory := ALIGN_ADDR (chunk_addr c + chunk_size c) - first_of c,
      locked_memory := 0, reserved_memory := 0,
      last_available_page_address := ALIGN_ADDR (chunk_addr c + chunk_size c),
      first_available_page_addr := first_of c\<rparr>"

lemma init_memory_chunk:
  assumes "chunk_size c0 = 0" and "c = iterate_memory init_memory_cb mm c0" and "chunk_ok c"
  shows "init_memory mm raw m0 c0 =
    bind_res (reserve_pages 0 (used_of c) (fresh_memory mm raw m0 c)) (\<lambda>m. ret (Some m))"
proof -
  have fits: "\<not> chunk_size c < bitmap_bytes c + 72 + 0x3000"
    using assms(3) unfolding chunk_ok_def by (simp only: not_less)
  have start: "\<not> 0 < chunk_size c0" using assms(1) by simp
  show ?thesis
    unfolding init_memory_def Let_def assms(2) [symmetric] first_of_def [symmetric]
      pages_of_def [symmetric] bitmap_bytes_def [symmetric] used_of_def [symmetric]
    by (simp only: fits start if_False if_True selftest_passes IS_ALIGNED_ALIGN_ADDR first_of_def
      not_True_eq_False simp_thms) (simp add: fresh_memory_def first_of_def)
qed

definition demo_map :: memmap where
  "demo_map = [(0, 0x9F000, 0), (0x9F000, 0x61000, 1), (0x100000, 0x7EE0000, 0), (0x7FE0000, 0x20000, 1)]"

abbreviation no_chunk :: chunk_data where
  "no_chunk \<equiv> \<lparr>chunk_addr = 0, chunk_size = 0\<rparr>"

lemma demo_chunk: "iterate_memory init_memory_cb demo_map no_chunk = \<lparr>chunk_addr = 0x100000, chunk_size = 0x7EE0000\<rparr>"
  by (simp add: iterate_memory_def demo_map_def init_memory_cb_def MEMMAP_USABLE_def)

lemma demo_chunk_ok: "chunk_ok \<lparr>chunk_addr = 0x100000, chunk_size = 0x7EE0000\<rparr>"
  by (simp add: chunk_ok_def bitmap_bytes_def pages_of_def first_of_def ALIGN_ADDR_def)

lemma lock_next_eq_ret:
  "cur < 2 ^ 52 \<Longrightarrow> lock_next i (m, cur) = ret s \<longleftrightarrow>
     cur \<le> total_available_pages m \<and> \<not> taken m cur \<and> s = (locked cur m, cur + 1)"
  by (auto simp: lock_next_def GET_PAGE_BIT_taken bind_res_eq_ret lock_page_eq_ret ADDR_TO_PAGE_push
      locked_def)

lemma contiguous_loop:
  assumes "iter_res lock_next is (m, cur) = ret (m', cur')"
    and "unat cur \<le> unat (total_available_pages m) + 1" and "unat (total_available_pages m) < 2 ^ 51"
  shows "(\<forall>j. taken m' j \<longleftrightarrow> taken m j \<or> unat cur \<le> unat j \<and> unat j < unat cur + length is) \<and>
    first_available_page_addr m' = first_available_page_addr m"
  using assms
proof (induction "is" arbitrary: m cur)
  case Nil
  then show ?case by auto
next
  case (Cons i "is")
  have small: "cur < 2 ^ 52" using Cons.prems(2,3) by (simp add: word_less_nat_alt)
  from Cons.prems(1) have le: "cur \<le> total_available_pages m" and
    loop: "iter_res lock_next is (locked cur m, cur + 1) = ret (m', cur')"
    by (auto simp: bind_res_eq_ret lock_next_eq_ret [OF small])
  have suc: "unat (cur + 1) = unat cur + 1" using small by (simp add: word_less_nat_alt unat_add_small)
  have "unat cur + 1 \<le> unat (total_available_pages m) + 1" using le by (simp add: word_le_nat_alt)
  then have IH: "(\<forall>j. taken m' j \<longleftrightarrow> taken (locked cur m) j \<or>
      unat cur + 1 \<le> unat j \<and> unat j < unat cur + 1 + length is) \<and>
      first_available_page_addr m' = first_available_page_addr (locked cur m)"
    using Cons.IH [OF loop] Cons.prems(3) by (simp only: suc locked_simps simp_thms)
  have "taken m' j \<longleftrightarrow> taken m j \<or> unat cur \<le> unat j \<and> unat j < unat cur + length (i # is)" for j
    using IH word_unat_eq_iff [of j cur] by (cases "unat j = unat cur") (simp_all add: Suc_le_eq order.order_iff_strict [of "unat cur"])
  with IH show ?case by simp
qed

definition demo_frames :: frames where
  "demo_frames = \<lparr>sysmem = \<lparr>total_available_pages = 16, first_available_page_addr = 0x100000,
     last_available_page_address = 0x110000, total_memory = 0x10000, total_pages = 16,
     bitfield = \<lambda>_. 0, free_memory = 0x10000, locked_memory = 0, reserved_memory = 0\<rparr>,
     last_requested = 0, statistics_requested = 0, c_last_requested = 0, c_statistics_requested = 0\<rparr>"

lemma demo_frames_simps [simp]:
  "frames_inv demo_frames" "\<not> taken (sysmem demo_frames) k"
  "total_available_pages (sysmem demo_frames) = 16" "last_requested demo_frames = 0"
  "first_available_page_addr (sysmem demo_frames) = 0x100000"
  "page_addr (sysmem demo_frames) = (\<lambda>k. 0x100000 + push_bit 12 k)"
  by (simp_all add: demo_frames_def frames_inv_def frames_wf_def taken_def page_addr_def fun_eq_iff)

lemma demo_request: "request_page demo_frames = ret (granted 0 demo_frames, 0x100000)"
  by (simp add: request_page_search search_free_untaken)

subsection \<open>Properties\<close>

text \<open>C3: over any sequence of page requests and page releases, \<^verbatim>\<open>request_page\<close> never hands out
  an address that an earlier request returned and that has not been released since: no two owners
  share a frame.\<close>

theorem request_page_never_live:
  assumes "frames_inv f0" and "frames_run f0 f L" and "request_page f = ret (f', p)"
  shows "p \<notin> L"
  using assms frames_run_inv request_page_not_live by blast

theorem request_page_never_live_witness:
  "\<exists>f p. request_page (granted 0 demo_frames) = ret (f, p) \<and> p \<notin> {0x100000}"
proof -
  have "frames_inv (granted 0 demo_frames)" by (rule request_page_inv [OF _ demo_request]) simp
  then have r: "request_page (granted 0 demo_frames) =
      ret (granted 1 (granted 0 demo_frames), 0x101000)"
    by (simp add: request_page_search search_free_taken search_free_untaken)
  have "frames_run demo_frames (granted 0 demo_frames) {0x100000}"
    by (rule frames_run.request [OF frames_run.start demo_request])
  from request_page_never_live [OF _ this r] r show ?thesis by simp
qed

text \<open>C12: \<^verbatim>\<open>request_page\<close> returns whenever a frame other than frame 0 is free: its cyclic search ends
  and grants a frame that was free, with exactly that bit set. The frame's number is at most
  \<^verbatim>\<open>total_available_pages\<close>, as the source's bounds test has it: the managed frames have the numbers below
  that, and the search also considers the one just past them.\<close>

theorem request_page_returns:
  assumes "frames_inv f" and "1 \<le> k" and "k \<le> total_available_pages (sysmem f)"
    and "\<not> taken (sysmem f) k"
  shows "\<exists>j \<le> total_available_pages (sysmem f). \<not> taken (sysmem f) j \<and>
    request_page f = ret (granted j f, page_addr (sysmem f) j)"
  using assms search_free_finds [of k "sysmem f" "last_requested f"]
  by (auto simp: request_page_search frames_inv_def frames_wf_def)

theorem request_page_returns_witness:
  "\<exists>j \<le> 16. request_page demo_frames = ret (granted j demo_frames, 0x100000 + push_bit 12 j)"
  using request_page_returns [of demo_frames 5] by auto



text \<open>C32: releasing a frame just requested restores the bitmap, but \<^verbatim>\<open>unlock_page\<close> moves the
  counters the wrong way: the free memory ends two pages lower and the locked memory two pages
  higher than before the request.\<close>

theorem free_page_counters:
  assumes "frames_inv f" and "request_page f = ret (f', p)"
    and "first_available_page_addr (sysmem f) \<le> p"
  shows "\<exists>m. free_page p (sysmem f') = ret m \<and> taken m = taken (sysmem f) \<and>
    free_memory m = free_memory (sysmem f) - 2 * PAGESIZE \<and>
    locked_memory m = locked_memory (sysmem f) + 2 * PAGESIZE"
proof -
  from assms(1,2) obtain k where k: "k \<le> total_available_pages (sysmem f)" "\<not> taken (sysmem f) k"
    "f' = granted k f" "p = page_addr (sysmem f) k" by (rule request_page_ret)
  let ?m = "locked k (sysmem f)"
  have "free_page (page_addr ?m k) ?m = ret (unlocked k ?m)"
    using assms k by (intro free_page_returns) (auto simp: frames_inv_def frames_wf_def)
  with k show ?thesis by (auto simp: fun_eq_iff) (auto simp: unlocked_def locked_def)
qed

theorem free_page_counters_witness:
  "\<exists>m. free_page 0x100000 (sysmem (granted 0 demo_frames)) = ret m \<and> taken m = taken (sysmem demo_frames) \<and>
    free_memory m = 0xE000 \<and> locked_memory m = 0x2000"
proof -
  have "free_memory (sysmem demo_frames) = 0x10000" "locked_memory (sysmem demo_frames) = 0"
    by (simp_all add: demo_frames_def)
  with free_page_counters [OF _ demo_request] show ?thesis by simp
qed

text \<open>C34: the bounds checks compare with \<open>>\<close>, so the frame number equal to
  \<^verbatim>\<open>total_available_pages\<close> passes them, and \<^verbatim>\<open>request_page\<close> can hand out the page that starts at the
  end of the managed chunk.\<close>

theorem request_page_past_end:
  assumes "frames_inv f" and "last_requested f = total_available_pages (sysmem f)"
    and "\<not> taken (sysmem f) (total_available_pages (sysmem f))"
  shows "request_page f = ret (granted (total_available_pages (sysmem f)) f,
     first_available_page_addr (sysmem f) + push_bit 12 (total_available_pages (sysmem f)))"
  using assms by (simp add: request_page_search search_free_untaken page_addr_def)

theorem request_page_past_end_witness:
  "let f = demo_frames\<lparr>last_requested := 16\<rparr> in
     request_page f = ret (granted 16 f, last_available_page_address (sysmem f))"
proof -
  have "frames_inv (demo_frames\<lparr>last_requested := 16\<rparr>)"
    using demo_frames_simps(1) by (simp add: frames_inv_def)
  moreover have "last_available_page_address (sysmem demo_frames) = 0x110000" by (simp add: demo_frames_def)
  ultimately show ?thesis
    using request_page_past_end [of "demo_frames\<lparr>last_requested := 16\<rparr>"] by (simp add: Let_def)
qed

text \<open>C33: a call of \<^verbatim>\<open>request_contiguous_pages\<close> that returns has locked the \<open>num\<close> frames from the first free
  frame that its search found, which is the one at its cursor when that is free; but the address it returns
  is always that of the frame before the cursor it started with.\<close>

theorem request_contiguous_base:
  assumes "frames_wf (sysmem f)" and "total_available_pages (sysmem f) < 2 ^ 51"
    and "c_last_requested f \<le> total_available_pages (sysmem f)"
    and "request_contiguous_pages num f = ret (f', p)"
  shows "\<exists>k \<le> total_available_pages (sysmem f). \<not> taken (sysmem f) k \<and>
    (\<not> taken (sysmem f) (c_last_requested f) \<longrightarrow> k = c_last_requested f) \<and>
    (\<forall>j. taken (sysmem f') j \<longleftrightarrow> taken (sysmem f) j \<or> unat k \<le> unat j \<and> unat j < unat k + unat num) \<and>
    p = page_addr (sysmem f) (c_last_requested f - 1)"
proof -
  from assms(4) obtain m cur k where k: "search_free (sysmem f) (c_last_requested f - 1) (c_last_requested f) = ret k"
    and loop: "iter_res lock_next (map word_of_nat [0..<unat num]) (sysmem f, k) = ret (m, cur)"
    and f': "sysmem f' = m" "p = page_addr m (c_last_requested f - 1)"
    by (auto simp: request_contiguous_pages_def for_u64_def Let_def bind_res_eq_ret page_addr_def)
  note s = search_free_sound(1) [OF k] search_free_sound(2) [OF k assms(1,3)]
  have "unat (total_available_pages (sysmem f)) < 2 ^ 51" using assms(2) by (simp add: word_less_nat_alt)
  then have "(\<forall>j. taken m j \<longleftrightarrow> taken (sysmem f) j \<or> unat k \<le> unat j \<and> unat j < unat k + unat num) \<and>
    first_available_page_addr m = first_available_page_addr (sysmem f)"
    using contiguous_loop [OF loop] s(2) by (simp add: word_le_nat_alt)
  moreover have "k = c_last_requested f" if "\<not> taken (sysmem f) (c_last_requested f)"
    using k search_free_untaken [OF that] by simp
  ultimately show ?thesis using s f' by (intro exI [of _ k]) (simp add: page_addr_def)
qed

theorem request_contiguous_base_witness:
  "\<exists>f. request_contiguous_pages 2 demo_frames = ret (f, 0xFF000) \<and>
     taken (sysmem f) 0 \<and> taken (sysmem f) 1 \<and> \<not> taken (sysmem f) 2"
proof -
  have c: "c_last_requested demo_frames = 0" by (simp add: demo_frames_def)
  have n: "map word_of_nat [0..<2] = [0::u64, 1]" by (simp add: upt_conv_Cons)
  have "lock_next 0 (sysmem demo_frames, 0) = ret (locked 0 (sysmem demo_frames), 1)"
    "lock_next 1 (locked 0 (sysmem demo_frames), 1) = ret (locked 1 (locked 0 (sysmem demo_frames)), 2)"
    by (simp_all add: lock_next_eq_ret)
  then obtain f p where r: "request_contiguous_pages 2 demo_frames = ret (f, p)"
    by (simp add: request_contiguous_pages_def Let_def c search_free_untaken for_u64_def n)
  moreover have "frames_wf (sysmem demo_frames)" using demo_frames_simps(1) by (simp add: frames_inv_def)
  ultimately show ?thesis using request_contiguous_base [of demo_frames 2 f p] by (auto simp: c mask_eq_exp_minus_1)
qed

end
