(* ===== verification/Paging.thy ===== *)
theory Paging
  imports Frames
begin

section \<open>Page tables (\<^verbatim>\<open>src/src/memory/paging.c\<close>)\<close>

text \<open>
  The four-level page tables of the x86-64 as the kernel edits them. Physical memory that holds
  tables is a function from the physical address of a page to its 512 entries, each a 64-bit word
  with the bit fields of \<^verbatim>\<open>struct page_directory_entry\<close>. The kernel reaches a table by its
  physical address (the boot identity map) or at \<^verbatim>\<open>IDENTITY_MAP_START\<close> above it (its own map of
  all physical memory); \<open>phys\<close> gives the page both kinds of pointer name. The frame allocator of
  \<open>Frames\<close> is part of the state, since mapping a page allocates tables.
\<close>

subsection \<open>Entries\<close>

text \<open>
  A bit field of \<open>n\<close> bits at position \<open>pos\<close>: reading it and assigning it. The two entry structures
  give the fields below the same positions.
\<close>

definition get_bits :: "nat \<Rightarrow> nat \<Rightarrow> u64 \<Rightarrow> u64" where
  "get_bits pos n e = take_bit n (drop_bit pos e)"

definition set_bits :: "nat \<Rightarrow> nat \<Rightarrow> u64 \<Rightarrow> u64 \<Rightarrow> u64" where
  "set_bits pos n v e = (e AND NOT (push_bit pos (mask n))) OR push_bit pos (take_bit n v)"

definition present :: "u64 \<Rightarrow> u64" where "present = get_bits 0 1"

definition writeable :: "u64 \<Rightarrow> u64" where "writeable = get_bits 1 1"

definition user_access :: "u64 \<Rightarrow> u64" where "user_access = get_bits 2 1"

definition cache_disabled :: "u64 \<Rightarrow> u64" where "cache_disabled = get_bits 4 1"

definition page_ppn :: "u64 \<Rightarrow> u64" where "page_ppn = get_bits 12 28"

definition execution_disabled :: "u64 \<Rightarrow> u64" where "execution_disabled = get_bits 63 1"

definition set_present :: "u64 \<Rightarrow> u64 \<Rightarrow> u64" where "set_present = set_bits 0 1"

definition set_writeable :: "u64 \<Rightarrow> u64 \<Rightarrow> u64" where "set_writeable = set_bits 1 1"

definition set_user_access :: "u64 \<Rightarrow> u64 \<Rightarrow> u64" where "set_user_access = set_bits 2 1"

definition set_cache_disabled :: "u64 \<Rightarrow> u64 \<Rightarrow> u64" where "set_cache_disabled = set_bits 4 1"

definition set_page_ppn :: "u64 \<Rightarrow> u64 \<Rightarrow> u64" where "set_page_ppn = set_bits 12 28"

definition set_execution_disabled :: "u64 \<Rightarrow> u64 \<Rightarrow> u64" where "set_execution_disabled = set_bits 63 1"

text \<open>\<^verbatim>\<open>(uint64_t)pde.page_ppn << 12\<close>, and the four permission bits of the flags argument.\<close>

definition next_table :: "u64 \<Rightarrow> u64" where
  "next_table e = push_bit 12 (page_ppn e)"

definition WRITE_BIT_SET :: "u8 \<Rightarrow> u64" where "WRITE_BIT_SET x = ucast (x AND 1)"

definition USER_BIT_SET :: "u8 \<Rightarrow> u64" where "USER_BIT_SET x = ucast (drop_bit 1 (x AND 2))"

definition NX_BIT_SET :: "u8 \<Rightarrow> u64" where "NX_BIT_SET x = ucast (drop_bit 2 (x AND 4))"

definition CACHE_BIT_SET :: "u8 \<Rightarrow> u64" where "CACHE_BIT_SET x = ucast (drop_bit 3 (x AND 8))"

subsection \<open>Addresses\<close>

definition IDENTITY_MAP_START :: u64 where
  "IDENTITY_MAP_START = 0xffffA00000000000"

definition TO_KERNEL_MAP :: "u64 \<Rightarrow> u64" where
  "TO_KERNEL_MAP vaddr = vaddr + IDENTITY_MAP_START"

definition FROM_KERNEL_MAP :: "u64 \<Rightarrow> u64" where
  "FROM_KERNEL_MAP vaddr = vaddr - IDENTITY_MAP_START"

definition phys :: "u64 \<Rightarrow> u64" where
  "phys p = (if IDENTITY_MAP_START \<le> p then FROM_KERNEL_MAP p else p)"

record page_map_index =
  PDP_i :: u64
  PD_i :: u64
  PT_i :: u64
  P_i :: u64

definition address_to_map :: "u64 \<Rightarrow> page_map_index" where
  "address_to_map address =
     (let address = drop_bit 12 address; p = address AND 0x1ff;
          address = drop_bit 9 address; pt = address AND 0x1ff;
          address = drop_bit 9 address; pd = address AND 0x1ff;
          address = drop_bit 9 address; pdp = address AND 0x1ff
      in \<lparr>PDP_i = pdp, PD_i = pd, PT_i = pt, P_i = p\<rparr>)"

subsection \<open>State\<close>

record paging =
  tables :: "u64 \<Rightarrow> u64 \<Rightarrow> u64"
  pmm :: frames
  cr3 :: u64

definition entry :: "paging \<Rightarrow> u64 \<Rightarrow> u64 \<Rightarrow> u64" where
  "entry s t i = tables s (phys t) i"

definition write_entry :: "u64 \<Rightarrow> u64 \<Rightarrow> u64 \<Rightarrow> paging \<Rightarrow> paging" where
  "write_entry t i e s = s\<lparr>tables := (tables s)(phys t := (tables s (phys t))(i := e))\<rparr>"

definition zero_page :: "u64 \<Rightarrow> paging \<Rightarrow> paging" where
  "zero_page t s = s\<lparr>tables := (tables s)(phys t := (\<lambda>_. 0))\<rparr>"

definition copy_page :: "u64 \<Rightarrow> u64 \<Rightarrow> paging \<Rightarrow> paging" where
  "copy_page dst src s = s\<lparr>tables := (tables s)(phys dst := tables s (phys src))\<rparr>"

definition get_pml4 :: "paging \<Rightarrow> u64" where
  "get_pml4 s = TO_KERNEL_MAP (cr3 s)"

definition set_pml4 :: "u64 \<Rightarrow> paging \<Rightarrow> paging" where
  "set_pml4 pml4 s = s\<lparr>cr3 := FROM_KERNEL_MAP pml4\<rparr>"

definition swap_pml4 :: "u64 \<Rightarrow> paging \<Rightarrow> (paging \<times> u64) res" where
  "swap_pml4 pml s =
     (if pml = 0 then panic ''ERROR: Tried to swap to NULL PML4''
      else let old = get_pml4 s in
        if old = pml then ret (s, old) else ret (set_pml4 pml s, old))"

definition invalidate_current_pml4 :: "paging \<Rightarrow> paging" where
  "invalidate_current_pml4 s = set_pml4 (get_pml4 s) s"

subsection \<open>Walking the tables\<close>

definition virtual_to_physical :: "u64 \<Rightarrow> u64 \<Rightarrow> paging \<Rightarrow> u64" where
  "virtual_to_physical pml4 virtual s =
     (let m = address_to_map virtual; pde = entry s pml4 (PDP_i m) in
      if present pde = 0 then 0 else
      let pdp = next_table pde; pde = entry s pdp (PD_i m) in
      if present pde = 0 then 0 else
      let pd = next_table pde; pde = entry s pd (PT_i m) in
      if present pde = 0 then 0 else
      let pt = next_table pde; pte = entry s pt (P_i m) in
      if present pte = 0 then 0 else next_table pte)"

subsection \<open>Mapping\<close>

text \<open>
  One level of \<^verbatim>\<open>map_memory_hh\<close> and \<^verbatim>\<open>_map_memory\<close>: follow a present entry, or allocate, clear and
  link a new table. The two functions differ in the conversions between physical addresses and
  pointers, the parameters \<open>to_ptr\<close> and \<open>from_ptr\<close>.
\<close>

definition ensure_table ::
    "(u64 \<Rightarrow> u64) \<Rightarrow> (u64 \<Rightarrow> u64) \<Rightarrow> string \<Rightarrow> u64 \<Rightarrow> u64 \<Rightarrow> paging \<Rightarrow> (paging \<times> u64) res" where
  "ensure_table to_ptr from_ptr msg t i s =
     (let pde = entry s t i in
      if present pde = 0 then
        bind_res (request_page (pmm s)) (\<lambda>(f, page).
          let pdp = to_ptr page in
          if pdp = 0 then panic msg
          else let s1 = zero_page pdp (s\<lparr>pmm := f\<rparr>);
                   pde = set_page_ppn (drop_bit 12 (from_ptr pdp)) pde;
                   pde = set_present 1 pde;
                   pde = set_writeable 1 pde;
                   pde = set_user_access 1 pde
               in ret (write_entry t i pde s1, pdp))
      else ret (s, to_ptr (next_table pde)))"

definition page_entry :: "u64 \<Rightarrow> u8 \<Rightarrow> u64 \<Rightarrow> u64" where
  "page_entry physical_memory flags pte =
     (let pte = set_page_ppn (drop_bit 12 physical_memory) pte;
          pte = set_present 1 pte;
          pte = set_writeable (WRITE_BIT_SET flags) pte;
          pte = set_user_access (USER_BIT_SET flags) pte;
          pte = set_execution_disabled (NX_BIT_SET flags) pte
      in set_cache_disabled (CACHE_BIT_SET flags) pte)"

definition map_pages :: "(u64 \<Rightarrow> u64) \<Rightarrow> (u64 \<Rightarrow> u64) \<Rightarrow> u64 \<Rightarrow> u64 \<Rightarrow> u64 \<Rightarrow> u8 \<Rightarrow> paging \<Rightarrow> paging res" where
  "map_pages to_ptr from_ptr pml4 virtual_memory physical_memory flags s =
     (if virtual_memory AND 0xfff \<noteq> 0 then panic ''map_memory: virtual_memory must be aligned to 0x1000''
      else if physical_memory AND 0xfff \<noteq> 0 then panic ''map_memory: physical_memory must be aligned to 0x1000''
      else let m = address_to_map virtual_memory in
        bind_res (ensure_table to_ptr from_ptr ''ERROR: Could not allocate page for new PDP'' pml4 (PDP_i m) s) (\<lambda>(s, pdp).
        bind_res (ensure_table to_ptr from_ptr ''ERROR: Could not allocate page for new PD'' pdp (PD_i m) s) (\<lambda>(s, pd).
        bind_res (ensure_table to_ptr from_ptr ''ERROR: Could not allocate page for new PT'' pd (PT_i m) s) (\<lambda>(s, pt).
          ret (write_entry pt (P_i m) (page_entry physical_memory flags (entry s pt (P_i m))) s)))))"

definition map_memory_hh :: "u64 \<Rightarrow> u64 \<Rightarrow> u64 \<Rightarrow> u8 \<Rightarrow> paging \<Rightarrow> paging res" where
  "map_memory_hh = map_pages TO_KERNEL_MAP FROM_KERNEL_MAP"

definition map_memory_phys :: "u64 \<Rightarrow> u64 \<Rightarrow> u64 \<Rightarrow> u8 \<Rightarrow> paging \<Rightarrow> paging res" where
  "map_memory_phys = map_pages (\<lambda>p. p) (\<lambda>p. p)"

definition map_memory :: "u64 \<Rightarrow> u64 \<Rightarrow> u64 \<Rightarrow> u8 \<Rightarrow> paging \<Rightarrow> paging res" where
  "map_memory pml4 virtual_memory physical_memory flags s =
     map_memory_hh pml4 virtual_memory physical_memory flags s"

definition map_current_memory :: "u64 \<Rightarrow> u64 \<Rightarrow> u8 \<Rightarrow> paging \<Rightarrow> paging res" where
  "map_current_memory virtual_memory physical_memory flags s =
     map_memory_hh (get_pml4 s) virtual_memory physical_memory flags s"

definition request_page_at :: "u64 \<Rightarrow> u64 \<Rightarrow> u8 \<Rightarrow> paging \<Rightarrow> (paging \<times> u64) res" where
  "request_page_at pml4 vaddr flags s =
     bind_res (request_page (pmm s)) (\<lambda>(f, result).
       if result = 0 then panic ''ERROR: Could not allocate page for mapping''
       else bind_res (map_memory_hh pml4 vaddr result flags (s\<lparr>pmm := f\<rparr>)) (\<lambda>s. ret (s, vaddr)))"

definition request_current_page_at :: "u64 \<Rightarrow> u8 \<Rightarrow> paging \<Rightarrow> (paging \<times> u64) res" where
  "request_current_page_at vaddr flags s = request_page_at (get_pml4 s) vaddr flags s"

subsection \<open>Unmapping\<close>

definition unmap_pages :: "(u64 \<Rightarrow> u64) \<Rightarrow> u64 \<Rightarrow> u64 \<Rightarrow> paging \<Rightarrow> paging" where
  "unmap_pages to_ptr pml4 virtual_address s =
     (let m = address_to_map virtual_address; pde = entry s pml4 (PDP_i m) in
      if present pde = 0 then s else
      let pdp = to_ptr (next_table pde); pde = entry s pdp (PD_i m) in
      if present pde = 0 then s else
      let pd = to_ptr (next_table pde); pde = entry s pd (PT_i m) in
      if present pde = 0 then s else
      let pt = to_ptr (next_table pde) in
      write_entry pt (P_i m) (set_present 0 (entry s pt (P_i m))) s)"

definition unmap_memory_phys :: "u64 \<Rightarrow> u64 \<Rightarrow> paging \<Rightarrow> paging" where
  "unmap_memory_phys = unmap_pages (\<lambda>p. p)"

definition unmap_current_memory :: "u64 \<Rightarrow> paging \<Rightarrow> paging" where
  "unmap_current_memory virtual_address s = unmap_pages TO_KERNEL_MAP (get_pml4 s) virtual_address s"

subsection \<open>Permissions\<close>

text \<open>The page table entry slot that the permission functions reach, without looking at \<^verbatim>\<open>present\<close>.\<close>

definition page_slot :: "(u64 \<Rightarrow> u64) \<Rightarrow> u64 \<Rightarrow> u64 \<Rightarrow> paging \<Rightarrow> u64 \<times> u64" where
  "page_slot to_ptr pml4 address s =
     (let m = address_to_map address;
          pd = to_ptr (next_table (entry s pml4 (PDP_i m)));
          pd = to_ptr (next_table (entry s pd (PD_i m)));
          pt = to_ptr (next_table (entry s pd (PT_i m)))
      in (pt, P_i m))"

definition entry_set_perms :: "u8 \<Rightarrow> u64 \<Rightarrow> u64" where
  "entry_set_perms permissions pte =
     (let pte = set_writeable (ucast (permissions AND 1)) pte;
          pte = set_user_access (ucast (drop_bit 1 (permissions AND 2))) pte;
          pte = set_execution_disabled (ucast (drop_bit 2 (permissions AND 4))) pte
      in set_cache_disabled (ucast (drop_bit 3 (permissions AND 8))) pte)"

definition entry_perms :: "u64 \<Rightarrow> u8" where
  "entry_perms pte = ucast (writeable pte OR push_bit 1 (user_access pte)
     OR push_bit 2 (execution_disabled pte) OR push_bit 3 (cache_disabled pte))"

definition set_perms_at :: "(u64 \<Rightarrow> u64) \<Rightarrow> u64 \<Rightarrow> u64 \<Rightarrow> u8 \<Rightarrow> paging \<Rightarrow> paging" where
  "set_perms_at to_ptr pml4 address permissions s = (case page_slot to_ptr pml4 address s of
     (pt, i) \<Rightarrow> write_entry pt i (entry_set_perms permissions (entry s pt i)) s)"

definition set_page_perms :: "u64 \<Rightarrow> u64 \<Rightarrow> u8 \<Rightarrow> paging \<Rightarrow> paging" where
  "set_page_perms = set_perms_at (\<lambda>p. p)"

definition set_page_perms_hh :: "u64 \<Rightarrow> u64 \<Rightarrow> u8 \<Rightarrow> paging \<Rightarrow> paging" where
  "set_page_perms_hh = set_perms_at TO_KERNEL_MAP"

definition get_page_perms :: "u64 \<Rightarrow> u64 \<Rightarrow> paging \<Rightarrow> u8" where
  "get_page_perms pml4 address s = (case page_slot (\<lambda>p. p) pml4 address s of (pt, i) \<Rightarrow> entry_perms (entry s pt i))"

definition get_page_perms_hh :: "u64 \<Rightarrow> u64 \<Rightarrow> paging \<Rightarrow> u8" where
  "get_page_perms_hh pml4 address s = (case page_slot TO_KERNEL_MAP pml4 address s of (pt, i) \<Rightarrow> entry_perms (entry s pt i))"

definition is_present :: "u64 \<Rightarrow> u64 \<Rightarrow> paging \<Rightarrow> u8" where
  "is_present pml4 address s = (case page_slot (\<lambda>p. p) pml4 address s of (pt, i) \<Rightarrow> ucast (present (entry s pt i)))"

definition is_executable :: "u64 \<Rightarrow> u64 \<Rightarrow> paging \<Rightarrow> u8" where
  "is_executable pml4 address s = (case page_slot (\<lambda>p. p) pml4 address s of
     (pt, i) \<Rightarrow> of_bool (execution_disabled (entry s pt i) = 0))"

definition is_user_access :: "u64 \<Rightarrow> u64 \<Rightarrow> paging \<Rightarrow> u8" where
  "is_user_access pml4 address s =
     (let m = address_to_map address; pde = entry s pml4 (PDP_i m) in
      if user_access pde = 0 then 0 else
      let pd = next_table pde; pde = entry s pd (PD_i m) in
      if user_access pde = 0 then 0 else
      let pd = next_table pde; pde = entry s pd (PT_i m) in
      if user_access pde = 0 then 0 else
      let pt = next_table pde in ucast (user_access (entry s pt (P_i m))))"

text \<open>The three \<^verbatim>\<open>mprotect\<close> functions run over the pages that the byte range touches.\<close>

definition mprotect_range :: "(u64 \<Rightarrow> paging \<Rightarrow> paging) \<Rightarrow> u64 \<Rightarrow> u64 \<Rightarrow> paging \<Rightarrow> paging res" where
  "mprotect_range body address len s =
     (let start = address; end = start + len;
          start = start AND NOT 0xfff; end = (end + 0xfff) AND NOT 0xfff
      in for_from start end 0x1000 (\<lambda>i s. ret (body i s)) s)"

definition mprotect :: "u64 \<Rightarrow> u64 \<Rightarrow> u64 \<Rightarrow> u8 \<Rightarrow> paging \<Rightarrow> paging res" where
  "mprotect pml4 address len permissions s =
     mprotect_range (\<lambda>i. set_page_perms pml4 i permissions) address len s"

definition mprotect_hh :: "u64 \<Rightarrow> u64 \<Rightarrow> u64 \<Rightarrow> u8 \<Rightarrow> paging \<Rightarrow> paging res" where
  "mprotect_hh pml4 address len permissions s =
     mprotect_range (\<lambda>i. set_page_perms_hh pml4 i permissions) address len s"

definition mprotect_current :: "u64 \<Rightarrow> u64 \<Rightarrow> u8 \<Rightarrow> paging \<Rightarrow> paging res" where
  "mprotect_current address len permissions s = mprotect_hh (get_pml4 s) address len permissions s"

subsection \<open>Copying an address space\<close>

text \<open>
  The nested loops of \<^verbatim>\<open>_duplicate_pd\<close> and \<^verbatim>\<open>init_paging\<close>: for every present entry of the source
  directory a copy of the table below it, and for every present entry of that table a copy of the
  next one, whose present entries are then written once more.
\<close>

definition copy_present :: "u64 \<Rightarrow> u64 \<Rightarrow> paging \<Rightarrow> paging" where
  "copy_present pt new_pt s = fold (\<lambda>k s.
     let pte = entry s pt (word_of_nat k) in
     if present pte \<noteq> 0 then write_entry new_pt (word_of_nat k) pte s else s) [0..<512] s"

definition copy_pd_entry :: "u64 \<Rightarrow> u64 \<Rightarrow> u64 \<Rightarrow> paging \<Rightarrow> paging res" where
  "copy_pd_entry pd new_pd j s =
     (let pde = entry s pd j in
      if present pde \<noteq> 0 then
        let pt = next_table pde in
        bind_res (request_page (pmm s)) (\<lambda>(f, new_pt).
          if new_pt = 0 then panic ''ERROR: Could not allocate page for new PT''
          else let s1 = copy_page new_pt pt (s\<lparr>pmm := f\<rparr>);
                   pde = set_page_ppn (drop_bit 12 new_pt) pde;
                   s2 = write_entry new_pd j pde s1
               in ret (copy_present pt new_pt s2))
      else ret s)"

definition copy_pml4_entry :: "u64 \<Rightarrow> u64 \<Rightarrow> u64 \<Rightarrow> paging \<Rightarrow> paging res" where
  "copy_pml4_entry father pml i s =
     (let pde = entry s father i in
      if present pde \<noteq> 0 then
        let pd = next_table pde in
        bind_res (request_page (pmm s)) (\<lambda>(f, new_pd).
          if new_pd = 0 then panic ''ERROR: Could not allocate page for new PD''
          else let s1 = copy_page new_pd pd (s\<lparr>pmm := f\<rparr>);
                   pde = set_page_ppn (drop_bit 12 new_pd) pde;
                   s2 = write_entry pml i pde s1
               in iter_res (copy_pd_entry pd new_pd) (map word_of_nat [0..<512]) s2)
      else ret s)"

definition duplicate_pd :: "u64 \<Rightarrow> nat \<Rightarrow> nat \<Rightarrow> paging \<Rightarrow> (paging \<times> u64) res" where
  "duplicate_pd father start stop s =
     bind_res (request_page (pmm s)) (\<lambda>(f, pml).
       if pml = 0 then panic ''ERROR: Could not allocate page for new PML4''
       else let s1 = zero_page pml (s\<lparr>pmm := f\<rparr>) in
         bind_res (iter_res (copy_pml4_entry father pml) (map word_of_nat [start..<stop]) s1) (\<lambda>s.
           ret (s, TO_KERNEL_MAP pml)))"

definition duplicate_current_pml4 :: "paging \<Rightarrow> (paging \<times> u64) res" where
  "duplicate_current_pml4 s = duplicate_pd (get_pml4 s) 0 512 s"

definition duplicate_current_kernel_pml4 :: "paging \<Rightarrow> (paging \<times> u64) res" where
  "duplicate_current_kernel_pml4 s = duplicate_pd (get_pml4 s) 256 512 s"

text \<open>
  \<^verbatim>\<open>init_paging\<close>: \<open>linker_kstart\<close> is the address of the linker symbol \<^verbatim>\<open>KERNEL_START\<close> and
  \<open>virtual_start\<close> what the boot loader reports as the kernel's virtual base.
\<close>

definition init_paging :: "u64 \<Rightarrow> u64 \<Rightarrow> paging \<Rightarrow> paging res" where
  "init_paging linker_kstart virtual_start s =
     bind_res (request_page (pmm s)) (\<lambda>(f, pml4).
       if pml4 = 0 then panic ''ERROR: Could not allocate page for PML4''
       else let original = cr3 s; s1 = zero_page pml4 (s\<lparr>pmm := f\<rparr>) in
         bind_res (iter_res (copy_pml4_entry original pml4) (map word_of_nat [0..<512]) s1) (\<lambda>s2.
         bind_res (for_from 0 (last_available_page_address (sysmem (pmm s2))) 0x1000
           (\<lambda>i s. map_memory_phys pml4 (TO_KERNEL_MAP i) i 1 s) s2) (\<lambda>s3.
           let s4 = s3\<lparr>cr3 := pml4\<rparr> in
           if linker_kstart \<noteq> virtual_start
           then panic ''init_paging: kernel virtual address does not match KERNEL_START''
           else ret s4)))"

subsection \<open>Bit fields\<close>

lemma bit_set_bits: "k < 64 \<Longrightarrow> bit (set_bits pos n v e) k \<longleftrightarrow>
    (if pos \<le> k \<and> k < pos + n then bit v (k - pos) else bit e k)"
  by (auto simp: set_bits_def bit_simps)

lemma bit_get_bits: "bit (get_bits pos n e) k \<longleftrightarrow> k < n \<and> bit e (pos + k)"
  by (auto simp: get_bits_def bit_simps)

lemma get_set_bits: "pos + n \<le> 64 \<Longrightarrow> get_bits pos n (set_bits pos n v e) = take_bit n v"
  by (rule bit_word_eqI) (auto simp: bit_get_bits bit_set_bits bit_simps)

lemma get_set_other:
  assumes "pos + n \<le> q \<or> q + m \<le> pos" and "q + m \<le> 64"
  shows "get_bits q m (set_bits pos n v e) = get_bits q m e"
proof (rule bit_word_eqI)
  fix k assume "k < LENGTH(64)"
  show "bit (get_bits q m (set_bits pos n v e)) k = bit (get_bits q m e) k"
    using assms by (cases "k < m") (auto simp: bit_get_bits bit_set_bits)
qed

lemmas field_defs = present_def writeable_def user_access_def cache_disabled_def page_ppn_def
  execution_disabled_def set_present_def set_writeable_def set_user_access_def
  set_cache_disabled_def set_page_ppn_def set_execution_disabled_def

lemma field_same [simp]:
  "present (set_present v e) = take_bit 1 v" "writeable (set_writeable v e) = take_bit 1 v"
  "user_access (set_user_access v e) = take_bit 1 v" "cache_disabled (set_cache_disabled v e) = take_bit 1 v"
  "page_ppn (set_page_ppn v e) = take_bit 28 v"
  "execution_disabled (set_execution_disabled v e) = take_bit 1 v"
  by (simp_all only: field_defs) (rule get_set_bits; simp)+

lemma present_other [simp]:
  "present (set_writeable v e) = present e" "present (set_user_access v e) = present e"
  "present (set_cache_disabled v e) = present e" "present (set_page_ppn v e) = present e"
  "present (set_execution_disabled v e) = present e"
  by (simp_all add: field_defs get_set_other)

lemma ppn_other [simp]:
  "page_ppn (set_writeable v e) = page_ppn e" "page_ppn (set_user_access v e) = page_ppn e"
  "page_ppn (set_cache_disabled v e) = page_ppn e" "page_ppn (set_present v e) = page_ppn e"
  "page_ppn (set_execution_disabled v e) = page_ppn e"
  by (simp_all add: field_defs get_set_other)

lemma perm_other [simp]:
  "writeable (set_user_access v e) = writeable e" "writeable (set_cache_disabled v e) = writeable e"
  "writeable (set_execution_disabled v e) = writeable e" 
  "user_access (set_cache_disabled v e) = user_access e"
  "user_access (set_execution_disabled v e) = user_access e"
  "execution_disabled (set_cache_disabled v e) = execution_disabled e"
  by (simp_all add: field_defs get_set_other)

lemma present_0 [simp]: "present 0 = 0"
  by (simp add: present_def get_bits_def)

lemma unat_take_bit_bound: "unat (take_bit n (x :: u64)) < 2 ^ n"
  by (simp only: unsigned_take_bit_eq take_bit_nat_less_exp)

lemma next_table_bound: "unat (next_table e) < 2 ^ 40"
  using unat_take_bit_bound [of 28 "drop_bit 12 e"]
  by (simp add: next_table_def page_ppn_def get_bits_def unat_push_bit_small)

lemma next_table_of_page:
  assumes "unat p < 2 ^ 40" and "unat p mod 4096 = 0" and "page_ppn e = take_bit 28 (drop_bit 12 p)"
  shows "next_table e = p"
proof -
  have "unat (drop_bit 12 p) < 2 ^ 28" using assms(1) by (simp add: unat_drop_bit_div less_mult_imp_div_less)
  then have "unat (page_ppn e) = unat p div 4096"
    by (simp add: assms(3) unsigned_take_bit_eq take_bit_nat_eq_self unat_drop_bit_div)
  moreover have "unat p div 4096 * 2 ^ 12 = unat p" using assms(2) by (simp add: mod_0_imp_dvd)
  ultimately show ?thesis
    by (simp only: word_unat_eq_iff next_table_def) (subst unat_push_bit_small; simp)
qed

lemma phys_low: "unat p < 2 ^ 40 \<Longrightarrow> phys p = p"
  by (simp add: phys_def IDENTITY_MAP_START_def word_le_nat_alt)

lemma phys_kernel:
  assumes "unat p < 2 ^ 40"
  shows "phys (TO_KERNEL_MAP p) = p"
proof -
  have "unat (p + IDENTITY_MAP_START) = unat p + unat IDENTITY_MAP_START"
    using assms by (intro unat_add_small) (simp add: IDENTITY_MAP_START_def)
  then show ?thesis by (simp add: phys_def TO_KERNEL_MAP_def FROM_KERNEL_MAP_def word_le_nat_alt)
qed

lemma TO_KERNEL_MAP_not_0: "unat p < 2 ^ 40 \<Longrightarrow> TO_KERNEL_MAP p \<noteq> 0"
  using phys_kernel [of p] by (auto simp: phys_def TO_KERNEL_MAP_def IDENTITY_MAP_START_def)

lemma FROM_TO_KERNEL_MAP [simp]: "FROM_KERNEL_MAP (TO_KERNEL_MAP p) = p"
  by (simp add: FROM_KERNEL_MAP_def TO_KERNEL_MAP_def)

subsection \<open>The tree of tables below a root\<close>

text \<open>\<open>tbl T t is\<close> is the table that the indices \<open>is\<close> lead to from the table \<open>t\<close>, if all entries are present.\<close>

fun tbl :: "(u64 \<Rightarrow> u64 \<Rightarrow> u64) \<Rightarrow> u64 \<Rightarrow> u64 list \<Rightarrow> u64 option" where
  "tbl T t [] = Some t"
| "tbl T t (i # is) = (if present (T t i) = 0 then None else tbl T (next_table (T t i)) is)"

lemma tbl_append: "tbl T t (is @ js) = Option.bind (tbl T t is) (\<lambda>u. tbl T u js)"
  by (induction "is" arbitrary: t) auto

lemma tbl_snoc_Some:
  "tbl T t (is @ [i]) = Some p \<longleftrightarrow>
     (\<exists>u. tbl T t is = Some u \<and> present (T u i) \<noteq> 0 \<and> p = next_table (T u i))"
  by (auto simp: tbl_append Option.bind_eq_Some_conv split: if_splits)

lemma tbl_bound: "tbl T root is = Some p \<Longrightarrow> unat root < 2 ^ 40 \<Longrightarrow> unat p < 2 ^ 40"
  by (induction "is" arbitrary: root) (auto split: if_splits intro: next_table_bound [simplified])

definition tree :: "(u64 \<Rightarrow> u64 \<Rightarrow> u64) \<Rightarrow> u64 \<Rightarrow> bool" where
  "tree T root \<longleftrightarrow> (\<forall>is js p. length is \<le> 3 \<longrightarrow> length js \<le> 3 \<longrightarrow>
     tbl T root is = Some p \<longrightarrow> tbl T root js = Some p \<longrightarrow> is = js)"

lemma treeD:
  "tree T root \<Longrightarrow> tbl T root is = Some p \<Longrightarrow> tbl T root js = Some p \<Longrightarrow>
   length is \<le> 3 \<Longrightarrow> length js \<le> 3 \<Longrightarrow> is = js"
  by (auto simp: tree_def)

definition indices :: "u64 \<Rightarrow> u64 list" where
  "indices va = (let m = address_to_map va in [PDP_i m, PD_i m, PT_i m])"

definition leaf :: "(u64 \<Rightarrow> u64 \<Rightarrow> u64) \<Rightarrow> u64 \<Rightarrow> u64 \<Rightarrow> u64" where
  "leaf T root va = (case tbl T root (indices va) of None \<Rightarrow> 0 | Some t \<Rightarrow> T t (P_i (address_to_map va)))"

definition translate :: "(u64 \<Rightarrow> u64 \<Rightarrow> u64) \<Rightarrow> u64 \<Rightarrow> u64 \<Rightarrow> u64" where
  "translate T root va = (let e = leaf T root va in if present e = 0 then 0 else next_table e)"

lemma length_indices [simp]: "length (indices va) = 3"
  by (simp add: indices_def Let_def)

lemma virtual_to_physical_translate:
  assumes "phys pml4 = root"
  shows "virtual_to_physical pml4 va s = translate (tables s) root va"
  using assms next_table_bound
  by (simp add: virtual_to_physical_def translate_def leaf_def indices_def Let_def entry_def phys_low)

text \<open>Linking a fresh, cleared table below an entry that was not present.\<close>

lemma tbl_link:
  assumes tree: "tree T root" and t: "tbl T root is = Some t" "length is \<le> 2" "present (T t i) = 0"
    and fresh: "\<And>js. length js \<le> 3 \<Longrightarrow> tbl T root js \<noteq> Some p"
    and e: "present e \<noteq> 0" "next_table e = p"
    and T': "T' = T(p := (\<lambda>_. 0), t := (T t)(i := e))"
  shows "length js \<le> 3 \<Longrightarrow> tbl T' root js = (if js = is @ [i] then Some p else tbl T root js)"
proof (induction js rule: rev_induct)
  case (snoc k js)
  have pt: "p \<noteq> t" using fresh [of "is"] t by auto
  show ?case
  proof (cases "tbl T root js")
    case None
    then have "js \<noteq> is" using t by auto
    moreover have "tbl T' p [k] = None" using pt by (simp add: T')
    ultimately show ?thesis using snoc None by (auto simp: tbl_append)
  next
    case (Some u)
    then have ji: "js \<noteq> is @ [i]" using t by (auto simp: tbl_append)
    with snoc Some have u': "tbl T' root js = Some u" by simp
    have up: "u \<noteq> p" using fresh [of js] Some snoc.prems by auto
    show ?thesis
    proof (cases "u = t")
      case True
      then have "js = is" using treeD [OF tree, of js t "is"] Some t snoc.prems by auto
      moreover have "T' t = (T t)(i := e)" by (simp add: T')
      ultimately show ?thesis using True u' Some t e by (auto simp: tbl_append)
    next
      case False
      then have "js \<noteq> is" using Some t by auto
      moreover have "T' u = T u" using False up by (simp add: T')
      ultimately show ?thesis using u' Some by (auto simp: tbl_append)
    qed
  qed
qed simp

lemma tree_link:
  assumes "tree T root" "tbl T root is = Some t" "length is \<le> 2" "present (T t i) = 0"
    and fresh: "\<And>js. length js \<le> 3 \<Longrightarrow> tbl T root js \<noteq> Some p"
    and "present e \<noteq> 0" "next_table e = p" "T' = T(p := (\<lambda>_. 0), t := (T t)(i := e))"
  shows "tree T' root"
  unfolding tree_def
proof (intro allI impI)
  fix js ks q
  assume "length js \<le> 3" "length ks \<le> 3" "tbl T' root js = Some q" "tbl T' root ks = Some q"
  moreover note tbl_link [OF assms]
  ultimately show "js = ks" using fresh treeD [OF assms(1)] by (auto split: if_splits)
qed

lemma leaf_link:
  assumes tree: "tree T root" and t: "tbl T root is = Some t" "length is \<le> 2" "present (T t i) = 0"
    and fresh: "\<And>js. length js \<le> 3 \<Longrightarrow> tbl T root js \<noteq> Some p"
    and e: "present e \<noteq> 0" "next_table e = p"
    and T': "T' = T(p := (\<lambda>_. 0), t := (T t)(i := e))"
  shows "leaf T' root va = leaf T root va"
proof (cases "tbl T root (indices va)")
  case None
  have "p \<noteq> t" using fresh [of "is"] t by auto
  with None show ?thesis using tbl_link [OF assms, of "indices va"] by (auto simp: leaf_def T')
next
  case (Some u)
  have "indices va \<noteq> is" using t(2) length_indices [of va] by auto
  then have "u \<noteq> t" using treeD [OF tree Some] t by auto
  moreover have "u \<noteq> p" using fresh [of "indices va"] Some by auto
  moreover have "indices va \<noteq> is @ [i]" using Some t by (auto simp: tbl_append)
  ultimately show ?thesis using tbl_link [OF assms, of "indices va"] Some by (auto simp: leaf_def T')
qed

text \<open>Writing an entry of a last-level table leaves the tree as it is and changes one leaf.\<close>

lemma tbl_write_leaf:
  assumes "tree T root" "tbl T root is = Some t" "length is = 3" "T' = T(t := (T t)(i := e))"
  shows "length js \<le> 3 \<Longrightarrow> tbl T' root js = tbl T root js"
proof (induction js rule: rev_induct)
  case (snoc k js)
  show ?case
  proof (cases "tbl T root js")
    case (Some u)
    then have "u \<noteq> t" using treeD [OF assms(1) Some] assms(2,3) snoc.prems by auto
    with snoc Some show ?thesis by (simp add: tbl_append assms(4))
  qed (use snoc in \<open>simp add: tbl_append\<close>)
qed simp

lemma tree_write_leaf:
  assumes "tree T root" "tbl T root is = Some t" "length is = 3" "T' = T(t := (T t)(i := e))"
  shows "tree T' root"
  using assms(1) tbl_write_leaf [OF assms] by (auto simp: tree_def)

lemma leaf_write_leaf:
  assumes "tree T root" "tbl T root (indices va) = Some t"
    "T' = T(t := (T t)(P_i (address_to_map va) := e))"
  shows "leaf T' root va' = (if address_to_map va' = address_to_map va then e else leaf T root va')"
proof -
  have same: "indices va' = indices va \<Longrightarrow> P_i (address_to_map va') = P_i (address_to_map va) \<Longrightarrow>
      address_to_map va' = address_to_map va"
    by (cases "address_to_map va'"; cases "address_to_map va") (simp add: indices_def)
  have tb: "tbl T' root (indices va') = tbl T root (indices va')"
    using tbl_write_leaf [OF assms(1,2) _ assms(3)] by simp
  show ?thesis
  proof (cases "tbl T root (indices va')")
    case None
    then have "indices va' \<noteq> indices va" using assms(2) by auto
    then have "address_to_map va' \<noteq> address_to_map va" by (auto simp: indices_def)
    with None tb show ?thesis by (simp add: leaf_def)
  next
    case (Some u)
    then have "u = t \<longleftrightarrow> indices va' = indices va" using treeD [OF assms(1) Some, of "indices va"] assms(2) by auto
    then show ?thesis using Some tb same assms(3)
      by (auto simp: leaf_def) (auto simp: indices_def)
  qed
qed

subsection \<open>Invariant\<close>

text \<open>
  The managed frames lie below the 40 address bits that an entry can hold and start at a page
  boundary; a page is not free if no free frame has its address.
\<close>

definition window :: "system_memory \<Rightarrow> bool" where
  "window m \<longleftrightarrow> unat (first_available_page_addr m) mod 4096 = 0 \<and> 0 < unat (first_available_page_addr m) \<and>
     unat (first_available_page_addr m) + (unat (total_available_pages m) + 1) * 4096 \<le> 2 ^ 40"

definition not_free :: "system_memory \<Rightarrow> u64 \<Rightarrow> bool" where
  "not_free m p \<longleftrightarrow> (\<forall>k \<le> total_available_pages m. p = page_addr m k \<longrightarrow> taken m k)"

definition paging_inv :: "paging \<Rightarrow> u64 \<Rightarrow> bool" where
  "paging_inv s root \<longleftrightarrow> frames_inv (pmm s) \<and> window (sysmem (pmm s)) \<and> unat root < 2 ^ 40 \<and>
     tree (tables s) root \<and>
     (\<forall>is p. length is \<le> 3 \<longrightarrow> tbl (tables s) root is = Some p \<longrightarrow> not_free (sysmem (pmm s)) p)"

definition free_frames :: "frames \<Rightarrow> u64 set" where
  "free_frames f = {k. 1 \<le> k \<and> k \<le> total_available_pages (sysmem f) \<and> \<not> taken (sysmem f) k}"

lemma free_frames_granted: "free_frames (granted k f) = free_frames f - {k}"
  by (auto simp: free_frames_def)

lemma card_free_granted: "card (free_frames f) \<le> card (free_frames (granted k f)) + 1"
proof -
  have "card (free_frames f) \<le> card (insert k (free_frames f - {k}))" by (rule card_mono) auto
  also have "\<dots> = Suc (card (free_frames f - {k}))" by (rule card_insert_disjoint) auto
  finally show ?thesis by (simp add: free_frames_granted)
qed

lemma unat_page_addr:
  assumes "window m" and "k \<le> total_available_pages m"
  shows "unat (page_addr m k) = unat (first_available_page_addr m) + unat k * 4096"
    and "unat (page_addr m k) < 2 ^ 40"
proof -
  have k: "unat k * 4096 \<le> unat (total_available_pages m) * 4096" using assms(2) by (simp add: word_le_nat_alt)
  with assms(1) have lim: "unat (first_available_page_addr m) + unat k * 4096 < 2 ^ 40" by (simp add: window_def)
  then have "unat (push_bit 12 k) = unat k * 4096" by (subst unat_push_bit_small) simp_all
  with lim show "unat (page_addr m k) = unat (first_available_page_addr m) + unat k * 4096"
    by (simp add: page_addr_def unat_add_small)
  with lim show "unat (page_addr m k) < 2 ^ 40" by simp
qed

lemma page_addr_aligned: "window m \<Longrightarrow> k \<le> total_available_pages m \<Longrightarrow> unat (page_addr m k) mod 4096 = 0"
  by (simp add: unat_page_addr(1)) (simp add: window_def)

lemma page_addr_not_0: "window m \<Longrightarrow> k \<le> total_available_pages m \<Longrightarrow> page_addr m k \<noteq> 0"
  using unat_page_addr(1) [of m k] by (auto simp: window_def)

lemma window_locked [simp]: "window (locked k m) = window m"
  by (simp add: window_def)

lemma not_free_locked: "not_free m p \<Longrightarrow> not_free (locked k m) p"
  by (auto simp: not_free_def)

lemma not_free_granted:
  "frames_wf m \<Longrightarrow> k \<le> total_available_pages m \<Longrightarrow> not_free (locked k m) (page_addr m k)"
  by (auto simp: not_free_def) (metis frames_le_small page_addr_inj)

lemma frames_inv_granted: "frames_inv f \<Longrightarrow> k \<le> total_available_pages (sysmem f) \<Longrightarrow> frames_inv (granted k f)"
  by (simp add: frames_inv_def frames_wf_def)

lemma fresh_page:
  assumes "paging_inv s root" and "k \<le> total_available_pages (sysmem (pmm s))" and "\<not> taken (sysmem (pmm s)) k"
  shows "length js \<le> 3 \<Longrightarrow> tbl (tables s) root js \<noteq> Some (page_addr (sysmem (pmm s)) k)"
  using assms by (auto simp: paging_inv_def not_free_def)

lemma paging_inv_pmm:
  assumes "paging_inv s root" and "k \<le> total_available_pages (sysmem (pmm s))"
  shows "paging_inv (s\<lparr>pmm := granted k (pmm s)\<rparr>) root"
  using assms by (auto simp: paging_inv_def frames_inv_granted not_free_locked)

text \<open>What \<open>map_memory_hh\<close> and \<open>_map_memory\<close> need of their pointers to tables.\<close>

locale table_pointer =
  fixes to_ptr :: "u64 \<Rightarrow> u64" and from_ptr :: "u64 \<Rightarrow> u64"
  assumes phys_to_ptr: "unat p < 2 ^ 40 \<Longrightarrow> phys (to_ptr p) = p"
    and to_ptr_not_0: "unat p < 2 ^ 40 \<Longrightarrow> p \<noteq> 0 \<Longrightarrow> to_ptr p \<noteq> 0"
    and from_to_ptr: "unat p < 2 ^ 40 \<Longrightarrow> from_ptr (to_ptr p) = p"
begin

lemma ensure_table_present:
  assumes "present (tables s (phys ptr) i) \<noteq> 0"
  shows "ensure_table to_ptr from_ptr msg ptr i s = ret (s, to_ptr (next_table (tables s (phys ptr) i)))"
  using assms by (simp add: ensure_table_def entry_def)

lemma ensure_table_absent:
  assumes "paging_inv s root" and "present (tables s (phys ptr) i) = 0"
    and "request_page (pmm s) = ret (granted k (pmm s), p)" and "p = page_addr (sysmem (pmm s)) k"
    and "k \<le> total_available_pages (sysmem (pmm s))" and "p \<noteq> phys ptr"
  shows "\<exists>e. present e \<noteq> 0 \<and> next_table e = p \<and>
    ensure_table to_ptr from_ptr msg ptr i s = ret (s\<lparr>pmm := granted k (pmm s), tables :=
      (tables s)(p := (\<lambda>_. 0), phys ptr := (tables s (phys ptr))(i := e))\<rparr>, to_ptr p)"
proof -
  have w: "window (sysmem (pmm s))" using assms(1) by (simp add: paging_inv_def)
  then have p: "unat p < 2 ^ 40" "p \<noteq> 0" "unat p mod 4096 = 0"
    unfolding assms(4) using assms(5) unat_page_addr(2) page_addr_not_0 page_addr_aligned by blast+
  let ?e = "set_user_access 1 (set_writeable 1 (set_present 1 (set_page_ppn (drop_bit 12 p) (tables s (phys ptr) i))))"
  have e: "present ?e \<noteq> 0" "next_table ?e = p" using p by (simp_all add: next_table_of_page)
  with p assms(2,3,6) show ?thesis
    by (intro exI [of _ ?e])
      (simp add: ensure_table_def entry_def Let_def to_ptr_not_0 from_to_ptr zero_page_def phys_to_ptr
        write_entry_def)
qed

lemma ensure_table_ok:
  assumes inv: "paging_inv s root" and t: "tbl (tables s) root is = Some (phys ptr)" "length is \<le> 2"
    and free: "0 < card (free_frames (pmm s))"
  shows "\<exists>s' u. ensure_table to_ptr from_ptr msg ptr i s = ret (s', to_ptr u) \<and> paging_inv s' root \<and>
    tbl (tables s') root (is @ [i]) = Some u \<and> leaf (tables s') root = leaf (tables s) root \<and>
    card (free_frames (pmm s)) \<le> card (free_frames (pmm s')) + 1 \<and> cr3 s' = cr3 s"
proof (cases "present (tables s (phys ptr) i) = 0")
  case False
  have "tbl (tables s) root (is @ [i]) = Some (next_table (tables s (phys ptr) i))"
    using t False by (simp add: tbl_append)
  with False inv show ?thesis by (auto simp: ensure_table_present)
next
  case True
  have fi: "frames_inv (pmm s)" using inv by (simp add: paging_inv_def)
  from free obtain j where "1 \<le> j" "j \<le> total_available_pages (sysmem (pmm s))" "\<not> taken (sysmem (pmm s)) j"
    by (fastforce simp: free_frames_def card_gt_0_iff)
  with fi obtain k where k: "k \<le> total_available_pages (sysmem (pmm s))" "\<not> taken (sysmem (pmm s)) k"
    and rq: "request_page (pmm s) = ret (granted k (pmm s), page_addr (sysmem (pmm s)) k)"
    using search_free_finds [of j "sysmem (pmm s)" "last_requested (pmm s)"]
    by (auto simp: request_page_search frames_inv_def frames_wf_def)
  define p where "p = page_addr (sysmem (pmm s)) k"
  have fresh: "\<And>js. length js \<le> 3 \<Longrightarrow> tbl (tables s) root js \<noteq> Some p"
    using fresh_page [OF inv k] by (simp add: p_def)
  then have "p \<noteq> phys ptr" using t by (auto dest: fresh [of "is"])
  with ensure_table_absent [OF inv True rq [folded p_def] p_def k(1)] obtain e where
    e: "present e \<noteq> 0" "next_table e = p" and
    en: "ensure_table to_ptr from_ptr msg ptr i s = ret (s\<lparr>pmm := granted k (pmm s), tables :=
      (tables s)(p := (\<lambda>_. 0), phys ptr := (tables s (phys ptr))(i := e))\<rparr>, to_ptr p)" by blast
  define s' where "s' = s\<lparr>pmm := granted k (pmm s), tables :=
      (tables s)(p := (\<lambda>_. 0), phys ptr := (tables s (phys ptr))(i := e))\<rparr>"
  have T': "tables s' = (tables s)(p := (\<lambda>_. 0), phys ptr := (tables s (phys ptr))(i := e))" by (simp add: s'_def)
  have tr: "tree (tables s) root" using inv by (simp add: paging_inv_def)
  note link = tbl_link [OF tr t True fresh e T'] 
  have "paging_inv s' root"
    unfolding paging_inv_def
  proof (intro conjI allI impI)
    show "frames_inv (pmm s')" using fi k by (simp add: s'_def frames_inv_granted)
    show "window (sysmem (pmm s'))" "unat root < 2 ^ 40" using inv by (simp_all add: s'_def paging_inv_def)
    show "tree (tables s') root" by (rule tree_link [OF tr t True fresh e T'])
    fix js q assume "length js \<le> 3" "tbl (tables s') root js = Some q"
    then show "not_free (sysmem (pmm s')) q"
      using link inv not_free_granted [of "sysmem (pmm s)" k] k fi
      by (auto simp: s'_def paging_inv_def p_def frames_inv_def not_free_locked split: if_splits)
  qed
  moreover have "tbl (tables s') root (is @ [i]) = Some p" using link [of "is @ [i]"] t(2) by simp
  moreover have "leaf (tables s') root = leaf (tables s) root"
    using leaf_link [OF tr t True fresh e T'] by (rule ext)
  moreover have "card (free_frames (pmm s)) \<le> card (free_frames (pmm s')) + 1" "cr3 s' = cr3 s"
    using card_free_granted by (simp_all add: s'_def)
  ultimately show ?thesis using en [folded s'_def] by blast
qed

end

interpretation kernel_map: table_pointer TO_KERNEL_MAP FROM_KERNEL_MAP
  by unfold_locales (simp_all add: phys_kernel TO_KERNEL_MAP_not_0)

interpretation identity_map: table_pointer "\<lambda>p. p" "\<lambda>p. p"
  by unfold_locales (simp_all add: phys_low)

lemma ucast_single_bit:
  "ucast (drop_bit j (x AND 2 ^ j) :: u8) = (of_bool (bit x j) :: u64)" if "j < 8"
proof (rule bit_word_eqI)
  fix k assume "k < LENGTH(64)"
  show "bit (ucast (drop_bit j (x AND 2 ^ j) :: u8) :: u64) k = bit (of_bool (bit x j) :: u64) k"
    using that by (cases "k = 0") (auto simp: bit_simps bit_single)
qed

lemma flag_bits:
  "WRITE_BIT_SET x = of_bool (bit x 0)" "USER_BIT_SET x = of_bool (bit x 1)"
  "NX_BIT_SET x = of_bool (bit x 2)" "CACHE_BIT_SET x = of_bool (bit x 3)"
  "ucast (x AND 1 :: u8) = (of_bool (bit x 0) :: u64)" "ucast (drop_bit (Suc 0) (x AND 2 :: u8)) = (of_bool (bit x 1) :: u64)"
  "ucast (drop_bit 2 (x AND 4 :: u8)) = (of_bool (bit x 2) :: u64)" "ucast (drop_bit 3 (x AND 8 :: u8)) = (of_bool (bit x 3) :: u64)"
  using ucast_single_bit [of 0 x] ucast_single_bit [of 1 x] ucast_single_bit [of 2 x] ucast_single_bit [of 3 x]
  by (simp_all add: WRITE_BIT_SET_def USER_BIT_SET_def NX_BIT_SET_def CACHE_BIT_SET_def)

lemma low_nibble:
  "(x :: u8) AND 0xF = ucast ((of_bool (bit x 0) OR push_bit 1 (of_bool (bit x 1))
     OR push_bit 2 (of_bool (bit x 2)) OR push_bit 3 (of_bool (bit x 3))) :: u64)"
proof (rule bit_word_eqI)
  fix k assume "k < LENGTH(8)"
  then have k: "k \<in> {0, 1, 2, 3, 4, 5, 6, 7}" by auto
  have F: "(0xF :: u8) = mask 4" by (simp add: mask_eq_exp_minus_1)
  show "bit (x AND 0xF) k = bit (ucast ((of_bool (bit x 0) OR push_bit 1 (of_bool (bit x 1))
     OR push_bit 2 (of_bool (bit x 2)) OR push_bit 3 (of_bool (bit x 3))) :: u64) :: u8) k"
    unfolding F using k by (elim insertE emptyE) (simp_all add: bit_simps)
qed

lemma take_bit_of_bool [simp]: "take_bit (Suc 0) (of_bool b :: u64) = of_bool b"
  by (cases b) simp_all

lemma entry_perms_set [simp]: "entry_perms (entry_set_perms p e) = p AND 0xF"
  by (simp add: entry_set_perms_def entry_perms_def Let_def flag_bits low_nibble bit_drop_bit_eq)

lemma entry_perms_page [simp]: "entry_perms (page_entry pa p e) = p AND 0xF"
  by (simp add: page_entry_def entry_perms_def Let_def flag_bits low_nibble bit_drop_bit_eq)

lemma entry_set_perms_keeps [simp]:
  "present (entry_set_perms p e) = present e" "page_ppn (entry_set_perms p e) = page_ppn e"
  by (simp_all add: entry_set_perms_def Let_def)

lemma next_table_set_perms [simp]: "next_table (entry_set_perms p e) = next_table e"
  by (simp add: next_table_def)

lemma page_entry_maps:
  assumes "unat pa < 2 ^ 40" and "pa AND 0xFFF = 0"
  shows "present (page_entry pa p e) = 1" and "next_table (page_entry pa p e) = pa"
proof -
  show "present (page_entry pa p e) = 1" by (simp add: page_entry_def Let_def)
  have "unat pa mod 4096 = 0" using assms(2) unat_and_page_mask [of pa] by simp
  with assms(1) show "next_table (page_entry pa p e) = pa"
    by (intro next_table_of_page) (simp_all add: page_entry_def Let_def)
qed

lemma paging_inv_write_leaf:
  assumes "paging_inv s root" and "tbl (tables s) root (indices va) = Some (phys pt)"
  shows "paging_inv (write_entry pt (P_i (address_to_map va)) e s) root"
    and "leaf (tables (write_entry pt (P_i (address_to_map va)) e s)) root va' =
      (if address_to_map va' = address_to_map va then e else leaf (tables s) root va')"
proof -
  let ?s = "write_entry pt (P_i (address_to_map va)) e s"
  have tr: "tree (tables s) root" using assms(1) by (simp add: paging_inv_def)
  have T: "tables ?s = (tables s)(phys pt := (tables s (phys pt))(P_i (address_to_map va) := e))"
    by (simp add: write_entry_def)
  show "paging_inv ?s root"
    using assms(1) tree_write_leaf [OF tr assms(2) length_indices T] tbl_write_leaf [OF tr assms(2) length_indices T]
    by (auto simp: paging_inv_def write_entry_def)
  show "leaf (tables ?s) root va' = (if address_to_map va' = address_to_map va then e else leaf (tables s) root va')"
    by (rule leaf_write_leaf [OF tr assms(2) T])
qed

lemma leaf_eq_entry: "tbl (tables s) root (indices va) = Some (phys pt) \<Longrightarrow>
    leaf (tables s) root va = entry s pt (P_i (address_to_map va))"
  by (simp add: leaf_def entry_def)

definition has_table :: "paging \<Rightarrow> u64 \<Rightarrow> u64 \<Rightarrow> bool" where
  "has_table s root va \<longleftrightarrow> tbl (tables s) root (indices va) \<noteq> None"

context table_pointer
begin

lemma map_pages_ok:
  assumes inv: "paging_inv s root" and root: "phys pml4 = root"
    and al: "va AND 0xFFF = 0" "pa AND 0xFFF = 0" and free: "3 \<le> card (free_frames (pmm s))"
  shows "\<exists>s'. map_pages to_ptr from_ptr pml4 va pa flags s = ret s' \<and> paging_inv s' root \<and> cr3 s' = cr3 s \<and>
    card (free_frames (pmm s)) \<le> card (free_frames (pmm s')) + 3 \<and>
    has_table s' root va \<and> (\<forall>va'. leaf (tables s') root va' =
      (if address_to_map va' = address_to_map va then page_entry pa flags (leaf (tables s) root va)
       else leaf (tables s) root va'))"
proof -
  let ?m = "address_to_map va" and ?E = "ensure_table to_ptr from_ptr"
  have low: "paging_inv s root \<Longrightarrow> tbl (tables s) root is = Some u \<Longrightarrow> phys (to_ptr u) = u" for s "is" u
    by (rule phys_to_ptr) (auto simp: paging_inv_def intro: tbl_bound [simplified])
  obtain s1 u1 where 1: "?E ''ERROR: Could not allocate page for new PDP'' pml4 (PDP_i ?m) s = ret (s1, to_ptr u1)"
    "paging_inv s1 root" "tbl (tables s1) root [PDP_i ?m] = Some u1" "leaf (tables s1) root = leaf (tables s) root"
    "card (free_frames (pmm s)) \<le> card (free_frames (pmm s1)) + 1" "cr3 s1 = cr3 s"
    using ensure_table_ok [OF inv, of "[]" pml4] root free by fastforce
  obtain s2 u2 where 2: "?E ''ERROR: Could not allocate page for new PD'' (to_ptr u1) (PD_i ?m) s1 = ret (s2, to_ptr u2)"
    "paging_inv s2 root" "tbl (tables s2) root [PDP_i ?m, PD_i ?m] = Some u2" "leaf (tables s2) root = leaf (tables s1) root"
    "card (free_frames (pmm s1)) \<le> card (free_frames (pmm s2)) + 1" "cr3 s2 = cr3 s1"
    using ensure_table_ok [OF 1(2), of "[PDP_i ?m]" "to_ptr u1"] low [OF 1(2,3)] 1(3,5) free by fastforce
  obtain s3 u3 where 3: "?E ''ERROR: Could not allocate page for new PT'' (to_ptr u2) (PT_i ?m) s2 = ret (s3, to_ptr u3)"
    "paging_inv s3 root" "tbl (tables s3) root [PDP_i ?m, PD_i ?m, PT_i ?m] = Some u3"
    "leaf (tables s3) root = leaf (tables s2) root" "cr3 s3 = cr3 s2"
    "card (free_frames (pmm s2)) \<le> card (free_frames (pmm s3)) + 1"
    using ensure_table_ok [OF 2(2), of "[PDP_i ?m, PD_i ?m]" "to_ptr u2"] low [OF 2(2,3)] 2(3,5) 1(5) free by fastforce
  have t: "tbl (tables s3) root (indices va) = Some (phys (to_ptr u3))"
    using 3(3) low [OF 3(2,3)] by (simp add: indices_def Let_def)
  let ?s = "write_entry (to_ptr u3) (P_i ?m) (page_entry pa flags (entry s3 (to_ptr u3) (P_i ?m))) s3"
  have "map_pages to_ptr from_ptr pml4 va pa flags s = ret ?s"
    using al 1(1) 2(1) 3(1) by (simp add: map_pages_def Let_def)
  moreover have "cr3 ?s = cr3 s" "card (free_frames (pmm s)) \<le> card (free_frames (pmm ?s)) + 3"
    using 1(5,6) 2(5,6) 3(5,6) by (simp_all add: write_entry_def)
  moreover have "has_table ?s root va"
    using tbl_write_leaf [OF _ t, of "tables ?s"] 3(2) t
    by (simp add: has_table_def write_entry_def paging_inv_def)
  moreover have "leaf (tables s3) root = leaf (tables s) root" using 1(4) 2(4) 3(4) by simp
  ultimately show ?thesis using paging_inv_write_leaf [OF 3(2) t] leaf_eq_entry [OF t] by auto
qed

lemma page_slot_eq:
  assumes "paging_inv s root" and "phys pml4 = root" and "tbl (tables s) root (indices va) = Some t"
  shows "page_slot to_ptr pml4 va s = (to_ptr t, P_i (address_to_map va))" and "phys (to_ptr t) = t"
proof -
  show "page_slot to_ptr pml4 va s = (to_ptr t, P_i (address_to_map va))"
    using assms(2,3) by (auto simp: page_slot_def indices_def Let_def entry_def phys_to_ptr next_table_bound [simplified]
        split: if_splits)
  show "phys (to_ptr t) = t" using assms(1) tbl_bound [OF assms(3)] by (auto simp: paging_inv_def intro: phys_to_ptr)
qed

lemma set_perms_at_ok:
  assumes "paging_inv s root" and "phys pml4 = root" and "has_table s root va"
  shows "paging_inv (set_perms_at to_ptr pml4 va p s) root"
    and "leaf (tables (set_perms_at to_ptr pml4 va p s)) root va' =
      (if address_to_map va' = address_to_map va then entry_set_perms p (leaf (tables s) root va)
       else leaf (tables s) root va')"
    and "has_table (set_perms_at to_ptr pml4 va p s) root va' = has_table s root va'"
proof -
  from assms(3) obtain t where t: "tbl (tables s) root (indices va) = Some t" by (auto simp: has_table_def)
  note sl = page_slot_eq [OF assms(1,2) t]
  then have t': "tbl (tables s) root (indices va) = Some (phys (to_ptr t))" using t by simp
  have eq: "set_perms_at to_ptr pml4 va p s = write_entry (to_ptr t) (P_i (address_to_map va))
      (entry_set_perms p (leaf (tables s) root va)) s"
    using sl(1) leaf_eq_entry [OF t'] by (simp add: set_perms_at_def)
  show "paging_inv (set_perms_at to_ptr pml4 va p s) root"
    "leaf (tables (set_perms_at to_ptr pml4 va p s)) root va' =
      (if address_to_map va' = address_to_map va then entry_set_perms p (leaf (tables s) root va)
       else leaf (tables s) root va')"
    unfolding eq by (rule paging_inv_write_leaf [OF assms(1) t'])+
  show "has_table (set_perms_at to_ptr pml4 va p s) root va' = has_table s root va'"
    unfolding eq has_table_def using tbl_write_leaf [OF _ t', of "tables (set_perms_at to_ptr pml4 va p s)"] assms(1)
    by (simp add: eq write_entry_def paging_inv_def)
qed

lemma unmap_pages_ok:
  assumes "paging_inv s root" and "phys pml4 = root"
  shows "paging_inv (unmap_pages to_ptr pml4 va s) root"
    and "leaf (tables (unmap_pages to_ptr pml4 va s)) root va' =
      (if address_to_map va' = address_to_map va \<and> has_table s root va
       then set_present 0 (leaf (tables s) root va) else leaf (tables s) root va')"
proof -
  have "paging_inv (unmap_pages to_ptr pml4 va s) root \<and>
    leaf (tables (unmap_pages to_ptr pml4 va s)) root va' =
      (if address_to_map va' = address_to_map va \<and> has_table s root va
       then set_present 0 (leaf (tables s) root va) else leaf (tables s) root va')"
  proof (cases "tbl (tables s) root (indices va)")
    case None
    then have "unmap_pages to_ptr pml4 va s = s" using assms(2)
      by (auto simp: unmap_pages_def indices_def Let_def entry_def phys_to_ptr next_table_bound [simplified]
          split: if_splits)
    with None assms(1) show ?thesis by (simp add: has_table_def)
  next
    case (Some t)
    note sl = page_slot_eq [OF assms Some]
    then have t': "tbl (tables s) root (indices va) = Some (phys (to_ptr t))" using Some by simp
    have "unmap_pages to_ptr pml4 va s = write_entry (to_ptr t) (P_i (address_to_map va))
        (set_present 0 (leaf (tables s) root va)) s"
      unfolding leaf_eq_entry [OF t'] using Some assms(2) sl(2)
      by (auto simp: unmap_pages_def indices_def Let_def entry_def phys_to_ptr next_table_bound [simplified]
          split: if_splits)
    then show ?thesis using paging_inv_write_leaf [OF assms(1) t'] Some by (simp add: has_table_def)
  qed
  then show "paging_inv (unmap_pages to_ptr pml4 va s) root"
    "leaf (tables (unmap_pages to_ptr pml4 va s)) root va' =
      (if address_to_map va' = address_to_map va \<and> has_table s root va
       then set_present 0 (leaf (tables s) root va) else leaf (tables s) root va')" by blast+
qed

end

lemma paging_inv_cr3 [simp]: "paging_inv (s\<lparr>cr3 := c\<rparr>) root = paging_inv s root"
  by (simp add: paging_inv_def)

text \<open>The pages that \<^verbatim>\<open>mprotect\<close> visits for a byte range that does not wrap around.\<close>

definition range_pages :: "u64 \<Rightarrow> u64 \<Rightarrow> u64 list" where
  "range_pages address len = map (\<lambda>k. (address AND NOT 0xFFF) + word_of_nat k * 0x1000)
     [0..<(unat address mod 4096 + unat len + 4095) div 4096]"

lemma mprotect_range_iter:
  assumes "unat address + unat len + 4095 < 2 ^ 64"
  shows "mprotect_range body address len s = iter_res (\<lambda>i s. ret (body i s)) (range_pages address len) s"
proof -
  let ?a = "unat address" and ?n = "(unat address mod 4096 + unat len + 4095) div 4096"
  have start: "unat (address AND NOT 0xFFF) = ?a div 4096 * 4096"
    using unat_page_floor [of address] by (simp add: and.commute)
  have stop: "unat ((address + len + 0xFFF) AND NOT 0xFFF) = (?a + unat len + 4095) div 4096 * 4096"
  proof -
    have "unat (address + len + 0xFFF) = ?a + unat len + 4095" using assms by (simp add: unat_add_small)
    then show ?thesis using unat_page_floor [of "address + len + 0xFFF"] by (simp add: and.commute)
  qed
  have "?a + unat len + 4095 = (?a mod 4096 + unat len + 4095) + ?a div 4096 * 4096" by simp
  then have "(?a + unat len + 4095) div 4096 =
      ((?a mod 4096 + unat len + 4095) + ?a div 4096 * 4096) div 4096" by (simp only:)
  also have "\<dots> = ?a div 4096 + ?n" by (rule div_mult_self1) simp
  finally have split: "(?a + unat len + 4095) div 4096 * 4096 = ?a div 4096 * 4096 + ?n * 4096" by simp
  have "(?a + unat len + 4095) div 4096 * 4096 \<le> ?a + unat len + 4095" by (rule div_times_less_eq_dividend)
  with assms split have lim: "unat (address AND NOT 0xFFF) + ?n * unat (0x1000::u64) < 2 ^ 64"
    unfolding start by simp
  then have n: "unat (word_of_nat ?n * 0x1000 :: u64) = ?n * 4096"
  proof -
    have "?n * 4096 < 2 ^ 64" using lim by simp
    moreover then have "unat (word_of_nat ?n :: u64) = ?n" by (intro unat_of_nat_small) linarith
    ultimately show ?thesis using unat_mult_lem [of "word_of_nat ?n" "0x1000::u64"] by simp
  qed
  have "(address + len + 0xFFF) AND NOT 0xFFF = (address AND NOT 0xFFF) + word_of_nat ?n * 0x1000"
    unfolding word_unat_eq_iff using lim n start stop split by (subst unat_add_small) simp_all
  then show ?thesis using for_from_iter [OF lim, of "(address + len + 0xFFF) AND NOT 0xFFF"]
    by (simp only: mprotect_range_def Let_def range_pages_def) simp
qed

context table_pointer
begin

lemma set_perms_list:
  assumes "paging_inv s root" and "phys pml4 = root" and "\<And>va. va \<in> set vs \<Longrightarrow> has_table s root va"
  shows "\<exists>s'. iter_res (\<lambda>i s. ret (set_perms_at to_ptr pml4 i p s)) vs s = ret s' \<and> paging_inv s' root \<and>
    (\<forall>va. has_table s' root va = has_table s root va) \<and>
    (\<forall>va. present (leaf (tables s') root va) = present (leaf (tables s) root va) \<and>
      next_table (leaf (tables s') root va) = next_table (leaf (tables s) root va) \<and>
      (if address_to_map va \<in> address_to_map ` set vs then entry_perms (leaf (tables s') root va) = p AND 0xF
       else leaf (tables s') root va = leaf (tables s) root va))"
  using assms
proof (induction vs arbitrary: s)
  case (Cons v vs)
  let ?s = "set_perms_at to_ptr pml4 v p s"
  have v: "has_table s root v" using Cons.prems by simp
  note step = set_perms_at_ok [OF Cons.prems(1,2) v, of p]
  have leaf_cong: "leaf (tables s) root va = leaf (tables s) root v" if "address_to_map va = address_to_map v" for va
    using that by (simp add: leaf_def indices_def split: option.split)
  from Cons.IH [OF step(1) Cons.prems(2)] step(3) Cons.prems(3) obtain s' where
    s': "iter_res (\<lambda>i s. ret (set_perms_at to_ptr pml4 i p s)) vs ?s = ret s'" "paging_inv s' root"
    "\<And>va. has_table s' root va = has_table ?s root va"
    "\<And>va. present (leaf (tables s') root va) = present (leaf (tables ?s) root va) \<and>
      next_table (leaf (tables s') root va) = next_table (leaf (tables ?s) root va) \<and>
      (if address_to_map va \<in> address_to_map ` set vs then entry_perms (leaf (tables s') root va) = p AND 0xF
       else leaf (tables s') root va = leaf (tables ?s) root va)" by auto
  show ?case
  proof (intro exI [of _ s'] conjI allI)
    fix va
    show "present (leaf (tables s') root va) = present (leaf (tables s) root va)"
      using s'(4) [of va] step(2) [of va] leaf_cong [of va] by auto
    show "next_table (leaf (tables s') root va) = next_table (leaf (tables s) root va)"
      using s'(4) [of va] step(2) [of va] leaf_cong [of va] by auto
    show "if address_to_map va \<in> address_to_map ` set (v # vs) then entry_perms (leaf (tables s') root va) = p AND 0xF
       else leaf (tables s') root va = leaf (tables s) root va"
      using s'(4) [of va] step(2) [of va] by (auto split: if_splits)
  qed (use s' step(3) in simp_all)
qed simp

end

lemma get_page_perms_leaf:
  assumes "paging_inv s root" and "phys pml4 = root" and "has_table s root va"
  shows "get_page_perms pml4 va s = entry_perms (leaf (tables s) root va)"
    and "get_page_perms_hh pml4 va s = entry_perms (leaf (tables s) root va)"
proof -
  from assms(3) obtain t where t: "tbl (tables s) root (indices va) = Some t" by (auto simp: has_table_def)
  show "get_page_perms pml4 va s = entry_perms (leaf (tables s) root va)"
    using identity_map.page_slot_eq [OF assms(1,2) t] t by (simp add: get_page_perms_def leaf_def entry_def)
  show "get_page_perms_hh pml4 va s = entry_perms (leaf (tables s) root va)"
    using kernel_map.page_slot_eq [OF assms(1,2) t] t by (simp add: get_page_perms_hh_def leaf_def entry_def)
qed

lemma paging_root: "paging_inv s root \<Longrightarrow> phys (TO_KERNEL_MAP root) = root"
  by (simp add: paging_inv_def phys_kernel)

lemma map_memory_hh_ok:
  assumes "paging_inv s root" and "3 \<le> card (free_frames (pmm s))"
    and "va AND 0xFFF = 0" and "pa AND 0xFFF = 0" and "unat pa < 2 ^ 40"
  obtains s' where "map_memory_hh (TO_KERNEL_MAP root) va pa flags s = ret s'" and "paging_inv s' root"
    and "cr3 s' = cr3 s" and "card (free_frames (pmm s)) \<le> card (free_frames (pmm s')) + 3" and "has_table s' root va"
    and "virtual_to_physical (TO_KERNEL_MAP root) va s' = pa"
    and "get_page_perms (TO_KERNEL_MAP root) va s' = flags AND 0xF"
    and "\<And>va'. address_to_map va' \<noteq> address_to_map va \<Longrightarrow>
       virtual_to_physical (TO_KERNEL_MAP root) va' s' = virtual_to_physical (TO_KERNEL_MAP root) va' s"
proof -
  note root = paging_root [OF assms(1)]
  obtain s' where s': "map_memory_hh (TO_KERNEL_MAP root) va pa flags s = ret s'" "paging_inv s' root"
    "cr3 s' = cr3 s" "card (free_frames (pmm s)) \<le> card (free_frames (pmm s')) + 3" "has_table s' root va"
    "\<And>va'. leaf (tables s') root va' =
      (if address_to_map va' = address_to_map va then page_entry pa flags (leaf (tables s) root va)
       else leaf (tables s) root va')"
    using kernel_map.map_pages_ok [OF assms(1) root assms(3,4,2)] unfolding map_memory_hh_def by blast
  have "get_page_perms (TO_KERNEL_MAP root) va s' = flags AND 0xF"
    using get_page_perms_leaf(1) [OF s'(2) root s'(5)] s'(6) by simp
  moreover have "virtual_to_physical (TO_KERNEL_MAP root) va s' = pa"
    using s'(6) page_entry_maps [OF assms(5,4)]
    by (simp add: virtual_to_physical_translate [OF root] translate_def Let_def)
  moreover have "virtual_to_physical (TO_KERNEL_MAP root) va' s' = virtual_to_physical (TO_KERNEL_MAP root) va' s"
    if "address_to_map va' \<noteq> address_to_map va" for va'
    using s'(6) that by (simp add: virtual_to_physical_translate [OF root] translate_def Let_def)
  ultimately show ?thesis using that [OF s'(1-5)] by blast
qed

definition demo_paging :: paging where
  "demo_paging = \<lparr>tables = (\<lambda>_ _. 0), pmm = demo_frames, cr3 = 0x1000\<rparr>"

lemma tbl_zero: "tbl (\<lambda>_ _. 0) root is = Some p \<longleftrightarrow> is = [] \<and> p = root"
  by (cases "is") auto

lemma demo_window: "window (sysmem demo_frames)"
  by (simp add: window_def)

lemma unat_numeral_0x100000: "unat (0x100000 :: u64) = 0x100000"
  by simp

lemma demo_paging_inv: "paging_inv demo_paging 0x1000"
proof -
  have "not_free (sysmem demo_frames) 0x1000"
    unfolding not_free_def
  proof (intro allI impI)
    fix k assume "k \<le> total_available_pages (sysmem demo_frames)" "0x1000 = page_addr (sysmem demo_frames) k"
    then have "unat (0x1000 :: u64) = 0x100000 + unat k * 4096"
      using unat_page_addr(1) [OF demo_window, of k] by (metis demo_frames_simps(5) unat_numeral_0x100000)
    then show "taken (sysmem demo_frames) k" by simp
  qed
  then show ?thesis by (auto simp: demo_paging_def paging_inv_def demo_window tree_def tbl_zero)
qed

lemma demo_paging_free: "3 \<le> card (free_frames (pmm demo_paging))"
proof -
  have "card {1, 2, 3 :: u64} \<le> card (free_frames (pmm demo_paging))"
    by (rule card_mono) (auto simp: demo_paging_def free_frames_def)
  then show ?thesis by simp
qed

lemma demo_mapped:
  obtains s where "paging_inv s (cr3 s)" and "cr3 s = 0x1000" and "has_table s (cr3 s) 0x400000"
    and "virtual_to_physical (get_pml4 s) 0x400000 s = 0x105000"
proof -
  have "cr3 demo_paging = 0x1000" by (simp add: demo_paging_def)
  then show ?thesis
    using map_memory_hh_ok [OF demo_paging_inv demo_paging_free, where va = "0x400000" and pa = "0x105000" and flags = 3] that
    by (auto simp: get_pml4_def)
qed

subsection \<open>Properties\<close>

text \<open>C4: with three frames free, \<^verbatim>\<open>map_memory_hh\<close> of a page-aligned address returns; the walk of
  \<^verbatim>\<open>virtual_to_physical\<close> then gives the physical page asked for, with the permissions asked for, every
  other virtual page keeps its translation, and the tables still form a tree of pages that the frame
  allocator does not hand out.\<close>

theorem map_memory_hh_maps:
  assumes "paging_inv s root" and "3 \<le> card (free_frames (pmm s))"
    and "va AND 0xFFF = 0" and "pa AND 0xFFF = 0" and "unat pa < 2 ^ 40"
  shows "\<exists>s'. map_memory_hh (TO_KERNEL_MAP root) va pa flags s = ret s' \<and> paging_inv s' root \<and>
    virtual_to_physical (TO_KERNEL_MAP root) va s' = pa \<and>
    get_page_perms (TO_KERNEL_MAP root) va s' = flags AND 0xF \<and>
    (\<forall>va'. address_to_map va' \<noteq> address_to_map va \<longrightarrow>
       virtual_to_physical (TO_KERNEL_MAP root) va' s' = virtual_to_physical (TO_KERNEL_MAP root) va' s)"
  using map_memory_hh_ok [OF assms] by metis

theorem map_memory_hh_maps_witness:
  "\<exists>s. map_memory_hh (TO_KERNEL_MAP 0x1000) 0x400000 0x105000 3 demo_paging = ret s \<and>
     virtual_to_physical (TO_KERNEL_MAP 0x1000) 0x400000 s = 0x105000 \<and>
     get_page_perms (TO_KERNEL_MAP 0x1000) 0x400000 s = 3"
  using map_memory_hh_maps [OF demo_paging_inv demo_paging_free, where va = "0x400000" and pa = "0x105000" and flags = 3]
  by auto

text \<open>C10: \<^verbatim>\<open>unmap_current_memory\<close> removes the translation of the page it is given and of no
  other page, and keeps the invariant of the tables.\<close>

theorem unmap_current_memory_unmaps:
  assumes "paging_inv s (cr3 s)"
  shows "paging_inv (unmap_current_memory va s) (cr3 s) \<and>
    (\<forall>va'. virtual_to_physical (get_pml4 s) va' (unmap_current_memory va s) =
      (if address_to_map va' = address_to_map va then 0 else virtual_to_physical (get_pml4 s) va' s))"
proof (intro conjI allI)
  note root = paging_root [OF assms]
  note u = kernel_map.unmap_pages_ok [OF assms root, of va]
  show "paging_inv (unmap_current_memory va s) (cr3 s)"
    using u(1) by (simp add: unmap_current_memory_def get_pml4_def)
  fix va'
  have "address_to_map va' = address_to_map va \<Longrightarrow> \<not> has_table s (cr3 s) va \<Longrightarrow> leaf (tables s) (cr3 s) va' = 0"
    by (simp add: has_table_def leaf_def indices_def)
  then show "virtual_to_physical (get_pml4 s) va' (unmap_current_memory va s) =
      (if address_to_map va' = address_to_map va then 0 else virtual_to_physical (get_pml4 s) va' s)"
    using u(2) [of va'] by (auto simp: virtual_to_physical_translate [OF root] unmap_current_memory_def get_pml4_def
      translate_def Let_def)
qed

theorem unmap_current_memory_unmaps_witness:
  "\<exists>s. virtual_to_physical (get_pml4 s) 0x400000 s = 0x105000 \<and>
     virtual_to_physical (get_pml4 s) 0x400000 (unmap_current_memory 0x400000 s) = 0"
  using demo_mapped unmap_current_memory_unmaps by metis



end
