(* ===== verification/Concurrency.thy ===== *)
theory Concurrency
  imports Kernel_Prelude
begin

section \<open>Locks and semaphores (\<^verbatim>\<open>src/src/sched/concurrency.c\<close>)\<close>

text \<open>
  The spin lock, the test-and-set lock and the semaphore of the kernel. The two routines of the spin lock are written
  as the memory accesses they make, one per step (\<open>acquire_step\<close>, \<open>release_step\<close>), each thread with its own program
  counter and its own flags register. Two compositions of these steps are used. \<open>lock_run\<close> interleaves the steps of
  any number of threads in any order, and the properties of this theory are about it. \<open>acquire_spinlock\<close> and
  \<open>release_spinlock\<close> are the steps of one thread with no other step in between: the call as the other components
  make it when nothing else runs, where a spin on a lock that is held is the result \<open>None\<close>.
\<close>

record spinlock_t =
  sl_flags :: u64
  sl_mut :: bool

record semaphore_t =
  sem_val :: int
  sem_mut :: spinlock_t

text \<open>Bit 9 of the flags register: interrupts are enabled.\<close>

definition IF_FLAG :: u64 where
  "IF_FLAG = 0x200"

definition cli :: "u64 \<Rightarrow> u64" where
  "cli rflags = rflags AND NOT IF_FLAG"

definition sti :: "u64 \<Rightarrow> u64" where
  "sti rflags = rflags OR IF_FLAG"

text \<open>Where a thread is: not using the lock, at the test of the loop of \<^verbatim>\<open>acquire_spinlock\<close>, at its store of the flags,
  at its \<^verbatim>\<open>cli\<close>, between the two calls, and in \<^verbatim>\<open>release_spinlock\<close> after the flag was cleared.\<close>

datatype lock_pc = Outside | Spin | Save | Mask | Critical | Restore

definition test_and_set :: "spinlock_t \<Rightarrow> spinlock_t \<times> bool" where
  "test_and_set lk = (lk\<lparr>sl_mut := True\<rparr>, sl_mut lk)"

fun acquire_step :: "lock_pc \<Rightarrow> spinlock_t \<Rightarrow> u64 \<Rightarrow> lock_pc \<times> spinlock_t \<times> u64" where
  "acquire_step Spin lk rflags = (case test_and_set lk of (lk, held) \<Rightarrow> (if held then Spin else Save, lk, rflags))"
| "acquire_step Save lk rflags = (Mask, lk\<lparr>sl_flags := rflags\<rparr>, rflags)"
| "acquire_step Mask lk rflags = (Critical, lk, cli rflags)"
| "acquire_step pc lk rflags = (pc, lk, rflags)"

fun release_step :: "lock_pc \<Rightarrow> spinlock_t \<Rightarrow> u64 \<Rightarrow> lock_pc \<times> spinlock_t \<times> u64" where
  "release_step Critical lk rflags = (Restore, lk\<lparr>sl_mut := False\<rparr>, rflags)"
| "release_step Restore lk rflags = (Outside, lk, if sl_flags lk AND 0x200 \<noteq> 0 then sti rflags else rflags)"
| "release_step pc lk rflags = (pc, lk, rflags)"

partial_function (option) acquire_alone :: "lock_pc \<Rightarrow> spinlock_t \<Rightarrow> u64 \<Rightarrow> (spinlock_t \<times> u64) res" where
  "acquire_alone pc lk rflags =
     (if pc = Critical then ret (lk, rflags)
      else case acquire_step pc lk rflags of (pc, lk, rflags) \<Rightarrow> acquire_alone pc lk rflags)"

definition acquire_spinlock :: "spinlock_t \<Rightarrow> u64 \<Rightarrow> (spinlock_t \<times> u64) res" where
  "acquire_spinlock lk rflags = acquire_alone Spin lk rflags"

definition release_spinlock :: "spinlock_t \<Rightarrow> u64 \<Rightarrow> spinlock_t \<times> u64" where
  "release_spinlock lk rflags =
     (case release_step Critical lk rflags of (pc, lk, rflags) \<Rightarrow> snd (release_step pc lk rflags))"

text \<open>\<^verbatim>\<open>wait\<close> spins for a positive value while it holds the semaphore's own spin lock. It too is the call of a thread
  that runs alone: without a \<^verbatim>\<open>signal\<close> from elsewhere the value it reads does not change.\<close>

partial_function (option) sem_spin :: "int \<Rightarrow> int res" where
  "sem_spin v = (if v \<le> 0 then sem_spin v else ret v)"

definition wait :: "semaphore_t \<Rightarrow> u64 \<Rightarrow> (semaphore_t \<times> u64) res" where
  "wait s rflags =
     bind_res (acquire_spinlock (sem_mut s) rflags) (\<lambda>(lk, rflags).
     bind_res (sem_spin (sem_val s)) (\<lambda>v.
       let (lk, rflags) = release_spinlock lk rflags in
       ret (s\<lparr>sem_val := v - 1, sem_mut := lk\<rparr>, rflags)))"

definition signal :: "semaphore_t \<Rightarrow> semaphore_t" where
  "signal s = s\<lparr>sem_val := sem_val s + 1\<rparr>"

text \<open>The plain lock is an integer, 0 when free; \<^verbatim>\<open>try_acquire_lock\<close> tells whether it took it.\<close>

definition init_lock :: "int \<Rightarrow> int" where
  "init_lock lk = 0"

definition try_acquire_lock :: "int \<Rightarrow> int \<times> bool" where
  "try_acquire_lock lk = (if lk = 0 then (1, True) else (lk, False))"

text \<open>Interleaved threads: a thread outside may call \<^verbatim>\<open>acquire_spinlock\<close> with any flags register, and any thread may take
  the next step of the call it is in. A thread between its two calls releases the lock by its next step.\<close>

record lock_world =
  lw_lock :: spinlock_t
  lw_pc :: "nat \<Rightarrow> lock_pc"
  lw_rflags :: "nat \<Rightarrow> u64"

datatype lock_event = Call nat u64 | Step nat

definition thread_step :: "lock_pc \<Rightarrow> spinlock_t \<Rightarrow> u64 \<Rightarrow> lock_pc \<times> spinlock_t \<times> u64" where
  "thread_step pc = (if pc \<in> {Spin, Save, Mask} then acquire_step pc else release_step pc)"

fun lock_do :: "lock_world \<Rightarrow> lock_event \<Rightarrow> lock_world" where
  "lock_do w (Call i rf) =
     (if lw_pc w i = Outside
      then \<lparr>lw_lock = lw_lock w, lw_pc = (lw_pc w)(i := Spin), lw_rflags = (lw_rflags w)(i := rf)\<rparr> else w)"
| "lock_do w (Step i) =
     (case thread_step (lw_pc w i) (lw_lock w) (lw_rflags w i) of (pc, lk, rf) \<Rightarrow>
        \<lparr>lw_lock = lk, lw_pc = (lw_pc w)(i := pc), lw_rflags = (lw_rflags w)(i := rf)\<rparr>)"

definition lock_run :: "lock_event list \<Rightarrow> lock_world \<Rightarrow> lock_world" where
  "lock_run es w = foldl lock_do w es"

definition free_lock :: "u64 \<Rightarrow> lock_world" where
  "free_lock flags = \<lparr>lw_lock = \<lparr>sl_flags = flags, sl_mut = False\<rparr>, lw_pc = \<lambda>_. Outside, lw_rflags = \<lambda>_. 0\<rparr>"

text \<open>A thread holds the lock from its successful test-and-set until it clears the flag.\<close>

definition holds_lock :: "lock_world \<Rightarrow> nat \<Rightarrow> bool" where
  "holds_lock w i \<longleftrightarrow> lw_pc w i \<in> {Save, Mask, Critical}"

subsection \<open>One thread\<close>

lemma acquire_free: "\<not> sl_mut lk \<Longrightarrow>
    acquire_spinlock lk rflags = ret (lk\<lparr>sl_mut := True, sl_flags := rflags\<rparr>, cli rflags)"
  by (simp add: acquire_spinlock_def acquire_alone.simps test_and_set_def)

lemma acquire_alone_held:
  assumes "acquire_alone pc lk rflags = Some r"
  shows "pc = Spin \<longrightarrow> \<not> sl_mut lk"
proof (rule acquire_alone.raw_induct [where P = "\<lambda>pc lk rflags r. pc = Spin \<longrightarrow> \<not> sl_mut lk", OF _ assms], intro impI notI)
  fix f pc and lk :: spinlock_t and rflags r
  assume IH: "\<And>pc lk rflags r. f pc lk rflags = Some r \<Longrightarrow> pc = Spin \<longrightarrow> \<not> sl_mut lk" and pc: "pc = Spin" and held: "sl_mut lk"
    and r: "(if pc = Critical then ret (lk, rflags) else case acquire_step pc lk rflags of (pc, lk, rflags) \<Rightarrow> f pc lk rflags) = Some r"
  from pc held r have "f Spin (lk\<lparr>sl_mut := True\<rparr>) rflags = Some r" by (simp add: test_and_set_def)
  from IH [OF this] show False by simp
qed

lemma acquire_held: "sl_mut lk \<Longrightarrow> acquire_spinlock lk rflags = None"
  using acquire_alone_held [of Spin lk rflags] by (cases "acquire_spinlock lk rflags") (auto simp: acquire_spinlock_def)

lemma release_spinlock_eq:
  "release_spinlock lk rflags = (lk\<lparr>sl_mut := False\<rparr>, if sl_flags lk AND 0x200 \<noteq> 0 then sti rflags else rflags)"
  by (simp add: release_spinlock_def)

lemma bit_IF: "bit IF_FLAG k \<longleftrightarrow> k = 9"
  using bit_exp_iff [where 'a = u64, of 9 k] by (auto simp: IF_FLAG_def)

lemma IF_bit: "x AND 0x200 \<noteq> 0 \<longleftrightarrow> bit (x :: u64) 9"
proof -
  have "x AND IF_FLAG = 0" if "\<not> bit x 9"
    using that by (intro bit_word_eqI) (auto simp: bit_and_iff bit_IF)
  moreover have "bit (x AND IF_FLAG) 9" if "bit x 9" using that by (simp add: bit_and_iff bit_IF)
  ultimately have "x AND IF_FLAG \<noteq> 0 \<longleftrightarrow> bit x 9" by fastforce
  then show ?thesis by (simp add: IF_FLAG_def)
qed

lemma sti_cli: "bit rflags 9 \<Longrightarrow> sti (cli rflags) = rflags"
  by (rule bit_word_eqI) (auto simp: sti_def cli_def bit_or_iff bit_and_iff bit_not_iff bit_IF)

lemma cli_off: "\<not> bit rflags 9 \<Longrightarrow> cli rflags = rflags"
  by (rule bit_word_eqI) (auto simp: cli_def bit_and_iff bit_not_iff bit_IF)

text \<open>A section between the two calls that changes neither the lock nor the flags register leaves the lock free and the
  interrupt flag as it was.\<close>

lemma acquire_release:
  assumes "acquire_spinlock lk rflags = ret (lk', rflags')" and "\<not> sl_mut lk"
  shows "release_spinlock lk' rflags' = (lk\<lparr>sl_flags := rflags\<rparr>, rflags)"
proof -
  have "lk\<lparr>sl_mut := False\<rparr> = lk" using assms(2) by simp
  then have "lk\<lparr>sl_flags := rflags, sl_mut := False\<rparr> = lk\<lparr>sl_flags := rflags\<rparr>" by (cases lk) simp
  then show ?thesis using assms sti_cli [of rflags] cli_off [of rflags]
    by (auto simp: acquire_free [OF assms(2)] release_spinlock_eq IF_bit)
qed

lemma cli_masks: "\<not> bit (cli rflags) 9"
  by (simp add: cli_def bit_and_iff bit_not_iff bit_IF)

subsection \<open>Interleaved threads\<close>

text \<open>What a holder finds in the lock: its own flags once it has stored them, and interrupts masked after its \<^verbatim>\<open>cli\<close>.\<close>

definition own_flags :: "lock_world \<Rightarrow> nat \<Rightarrow> bool" where
  "own_flags w i \<longleftrightarrow> (lw_pc w i = Mask \<longrightarrow> lw_rflags w i = sl_flags (lw_lock w)) \<and>
     (lw_pc w i = Critical \<longrightarrow> lw_rflags w i = cli (sl_flags (lw_lock w)))"

definition lock_inv :: "lock_world \<Rightarrow> bool" where
  "lock_inv w \<longleftrightarrow> (sl_mut (lw_lock w) \<longleftrightarrow> (\<exists>i. holds_lock w i)) \<and> (\<forall>i j. holds_lock w i \<longrightarrow> holds_lock w j \<longrightarrow> i = j) \<and>
     (\<forall>i. own_flags w i)"

lemmas lock_inv_simps = lock_inv_def holds_lock_def own_flags_def thread_step_def test_and_set_def

lemma lock_inv_take:
  assumes "lock_inv w" and "\<not> sl_mut (lw_lock w)" and "lw_pc w i = Spin"
  shows "lock_inv (lock_do w (Step i))"
proof -
  have "\<not> holds_lock w j" for j using assms by (auto simp: lock_inv_def)
  with assms show ?thesis by (auto simp: lock_inv_simps)
qed

lemma lock_inv_spin:
  assumes "lock_inv w" and "sl_mut (lw_lock w)" and "lw_pc w i = Spin"
  shows "lock_inv (lock_do w (Step i))"
proof -
  have "lock_do w (Step i) = w" using assms(2,3)
    by (cases w; cases "lw_lock w") (auto simp: thread_step_def test_and_set_def)
  with assms(1) show ?thesis by simp
qed

lemma lock_inv_hold:
  assumes "lock_inv w" and "holds_lock w i"
  shows "lock_inv (lock_do w (Step i))"
proof -
  have others: "\<not> holds_lock w j" if "j \<noteq> i" for j using assms that by (auto simp: lock_inv_def)
  have held: "sl_mut (lw_lock w)" using assms by (auto simp: lock_inv_def)
  from assms(2) have "lw_pc w i = Save \<or> lw_pc w i = Mask \<or> lw_pc w i = Critical" by (simp add: holds_lock_def)
  then show ?thesis
  proof (elim disjE)
    assume "lw_pc w i = Save"
    with others held show ?thesis by (auto simp: lock_inv_simps)
  next
    assume pc: "lw_pc w i = Mask"
    moreover have "lw_rflags w i = sl_flags (lw_lock w)" using assms(1) pc by (simp add: lock_inv_def own_flags_def)
    ultimately show ?thesis using others held by (auto simp: lock_inv_simps)
  next
    assume "lw_pc w i = Critical"
    with others show ?thesis by (auto simp: lock_inv_simps)
  qed
qed

lemma lock_inv_other:
  assumes "lock_inv w" and "\<not> holds_lock w i" and "pc \<notin> {Save, Mask, Critical}"
  shows "lock_inv \<lparr>lw_lock = lw_lock w, lw_pc = (lw_pc w)(i := pc), lw_rflags = (lw_rflags w)(i := rf)\<rparr>" (is "lock_inv ?w")
proof -
  have "holds_lock ?w j = holds_lock w j" for j using assms(2,3) by (simp add: holds_lock_def)
  moreover have "own_flags ?w j" for j using assms by (auto simp: lock_inv_def own_flags_def)
  ultimately show ?thesis using assms(1) by (simp add: lock_inv_def)
qed

lemma lock_inv_event:
  assumes "lock_inv w"
  shows "lock_inv (lock_do w e)"
proof (cases e)
  case (Call i rf)
  with assms Call show ?thesis using lock_inv_other [OF assms, of i Spin rf] by (auto simp: holds_lock_def)
next
  case (Step i)
  show ?thesis
  proof (cases "lw_pc w i")
    case Spin
    with assms Step show ?thesis using lock_inv_take lock_inv_spin by blast
  next
    case Outside
    with Step show ?thesis using lock_inv_other [OF assms, of i Outside "lw_rflags w i"] by (simp add: holds_lock_def thread_step_def)
  next
    case Restore
    with Step show ?thesis using lock_inv_other [OF assms, of i Outside] by (simp add: holds_lock_def thread_step_def)
  qed (use Step lock_inv_hold [OF assms, of i] in \<open>simp_all add: holds_lock_def\<close>)
qed

lemma lock_inv_run: "lock_inv w \<Longrightarrow> lock_inv (lock_run es w)"
  unfolding lock_run_def by (induction es arbitrary: w) (simp_all add: lock_inv_event)

lemma lock_inv_free: "lock_inv (free_lock flags)"
  by (simp add: free_lock_def lock_inv_simps)

text \<open>Progress: when no thread holds the lock, the next step of any spinning thread takes it.\<close>

lemma lock_run_progress:
  assumes "\<forall>i. \<not> holds_lock (lock_run es (free_lock flags)) i" and "lw_pc (lock_run es (free_lock flags)) i = Spin"
  shows "holds_lock (lock_run (es @ [Step i]) (free_lock flags)) i"
  using assms lock_inv_run [OF lock_inv_free, of es flags]
  by (simp add: lock_run_def lock_inv_def) (simp add: holds_lock_def thread_step_def test_and_set_def)

subsection \<open>Properties\<close>



text \<open>C36: the flags a thread restores may be another thread's. \<^verbatim>\<open>release_spinlock\<close> reads \<^verbatim>\<open>lock->flags\<close> after it has
  cleared the flag, so on two processors a thread that takes the lock in between overwrites them: a thread that came
  with interrupts masked leaves with interrupts enabled, and one that came with interrupts enabled leaves with
  interrupts masked.\<close>

theorem spinlock_flags_race:
  "\<exists>ks. let w = lock_run (Call 0 rf # Call 1 rf' # map Step ks) (free_lock flags) in
     lw_pc w 0 = Outside \<and> lw_rflags w 0 = (if bit rf' 9 then sti (cli rf) else cli rf)"
  by (rule exI [of _ "[0, 0, 0, 0, 1, 1, 0]"])
    (simp add: lock_run_def free_lock_def thread_step_def test_and_set_def IF_bit)

end
