(* ===== verification/Heap.thy ===== *)
theory Heap
  imports Paging Concurrency
begin

section \<open>The kernel and user heaps (\<^verbatim>\<open>src/src/memory/heap.c\<close>)\<close>

text \<open>
  A heap is a doubly linked list of segments that grows downwards from its main segment: \<^verbatim>\<open>next\<close>
  leads to lower addresses and \<^verbatim>\<open>lastSegment\<close> is the lowest one, at \<^verbatim>\<open>heapEnd\<close>. Segment headers are a
  store from addresses to records; the bytes of the blocks are a separate memory, which
  \<^verbatim>\<open>memset\<close> and \<^verbatim>\<open>memcpy\<close> change. Growing the heap takes frames and maps pages, so the paging state is
  part of the world. \<^verbatim>\<open>sizeof(struct heap_segment_header)\<close> is 48.
\<close>

subsection \<open>State\<close>

record heap_segment_header =
  seg_free :: u8
  seg_length :: u64
  seg_next :: u64
  seg_last :: u64
  seg_isStack :: u8
  seg_signature :: u32

record heap =
  heapEnd :: u64
  lastStack :: u64
  lastSegment :: u64
  mainSegment :: u64
  totalSize :: u64
  usedSize :: u64
  freeSize :: u64
  isKernel :: u8
  ready :: u8
  heap_lock :: spinlock_t
  stack_lock :: spinlock_t

record kmem =
  segs :: "u64 \<rightharpoonup> heap_segment_header"
  bytes :: "u64 \<Rightarrow> u8"
  vm :: paging
  rflags :: u64

definition HEAP_SIGNATURE :: u32 where
  "HEAP_SIGNATURE = 0xcafebabe"

definition HEADER :: u64 where
  "HEADER = 48"

definition zero_header :: heap_segment_header where
  "zero_header = \<lparr>seg_free = 0, seg_length = 0, seg_next = 0, seg_last = 0, seg_isStack = 0, seg_signature = 0\<rparr>"

definition mem_set :: "u64 \<Rightarrow> u8 \<Rightarrow> u64 \<Rightarrow> (u64 \<Rightarrow> u8) \<Rightarrow> u64 \<Rightarrow> u8" where
  "mem_set p v n m = (\<lambda>i. if i - p < n then v else m i)"

definition mem_copy :: "u64 \<Rightarrow> u64 \<Rightarrow> u64 \<Rightarrow> (u64 \<Rightarrow> u8) \<Rightarrow> u64 \<Rightarrow> u8" where
  "mem_copy dst src n m = (\<lambda>i. if i - dst < n then m (src + (i - dst)) else m i)"

subsection \<open>Growing a heap\<close>

definition heap_perms :: "heap \<Rightarrow> u8" where
  "heap_perms h = (if isKernel h = 0 then 1 OR 2 else 1)"

text \<open>The loop of \<^verbatim>\<open>expand_heap\<close>: one page lower per round, mapped in the current tables and in the heap's.\<close>

definition expand_page :: "u64 \<Rightarrow> u8 \<Rightarrow> u64 \<Rightarrow> u64 \<times> paging \<Rightarrow> (u64 \<times> paging) res" where
  "expand_page pml4 perms i st = (case st of (end, v) \<Rightarrow>
     bind_res (request_page (pmm v)) (\<lambda>(f, new_page).
       let end = end - PAGESIZE; pd = get_pml4 v in
       bind_res (map_current_memory end new_page perms (v\<lparr>pmm := f\<rparr>)) (\<lambda>v.
       bind_res (if pd \<noteq> pml4 then map_memory pml4 end new_page perms v else ret v) (\<lambda>v.
         if end = 0 then panic ''Failed to expand heap'' else ret (end, v)))))"

definition expand_length :: "u64 \<Rightarrow> u64" where
  "expand_length len =
     (let len = len + HEADER in
      if len mod PAGESIZE \<noteq> 0 then len - len mod PAGESIZE + PAGESIZE else len)"

definition expand_heap :: "u64 \<Rightarrow> u64 \<Rightarrow> heap \<Rightarrow> kmem \<Rightarrow> (heap \<times> kmem) res" where
  "expand_heap pml4 sz h w =
     (let len = expand_length sz;
          pages = (if len mod PAGESIZE \<noteq> 0 then len div PAGESIZE + 1 else len div PAGESIZE)
      in bind_res (for_u64 pages (expand_page pml4 (heap_perms h)) (heapEnd h, vm w)) (\<lambda>(end, v).
        let new = end; h = h\<lparr>heapEnd := end\<rparr>; w = w\<lparr>vm := v\<rparr>; lst = lastSegment h in
        bind_res (if lst \<noteq> 0 then bind_res (deref (segs w) lst) (\<lambda>s. ret (seg_free s \<noteq> 0 \<and> seg_last s \<noteq> 0)) else ret False) (\<lambda>merge.
        bind_res
          (if merge then
             bind_res (deref (segs w) lst) (\<lambda>s.
               let sz = seg_length s + len;
                   n = \<lparr>seg_free = 1, seg_length = sz - HEADER, seg_next = 0, seg_last = seg_last s,
                        seg_isStack = 0, seg_signature = HEAP_SIGNATURE\<rparr>
               in modify (seg_last s) (\<lambda>x. x\<lparr>seg_next := new\<rparr>) ((segs w)(new \<mapsto> n)))
           else
             let n = \<lparr>seg_free = 1, seg_length = len - HEADER, seg_next = 0, seg_last = lst,
                      seg_isStack = 0, seg_signature = HEAP_SIGNATURE\<rparr>
             in if lst \<noteq> 0 then modify lst (\<lambda>x. x\<lparr>seg_next := new\<rparr>) ((segs w)(new \<mapsto> n))
                else ret ((segs w)(new \<mapsto> n)))
          (\<lambda>S. ret (h\<lparr>lastSegment := new, totalSize := totalSize h + (len + HEADER),
                       freeSize := freeSize h + (len + HEADER)\<rparr>, w\<lparr>segs := S\<rparr>)))))"

subsection \<open>Allocation\<close>

definition splitSegment :: "u64 \<Rightarrow> u64 \<Rightarrow> heap \<Rightarrow> kmem \<Rightarrow> (heap \<times> kmem \<times> u64) res" where
  "splitSegment segment sz h w =
     bind_res (deref (segs w) segment) (\<lambda>s.
       if seg_length s \<le> sz + HEADER then ret (h, w, 0)
       else if seg_signature s \<noteq> HEAP_SIGNATURE then panic ''Invalid heap segment signature split''
       else
         let new = segment + seg_length s - sz;
             n = zero_header\<lparr>seg_free := 1, seg_length := sz, seg_isStack := 0, seg_next := segment,
                   seg_signature := HEAP_SIGNATURE, seg_last := seg_last s\<rparr>;
             S = (segs w)(new \<mapsto> n);
             h = (if seg_next s = 0 then h\<lparr>lastSegment := segment\<rparr> else h)
         in bind_res (if seg_last s \<noteq> 0 then modify (seg_last s) (\<lambda>x. x\<lparr>seg_next := new\<rparr>) S else ret S) (\<lambda>S.
            bind_res (modify segment (\<lambda>x. x\<lparr>seg_last := new, seg_length := seg_length x - (sz + HEADER)\<rparr>) S) (\<lambda>S.
              ret (h, w\<lparr>segs := S\<rparr>, new))))"

text \<open>The search loop of \<^verbatim>\<open>_malloc\<close>: a free segment that can be split or fits exactly, if there is one.\<close>

partial_function (option) find_segment :: "(u64 \<rightharpoonup> heap_segment_header) \<Rightarrow> u64 \<Rightarrow> u64 \<Rightarrow> u64 option res" where
  "find_segment S sz cur =
     bind_res (deref S cur) (\<lambda>s.
       if seg_signature s \<noteq> HEAP_SIGNATURE then panic ''Invalid heap segment signature malloc''
       else if seg_free s \<noteq> 0 \<and> (seg_length s > sz + HEADER \<or> seg_length s = sz) then ret (Some cur)
       else if seg_next s = 0 then ret None
       else if seg_next s = cur then panic ''Current segment cycle''
       else find_segment S sz (seg_next s))"

text \<open>What \<^verbatim>\<open>_malloc\<close> does with the segment it found.\<close>

definition mark_used :: "u64 \<Rightarrow> heap \<Rightarrow> kmem \<Rightarrow> (heap \<times> kmem \<times> u64) res" where
  "mark_used cur h w =
     bind_res (modify cur (\<lambda>x. x\<lparr>seg_free := 0\<rparr>) (segs w)) (\<lambda>S.
     bind_res (deref S cur) (\<lambda>s.
       ret (h\<lparr>usedSize := usedSize h + (seg_length s + HEADER),
              freeSize := freeSize h - (seg_length s + HEADER)\<rparr>, w\<lparr>segs := S\<rparr>, cur + HEADER)))"

definition take_segment :: "u64 \<Rightarrow> u64 \<Rightarrow> heap \<Rightarrow> kmem \<Rightarrow> (heap \<times> kmem \<times> u64) res" where
  "take_segment cur sz h w =
     bind_res (deref (segs w) cur) (\<lambda>s.
       if seg_length s > sz + HEADER
       then bind_res (splitSegment cur sz h w) (\<lambda>(h, w, new). mark_used new h w)
       else mark_used cur h w)"

definition align16 :: "u64 \<Rightarrow> u64" where
  "align16 sz = (if sz mod 0x10 > 0 then sz - sz mod 0x10 + 0x10 else sz)"

partial_function (option) heap_malloc :: "u64 \<Rightarrow> u64 \<Rightarrow> heap \<Rightarrow> kmem \<Rightarrow> (heap \<times> kmem \<times> u64) res" where
  "heap_malloc pml4 sz h w =
     (if ready h = 0 then ret (h, w, 0)
      else if sz = 0 then ret (h, w, 0)
      else bind_res (find_segment (segs w) (align16 sz) (mainSegment h)) (\<lambda>r.
        case r of
          Some cur \<Rightarrow> take_segment cur (align16 sz) h w
        | None \<Rightarrow> bind_res (expand_heap pml4 (align16 sz) h w) (\<lambda>hw. case hw of (h, w) \<Rightarrow>
            heap_malloc pml4 (align16 sz) h w)))"

definition heap_calloc :: "u64 \<Rightarrow> u64 \<Rightarrow> u64 \<Rightarrow> heap \<Rightarrow> kmem \<Rightarrow> (heap \<times> kmem \<times> u64) res" where
  "heap_calloc pml4 num sz h w =
     (if ready h = 0 then ret (h, w, 0)
      else bind_res (heap_malloc pml4 (num * sz) h w) (\<lambda>(h, w, ptr).
        ret (h, w\<lparr>bytes := mem_set ptr 0 (num * sz) (bytes w)\<rparr>, ptr)))"

subsection \<open>Release\<close>

definition MergeThisToNext :: "u64 \<Rightarrow> (u64 \<rightharpoonup> heap_segment_header) \<Rightarrow> (u64 \<rightharpoonup> heap_segment_header) res" where
  "MergeThisToNext header S =
     bind_res (deref S header) (\<lambda>x. let next = seg_next x in
     bind_res (modify next (\<lambda>n. n\<lparr>seg_length := seg_length n + (seg_length x + HEADER), seg_last := seg_last x\<rparr>) S) (\<lambda>S.
     bind_res (modify (seg_last x) (\<lambda>l. l\<lparr>seg_next := next\<rparr>) S) (\<lambda>S.
       ret (S(header \<mapsto> zero_header)))))"

definition MergeLastToThis :: "u64 \<Rightarrow> (u64 \<rightharpoonup> heap_segment_header) \<Rightarrow> (u64 \<rightharpoonup> heap_segment_header) res" where
  "MergeLastToThis header S =
     bind_res (deref S header) (\<lambda>x. let last = seg_last x in
     bind_res (deref S last) (\<lambda>l.
     bind_res (modify header (\<lambda>x. x\<lparr>seg_length := seg_length x + (seg_length l + HEADER), seg_last := seg_last l\<rparr>) S) (\<lambda>S.
     bind_res (modify (seg_last l) (\<lambda>y. y\<lparr>seg_next := header\<rparr>) S) (\<lambda>S.
       ret (S(last \<mapsto> zero_header))))))"

definition MergeLastAndThisToNext :: "u64 \<Rightarrow> (u64 \<rightharpoonup> heap_segment_header) \<Rightarrow> (u64 \<rightharpoonup> heap_segment_header) res" where
  "MergeLastAndThisToNext header S =
     bind_res (MergeLastToThis header S) (MergeThisToNext header)"

text \<open>\<^verbatim>\<open>header->x != 0 && header->x->free\<close>\<close>

definition neighbour_free :: "u64 \<Rightarrow> (u64 \<rightharpoonup> heap_segment_header) \<Rightarrow> bool res" where
  "neighbour_free p S = (if p \<noteq> 0 then bind_res (deref S p) (\<lambda>x. ret (seg_free x \<noteq> 0)) else ret False)"

text \<open>The merging that \<^verbatim>\<open>_free\<close> does for a segment that has just become free.\<close>

definition merge_free :: "u64 \<Rightarrow> heap_segment_header \<Rightarrow> (u64 \<rightharpoonup> heap_segment_header) \<Rightarrow> (u64 \<rightharpoonup> heap_segment_header) res" where
  "merge_free header x S =
     bind_res (neighbour_free (seg_next x) S) (\<lambda>nf.
     bind_res (neighbour_free (seg_last x) S) (\<lambda>lf.
       if nf \<and> lf then MergeLastAndThisToNext header S
       else if lf then MergeLastToThis header S
       else if nf then MergeThisToNext header S
       else ret S))"

definition heap_free :: "u64 \<Rightarrow> heap \<Rightarrow> kmem \<Rightarrow> (heap \<times> kmem) res" where
  "heap_free address h w =
     (if ready h = 0 then ret (h, w)
      else if address = 0 then ret (h, w)
      else let header = address - HEADER in
        bind_res (deref (segs w) header) (\<lambda>x.
          if seg_signature x \<noteq> HEAP_SIGNATURE then panic ''Invalid free, signature''
          else if seg_free x \<noteq> 0 then panic ''Invalid free, double free''
          else let S = (segs w)(header \<mapsto> x\<lparr>seg_free := 1\<rparr>);
                   h = h\<lparr>freeSize := freeSize h + (seg_length x + HEADER),
                          usedSize := usedSize h - (seg_length x + HEADER)\<rparr>
          in bind_res (merge_free header x S) (\<lambda>S. ret (h, w\<lparr>segs := S\<rparr>))))"

definition heap_realloc :: "u64 \<Rightarrow> u64 \<Rightarrow> u64 \<Rightarrow> heap \<Rightarrow> kmem \<Rightarrow> (heap \<times> kmem \<times> u64) res" where
  "heap_realloc pml4 buffer sz h w =
     (if ready h = 0 then ret (h, w, 0)
      else bind_res (heap_malloc pml4 sz h w) (\<lambda>(h, w, newBuffer).
        if newBuffer = 0 then ret (h, w, 0)
        else if buffer = 0 then ret (h, w, newBuffer)
        else bind_res (deref (segs w) (buffer - HEADER)) (\<lambda>x.
          let oldSize = (if sz < seg_length x then sz else seg_length x) in
          bind_res (heap_free buffer h (w\<lparr>bytes := mem_copy newBuffer buffer oldSize (bytes w)\<rparr>)) (\<lambda>(h, w).
            ret (h, w, newBuffer)))))"

subsection \<open>Stacks\<close>

definition stack_page :: "u64 \<Rightarrow> u8 \<Rightarrow> u64 \<Rightarrow> u64 \<times> paging \<Rightarrow> (u64 \<times> paging) res" where
  "stack_page pml4 perms i st = (case st of (stk, v) \<Rightarrow>
     let pd = get_pml4 v in
     bind_res (request_current_page_at (stk - PAGESIZE) perms v) (\<lambda>(v, stk).
       if stk = 0 then panic ''Out of memory''
       else bind_res (if pd \<noteq> pml4 then map_memory pml4 stk (virtual_to_physical pd stk v) perms v else ret v) (\<lambda>v.
         ret (stk, v))))"

definition heap_stackalloc :: "u64 \<Rightarrow> u64 \<Rightarrow> heap \<Rightarrow> kmem \<Rightarrow> (heap \<times> kmem \<times> u64) res" where
  "heap_stackalloc pml4 len h w =
     (let pages = (if len mod PAGESIZE \<noteq> 0 then len div PAGESIZE + 1 else len div PAGESIZE) in
      bind_res (for_u64 pages (stack_page pml4 (heap_perms h)) (lastStack h, vm w)) (\<lambda>(stk, v).
        ret (h\<lparr>lastStack := stk - PAGESIZE\<rparr>, w\<lparr>vm := v\<rparr>, stk)))"

subsection \<open>Start-up\<close>

definition initHeap :: "u64 \<Rightarrow> u64 \<Rightarrow> u64 \<Rightarrow> u8 \<Rightarrow> heap \<Rightarrow> kmem \<Rightarrow> (heap \<times> kmem) res" where
  "initHeap pml4 heap_end stack_end user h w =
     (let perms = (if user \<noteq> 0 then 1 OR 2 else 1);
          end = heap_end - PAGESIZE; stack = stack_end - PAGESIZE in
      bind_res (request_current_page_at end perms (vm w)) (\<lambda>(v, _).
      bind_res (request_current_page_at stack perms v) (\<lambda>(v, _).
        let pd = get_pml4 v in
        bind_res (if pd \<noteq> pml4
                  then bind_res (map_memory pml4 end (virtual_to_physical pd end v) perms v) (\<lambda>v.
                       map_memory pml4 stack (virtual_to_physical pd stack v) perms v)
                  else ret v) (\<lambda>v.
          let main = end + (PAGESIZE - HEADER);
              next = main - PAGESIZE + HEADER;
              m = \<lparr>seg_free = 0, seg_length = 0, seg_next = next, seg_last = 0, seg_isStack = 0,
                   seg_signature = HEAP_SIGNATURE\<rparr>;
              n = \<lparr>seg_free = 1, seg_length = PAGESIZE - HEADER - HEADER, seg_next = 0, seg_last = main,
                   seg_isStack = 0, seg_signature = HEAP_SIGNATURE\<rparr>
          in ret (h\<lparr>heapEnd := end, lastStack := stack, mainSegment := main, lastSegment := next,
                    totalSize := totalSize h + PAGESIZE, freeSize := freeSize h + PAGESIZE,
                    isKernel := (if user = 0 then 1 else 0),
                    heap_lock := \<lparr>sl_flags = 0, sl_mut = False\<rparr>,
                    stack_lock := \<lparr>sl_flags = 0, sl_mut = False\<rparr>, ready := 1\<rparr>,
                  w\<lparr>vm := v, segs := (segs w)(main \<mapsto> m, next \<mapsto> n)\<rparr>)))))"

record kernel_heaps =
  kernelGlobalHeap :: heap
  kernelSleepHeap :: heap
  kernelSignalHeap :: heap

definition init_heap :: "kernel_heaps \<Rightarrow> kmem \<Rightarrow> (kernel_heaps \<times> kmem) res" where
  "init_heap k w =
     bind_res (initHeap (get_pml4 (vm w)) 0xffffffff6ffff000 0xffffffff7ffff000 0 (kernelGlobalHeap k) w) (\<lambda>(g, w).
     bind_res (initHeap (get_pml4 (vm w)) 0xffffffff8ffff000 0xffffffff9ffff000 0 (kernelSleepHeap k) w) (\<lambda>(s, w).
     bind_res (initHeap (get_pml4 (vm w)) 0xffffffffaffff000 0xffffffffbffff000 0 (kernelSignalHeap k) w) (\<lambda>(q, w).
       ret (\<lparr>kernelGlobalHeap = g, kernelSleepHeap = s, kernelSignalHeap = q\<rparr>, w))))"

definition create_user_heap :: "u64 \<Rightarrow> heap \<Rightarrow> kmem \<Rightarrow> (heap \<times> kmem) res" where
  "create_user_heap task_pd h w =
     initHeap (TO_KERNEL_MAP task_pd) 0x00007fff6ffff000 0x00007fff7ffff000 1 h w"

subsection \<open>The locked entry points\<close>

text \<open>
  Every entry point runs one of the operations between acquiring and releasing the lock of its heap:
  the kernel heap, the heap for sleeping tasks, the heap for signals, or the heap of a task.
\<close>

definition heap_locked :: "(heap \<Rightarrow> kmem \<Rightarrow> (heap \<times> kmem \<times> 'a) res) \<Rightarrow> heap \<Rightarrow> kmem \<Rightarrow> (heap \<times> kmem \<times> 'a) res" where
  "heap_locked body h w =
     bind_res (acquire_spinlock (heap_lock h) (rflags w)) (\<lambda>(lk, rf).
     bind_res (body (h\<lparr>heap_lock := lk\<rparr>) (w\<lparr>rflags := rf\<rparr>)) (\<lambda>(h, w, x).
       let (lk, rf) = release_spinlock (heap_lock h) (rflags w) in
       ret (h\<lparr>heap_lock := lk\<rparr>, w\<lparr>rflags := rf\<rparr>, x)))"

definition stack_locked :: "(heap \<Rightarrow> kmem \<Rightarrow> (heap \<times> kmem \<times> 'a) res) \<Rightarrow> heap \<Rightarrow> kmem \<Rightarrow> (heap \<times> kmem \<times> 'a) res" where
  "stack_locked body h w =
     bind_res (acquire_spinlock (stack_lock h) (rflags w)) (\<lambda>(lk, rf).
     bind_res (body (h\<lparr>stack_lock := lk\<rparr>) (w\<lparr>rflags := rf\<rparr>)) (\<lambda>(h, w, x).
       let (lk, rf) = release_spinlock (stack_lock h) (rflags w) in
       ret (h\<lparr>stack_lock := lk\<rparr>, w\<lparr>rflags := rf\<rparr>, x)))"

definition free_op :: "u64 \<Rightarrow> heap \<Rightarrow> kmem \<Rightarrow> (heap \<times> kmem \<times> unit) res" where
  "free_op address h w = bind_res (heap_free address h w) (\<lambda>(h, w). ret (h, w, ()))"

definition on_global :: "(heap \<Rightarrow> kmem \<Rightarrow> (heap \<times> kmem \<times> 'a) res) \<Rightarrow> kernel_heaps \<Rightarrow> kmem \<Rightarrow> (kernel_heaps \<times> kmem \<times> 'a) res" where
  "on_global body k w = bind_res (body (kernelGlobalHeap k) w) (\<lambda>(h, w, x). ret (k\<lparr>kernelGlobalHeap := h\<rparr>, w, x))"

definition on_sleep :: "(heap \<Rightarrow> kmem \<Rightarrow> (heap \<times> kmem \<times> 'a) res) \<Rightarrow> kernel_heaps \<Rightarrow> kmem \<Rightarrow> (kernel_heaps \<times> kmem \<times> 'a) res" where
  "on_sleep body k w = bind_res (body (kernelSleepHeap k) w) (\<lambda>(h, w, x). ret (k\<lparr>kernelSleepHeap := h\<rparr>, w, x))"

definition on_signal :: "(heap \<Rightarrow> kmem \<Rightarrow> (heap \<times> kmem \<times> 'a) res) \<Rightarrow> kernel_heaps \<Rightarrow> kmem \<Rightarrow> (kernel_heaps \<times> kmem \<times> 'a) res" where
  "on_signal body k w = bind_res (body (kernelSignalHeap k) w) (\<lambda>(h, w, x). ret (k\<lparr>kernelSignalHeap := h\<rparr>, w, x))"

definition kmalloc :: "u64 \<Rightarrow> kernel_heaps \<Rightarrow> kmem \<Rightarrow> (kernel_heaps \<times> kmem \<times> u64) res" where
  "kmalloc sz = on_global (heap_locked (\<lambda>h w. heap_malloc (get_pml4 (vm w)) sz h w))"

definition kfree :: "u64 \<Rightarrow> kernel_heaps \<Rightarrow> kmem \<Rightarrow> (kernel_heaps \<times> kmem \<times> unit) res" where
  "kfree address = on_global (heap_locked (free_op address))"

definition kcalloc :: "u64 \<Rightarrow> u64 \<Rightarrow> kernel_heaps \<Rightarrow> kmem \<Rightarrow> (kernel_heaps \<times> kmem \<times> u64) res" where
  "kcalloc num sz = on_global (heap_locked (\<lambda>h w. heap_calloc (get_pml4 (vm w)) num sz h w))"

definition krealloc :: "u64 \<Rightarrow> u64 \<Rightarrow> kernel_heaps \<Rightarrow> kmem \<Rightarrow> (kernel_heaps \<times> kmem \<times> u64) res" where
  "krealloc buffer sz = on_global (heap_locked (\<lambda>h w. heap_realloc (get_pml4 (vm w)) buffer sz h w))"

definition kstackalloc :: "u64 \<Rightarrow> kernel_heaps \<Rightarrow> kmem \<Rightarrow> (kernel_heaps \<times> kmem \<times> u64) res" where
  "kstackalloc len = on_global (stack_locked (\<lambda>h w. heap_stackalloc (get_pml4 (vm w)) len h w))"

definition smalloc :: "u64 \<Rightarrow> kernel_heaps \<Rightarrow> kmem \<Rightarrow> (kernel_heaps \<times> kmem \<times> u64) res" where
  "smalloc sz = on_sleep (heap_locked (\<lambda>h w. heap_malloc (get_pml4 (vm w)) sz h w))"

definition sfree :: "u64 \<Rightarrow> kernel_heaps \<Rightarrow> kmem \<Rightarrow> (kernel_heaps \<times> kmem \<times> unit) res" where
  "sfree address = on_sleep (heap_locked (free_op address))"

definition sigmalloc :: "u64 \<Rightarrow> kernel_heaps \<Rightarrow> kmem \<Rightarrow> (kernel_heaps \<times> kmem \<times> u64) res" where
  "sigmalloc sz = on_signal (heap_locked (\<lambda>h w. heap_malloc (get_pml4 (vm w)) sz h w))"

definition sigfree :: "u64 \<Rightarrow> kernel_heaps \<Rightarrow> kmem \<Rightarrow> (kernel_heaps \<times> kmem \<times> unit) res" where
  "sigfree address = on_signal (heap_locked (free_op address))"

definition umalloc :: "u64 \<Rightarrow> u64 \<Rightarrow> heap \<Rightarrow> kmem \<Rightarrow> (heap \<times> kmem \<times> u64) res" where
  "umalloc task_pd sz = heap_locked (heap_malloc (TO_KERNEL_MAP task_pd) sz)"

definition ufree :: "u64 \<Rightarrow> heap \<Rightarrow> kmem \<Rightarrow> (heap \<times> kmem \<times> unit) res" where
  "ufree address = heap_locked (free_op address)"

definition ucalloc :: "u64 \<Rightarrow> u64 \<Rightarrow> u64 \<Rightarrow> heap \<Rightarrow> kmem \<Rightarrow> (heap \<times> kmem \<times> u64) res" where
  "ucalloc task_pd num sz = heap_locked (heap_calloc (TO_KERNEL_MAP task_pd) num sz)"

definition urealloc :: "u64 \<Rightarrow> u64 \<Rightarrow> u64 \<Rightarrow> heap \<Rightarrow> kmem \<Rightarrow> (heap \<times> kmem \<times> u64) res" where
  "urealloc task_pd buffer sz = heap_locked (heap_realloc (TO_KERNEL_MAP task_pd) buffer sz)"

definition ustackalloc :: "u64 \<Rightarrow> u64 \<Rightarrow> heap \<Rightarrow> kmem \<Rightarrow> (heap \<times> kmem \<times> u64) res" where
  "ustackalloc task_pd len = stack_locked (heap_stackalloc (TO_KERNEL_MAP task_pd) len)"

subsection \<open>The segment list\<close>

text \<open>
  A layout lists the segments from the top of the heap down as triples of address, free flag and
  length. \<open>seg_path S pr p L pr' q\<close>: from the pointer \<open>p\<close>, whose predecessor is \<open>pr\<close>, the store \<open>S\<close>
  links exactly the segments \<open>L\<close>, both ways, and ends with predecessor \<open>pr'\<close> and pointer \<open>q\<close>.
  \<open>fits top L\<close>: the segments with their headers lie below \<open>top\<close> without overlap, 16-byte aligned.
\<close>

type_synonym layout = "(u64 \<times> u8 \<times> u64) list"

fun seg_path :: "(u64 \<rightharpoonup> heap_segment_header) \<Rightarrow> u64 \<Rightarrow> u64 \<Rightarrow> layout \<Rightarrow> u64 \<Rightarrow> u64 \<Rightarrow> bool" where
  "seg_path S pr p [] pr' q \<longleftrightarrow> pr = pr' \<and> p = q"
| "seg_path S pr p ((a, f, l) # L) pr' q \<longleftrightarrow> p = a \<and> a \<noteq> 0 \<and>
     (\<exists>n. S a = Some n \<and> seg_free n = f \<and> seg_length n = l \<and> seg_last n = pr \<and>
       seg_signature n = HEAP_SIGNATURE \<and> seg_path S a (seg_next n) L pr' q)"

fun fits :: "nat \<Rightarrow> layout \<Rightarrow> bool" where
  "fits limit [] \<longleftrightarrow> True"
| "fits limit ((a, f, l) # L) \<longleftrightarrow> unat a + 48 + unat l \<le> limit \<and> unat a mod 16 = 0 \<and> unat l mod 16 = 0 \<and>
     fits (unat a) L"

abbreviation addrs :: "layout \<Rightarrow> u64 set" where
  "addrs L \<equiv> fst ` set L"

lemma seg_path_append:
  "seg_path S pr p (K @ L) pr' q \<longleftrightarrow> (\<exists>r t. seg_path S pr p K r t \<and> seg_path S r t L pr' q)"
proof (induction K arbitrary: pr p)
  case (Cons x K)
  then show ?case by (cases x) auto
qed simp

lemma seg_path_cong:
  assumes "\<And>a. a \<in> addrs L \<Longrightarrow> S' a = S a"
  shows "seg_path S' pr p L pr' q = seg_path S pr p L pr' q"
  using assms
proof (induction L arbitrary: pr p)
  case (Cons x L)
  then show ?case by (cases x) auto
qed simp

lemma seg_path_upd [simp]:
  "a \<notin> addrs L \<Longrightarrow> seg_path (S(a := v)) pr p L pr' q = seg_path S pr p L pr' q"
  by (rule seg_path_cong) auto

lemma seg_path_dom: "seg_path S pr p L pr' q \<Longrightarrow> (a, f, l) \<in> set L \<Longrightarrow>
    a \<noteq> 0 \<and> (\<exists>n. S a = Some n \<and> seg_free n = f \<and> seg_length n = l \<and> seg_signature n = HEAP_SIGNATURE)"
proof (induction L arbitrary: pr p)
  case (Cons x L)
  then show ?case by (cases x) auto
qed simp

lemma fits_append: "fits limit (K @ L) \<longleftrightarrow> fits limit K \<and> fits (if K = [] then limit else unat (fst (last K))) L"
proof (induction K arbitrary: limit)
  case (Cons x K)
  then show ?case by (cases x) auto
qed simp

lemma fits_mono: "fits limit L \<Longrightarrow> limit \<le> limit' \<Longrightarrow> fits limit' L"
  by (cases L) auto

lemma fits_below: "fits limit L \<Longrightarrow> (a, f, l) \<in> set L \<Longrightarrow> unat a + 48 + unat l \<le> limit"
proof (induction L arbitrary: limit)
  case (Cons x L)
  obtain b g m where x: "x = (b, g, m)" by (cases x)
  show ?case
  proof (cases "(a, f, l) = x")
    case False
    with Cons x have "unat a + 48 + unat l \<le> unat b" by auto
    with Cons.prems x show ?thesis by auto
  qed (use Cons x in auto)
qed simp

lemma fits_distinct: "fits limit L \<Longrightarrow> distinct (map fst L)"
proof (induction L arbitrary: limit)
  case (Cons x L)
  obtain b g m where x: "x = (b, g, m)" by (cases x)
  with Cons.prems have "fits (unat b) L" by simp
  moreover then have "b \<notin> addrs L" using fits_below [of "unat b" L] by fastforce
  ultimately show ?case using Cons x by auto
qed simp

text \<open>The blocks handed out: the data areas of the segments in use.\<close>

definition live :: "layout \<Rightarrow> (u64 \<times> u64) set" where
  "live L = {(a + HEADER, l) | a l. (a, 0, l) \<in> set L}"

lemma live_append: "live (K @ L) = live K \<union> live L"
  by (auto simp: live_def)

lemma live_Cons: "live ((a, f, l) # L) = (if f = 0 then insert (a + HEADER, l) (live L) else live L)"
  by (auto simp: live_def)

lemma live_addr: "(a + HEADER, l) \<in> live L \<Longrightarrow> a \<in> addrs L"
  by (force simp: live_def)

lemma live_Nil [simp]: "live [] = {}"
  by (simp add: live_def)

definition heap_inv :: "heap \<Rightarrow> (u64 \<rightharpoonup> heap_segment_header) \<Rightarrow> layout \<Rightarrow> bool" where
  "heap_inv h S L \<longleftrightarrow> ready h \<noteq> 0 \<and> L \<noteq> [] \<and>
     seg_path S 0 (mainSegment h) ((mainSegment h, 0, 0) # L) (lastSegment h) 0 \<and>
     fits (unat (mainSegment h) + 48) ((mainSegment h, 0, 0) # L) \<and>
     unat (mainSegment h) + 48 < 2 ^ 64 \<and>
     heapEnd h = lastSegment h \<and> unat (heapEnd h) mod 4096 = 0"

definition suitable :: "u64 \<Rightarrow> u64 \<times> u8 \<times> u64 \<Rightarrow> bool" where
  "suitable sz x = (case x of (a, f, l) \<Rightarrow> f \<noteq> 0 \<and> (l > sz + HEADER \<or> l = sz))"

lemma find_segment_path:
  assumes "seg_path S pr p K e 0" and "K \<noteq> []" and "distinct (map fst K)"
  shows "find_segment S sz p = ret (map_option fst (find (suitable sz) K))"
  using assms
proof (induction K arbitrary: pr p)
  case (Cons x K)
  obtain a f l where x: "x = (a, f, l)" by (cases x)
  with Cons.prems obtain n where n: "p = a" "a \<noteq> 0" "S a = Some n" "seg_free n = f" "seg_length n = l"
    "seg_signature n = HEAP_SIGNATURE" "seg_path S a (seg_next n) K e 0" by auto
  show ?case
  proof (cases K)
    case Nil
    with n x show ?thesis by (subst find_segment.simps) (auto simp: suitable_def)
  next
    case (Cons y K')
    obtain b g m where y: "y = (b, g, m)" by (cases y)
    with n(7) Cons have "seg_next n = b" "b \<noteq> 0" by auto
    moreover have "b \<noteq> a" using Cons.prems(3) x y Cons by auto
    moreover have "find_segment S sz (seg_next n) = ret (map_option fst (find (suitable sz) K))"
      by (rule Cons.IH [OF n(7)]) (use Cons Cons.prems(3) in auto)
    ultimately show ?thesis using n x by (subst find_segment.simps) (auto simp: suitable_def)
  qed
qed simp

subsection \<open>Edits of the segment list\<close>

lemma seg_path_mid:
  "seg_path S pr p (us @ (a, f, l) # vs) e q \<longleftrightarrow>
     (\<exists>r n. seg_path S pr p us r a \<and> a \<noteq> 0 \<and> S a = Some n \<and> seg_free n = f \<and> seg_length n = l \<and>
        seg_last n = r \<and> seg_signature n = HEAP_SIGNATURE \<and> seg_path S a (seg_next n) vs e q)"
  by (auto simp: seg_path_append)

lemma seg_path_next_0: "seg_path S a p vs e 0 \<Longrightarrow> p = 0 \<longleftrightarrow> vs = []"
  by (cases vs rule: list.exhaust) (auto split: prod.splits)

lemma path_set_free:
  assumes "seg_path S pr p (us @ (a, f, l) # vs) e q" and "distinct (map fst (us @ (a, f, l) # vs))"
  shows "\<exists>n. S a = Some n \<and> seg_length n = l \<and> seg_path (S(a \<mapsto> n\<lparr>seg_free := g\<rparr>)) pr p (us @ (a, g, l) # vs) e q"
  using assms by (auto simp: seg_path_mid)

lemma path_split:
  assumes "seg_path S pr p (us @ (b, fb, lb) # (a, f, l) # vs) e q"
    and "distinct (map fst (us @ (b, fb, lb) # (a, f, l) # vs))"
    and "c \<notin> addrs (us @ (b, fb, lb) # (a, f, l) # vs)" and "c \<noteq> 0"
    and "S b = Some nb" and "S a = Some na"
    and "seg_free nc = g" and "seg_length nc = m" and "seg_last nc = b" and "seg_next nc = a"
    and "seg_signature nc = HEAP_SIGNATURE"
  shows "seg_path (S(c \<mapsto> nc, b \<mapsto> nb\<lparr>seg_next := c\<rparr>, a \<mapsto> na\<lparr>seg_last := c, seg_length := l'\<rparr>)) pr p
    (us @ (b, fb, lb) # (c, g, m) # (a, f, l') # vs) e q"
  using assms by (auto simp: seg_path_mid image_Un)

lemma path_merge_last:
  assumes "seg_path S pr p (us @ (b0, f0, l0) # (b, fb, lb) # (a, f, l) # vs) e q"
    and "distinct (map fst (us @ (b0, f0, l0) # (b, fb, lb) # (a, f, l) # vs))"
    and "S b0 = Some n0" and "S a = Some na"
  shows "seg_path (S(a \<mapsto> na\<lparr>seg_length := l', seg_last := b0\<rparr>, b0 \<mapsto> n0\<lparr>seg_next := a\<rparr>, b \<mapsto> z)) pr p
    (us @ (b0, f0, l0) # (a, f, l') # vs) e q"
  using assms by (auto simp: seg_path_mid)

lemma path_merge_next:
  assumes "seg_path S pr p (us @ (b, fb, lb) # (a, f, l) # (d, fd, ld) # vs) e q"
    and "distinct (map fst (us @ (b, fb, lb) # (a, f, l) # (d, fd, ld) # vs))"
    and "S b = Some nb" and "S d = Some nd"
  shows "seg_path (S(d \<mapsto> nd\<lparr>seg_length := l', seg_last := b\<rparr>, b \<mapsto> nb\<lparr>seg_next := d\<rparr>, a \<mapsto> z)) pr p
    (us @ (b, fb, lb) # (d, fd, l') # vs) e q"
  using assms by (auto simp: seg_path_mid)

lemma path_add_last:
  assumes "seg_path S pr p (us @ [(b, fb, lb)]) e 0" and "distinct (map fst (us @ [(b, fb, lb)]))"
    and "c \<notin> addrs (us @ [(b, fb, lb)])" and "c \<noteq> 0" and "S b = Some nb"
    and "seg_free nc = g" "seg_length nc = m" "seg_last nc = b" "seg_next nc = 0" "seg_signature nc = HEAP_SIGNATURE"
  shows "seg_path (S(c \<mapsto> nc, b \<mapsto> nb\<lparr>seg_next := c\<rparr>)) pr p (us @ [(b, fb, lb), (c, g, m)]) c 0"
  using assms by (auto simp: seg_path_mid seg_path_append)

lemma path_replace_last:
  assumes "seg_path S pr p (us @ [(b, fb, lb), (a, f, l)]) e 0"
    and "distinct (map fst (us @ [(b, fb, lb), (a, f, l)]))"
    and "c \<notin> addrs (us @ [(b, fb, lb), (a, f, l)])" and "c \<noteq> 0" and "S b = Some nb"
    and "seg_free nc = g" "seg_length nc = m" "seg_last nc = b" "seg_next nc = 0" "seg_signature nc = HEAP_SIGNATURE"
  shows "seg_path (S(c \<mapsto> nc, b \<mapsto> nb\<lparr>seg_next := c\<rparr>)) pr p (us @ [(b, fb, lb), (c, g, m)]) c 0"
  using assms by (auto simp: seg_path_mid seg_path_append)

lemma unat_HEADER [simp]: "unat HEADER = 48"
  by (simp add: HEADER_def)

lemma unat_add_HEADER: "unat sz < 2 ^ 63 \<Longrightarrow> unat (sz + HEADER) = unat sz + 48"
  by (simp add: unat_add_small)

lemma split_geometry:
  assumes "fits limit (us @ (b, fb, lb) # (a, f, l) # vs)" and "sz + HEADER < l" and "unat sz < 2 ^ 63" and "unat sz mod 16 = 0"
  shows "unat (a + l - sz) = unat a + unat l - unat sz" and "unat (l - (sz + HEADER)) = unat l - unat sz - 48"
    and "fits limit (us @ (b, fb, lb) # (a + l - sz, g, sz) # (a, f, l - (sz + HEADER)) # vs)"
    and "a + l - sz \<notin> addrs (us @ (b, fb, lb) # (a, f, l) # vs)"
proof -
  have F: "fits limit us" "unat a + 48 + unat l \<le> unat b" "unat a mod 16 = 0" "unat l mod 16 = 0" "fits (unat a) vs"
    and B: "unat b + 48 + unat lb \<le> (if us = [] then limit else unat (fst (last us)))" "unat b mod 16 = 0" "unat lb mod 16 = 0"
    using assms(1) by (auto simp: fits_append)
  have sl: "unat sz + 48 < unat l" using assms(2,3) by (simp add: word_less_nat_alt unat_add_HEADER)
  have "unat a + unat l < 2 ^ 64" using F(2) unat_less_64 [of b] by (simp del: unat_less_64)
  then have al: "unat (a + l) = unat a + unat l" by (rule unat_add_small)
  have c: "unat (a + l - sz) = unat a + unat l - unat sz"
    using al sl by (subst unat_sub) (simp_all add: word_le_nat_alt)
  then show "unat (a + l - sz) = unat a + unat l - unat sz" .
  have l': "unat (l - (sz + HEADER)) = unat l - unat sz - 48"
    using sl assms(3) by (subst unat_sub) (simp_all add: word_le_nat_alt unat_add_HEADER)
  then show "unat (l - (sz + HEADER)) = unat l - unat sz - 48" .
  have "(unat a + unat l - unat sz) mod 16 = 0" "(unat l - unat sz - 48) mod 16 = 0"
    using F(3,4) assms(4) sl by presburger+
  with F B c l' sl assms(4) show "fits limit (us @ (b, fb, lb) # (a + l - sz, g, sz) # (a, f, l - (sz + HEADER)) # vs)"
    by (auto simp: fits_append)
  show "a + l - sz \<notin> addrs (us @ (b, fb, lb) # (a, f, l) # vs)"
  proof
    assume "a + l - sz \<in> addrs (us @ (b, fb, lb) # (a, f, l) # vs)"
    then consider "a + l - sz \<in> addrs us" | "a + l - sz = b" | "a + l - sz = a" | "a + l - sz \<in> addrs vs" by auto
    then show False
    proof cases
      case 1
      then obtain x y where "(a + l - sz, x, y) \<in> set us" by auto
      moreover have "unat b + 48 \<le> unat (fst z)" if "z \<in> set us" for z
        using assms(1) that
      proof (induction us arbitrary: limit)
        case (Cons w us)
        obtain w1 w2 w3 where w: "w = (w1, w2, w3)" by (cases w)
        have "unat b + 48 + unat lb \<le> unat w1" using Cons.prems(1) w fits_below [of "unat w1" "us @ (b, fb, lb) # (a, f, l) # vs" b fb lb] by auto
        then show ?case using Cons w by auto
      qed simp
      ultimately have "unat b + 48 \<le> unat (a + l - sz)" by fastforce
      then show False using c F(2) by simp
    next
      case 2 then show False using c F(2) sl by auto
    next
      case 3 then show False using c sl by auto
    next
      case 4
      then obtain x y where "(a + l - sz, x, y) \<in> set vs" by auto
      then have "unat (a + l - sz) + 48 \<le> unat a" using fits_below [OF F(5)] by fastforce
      then show False using c sl by simp
    qed
  qed
qed

lemma heap_inv_parts:
  assumes "heap_inv h S L"
  shows "seg_path S 0 (mainSegment h) ((mainSegment h, 0, 0) # L) (lastSegment h) 0"
    and "fits (unat (mainSegment h) + 48) ((mainSegment h, 0, 0) # L)"
    and "distinct (map fst ((mainSegment h, 0, 0) # L))"
  using assms fits_distinct [of "unat (mainSegment h) + 48" "(mainSegment h, 0, 0) # L"] by (auto simp: heap_inv_def)

lemma heap_inv_keep:
  assumes "heap_inv h S L" and "L' \<noteq> []"
    and "seg_path S' 0 (mainSegment h) ((mainSegment h, 0, 0) # L') (lastSegment h) 0"
    and "fits (unat (mainSegment h) + 48) ((mainSegment h, 0, 0) # L')"
    and "ready h' = ready h" "mainSegment h' = mainSegment h" "lastSegment h' = lastSegment h" "heapEnd h' = heapEnd h"
  shows "heap_inv h' S' L'"
  using assms unfolding heap_inv_def by metis

lemma below_main_split:
  assumes "(m, 0, 0) # L = us @ x # vs" and "x \<noteq> (m, 0, 0)"
  obtains us' b where "us = us' @ [b]"
  using assms by (cases us rule: rev_cases) auto

lemma same_head:
  assumes "(m, 0, 0) # L = us @ b # xs"
  obtains ws where "L = ws @ xs" and "\<And>ys. us @ b # ys = (m, 0, 0) # ws @ ys"
  using assms by (cases us) auto

lemma take_segment_ok:
  assumes inv: "heap_inv h (segs w) L" and found: "find (suitable sz) ((mainSegment h, 0, 0) # L) = Some x"
    and sz: "unat sz < 2 ^ 63" "unat sz mod 16 = 0"
  shows "\<exists>h' w' a L'. take_segment (fst x) sz h w = ret (h', w', a + HEADER) \<and>
    heap_inv h' (segs w') L' \<and> live L' = insert (a + HEADER, sz) (live L) \<and> vm w' = vm w \<and> bytes w' = bytes w \<and>
    mainSegment h' = mainSegment h \<and> (a, 0, sz) \<in> set L' \<and> a + HEADER \<notin> fst ` live L"
proof -
  obtain a f l where x: "x = (a, f, l)" by (cases x)
  let ?K = "(mainSegment h, 0, 0) # L"
  from found obtain i where "i < length ?K" "suitable sz (?K ! i)" "x = ?K ! i" unfolding find_Some_iff by blast
  then have xin: "x \<in> set ?K" and suit: "suitable sz x" using nth_mem by metis+
  then obtain us0 vs where K0: "?K = us0 @ x # vs" by (meson split_list)
  have f: "f \<noteq> 0" using suit x by (simp add: suitable_def)
  then have "x \<noteq> (mainSegment h, 0, 0)" using x by auto
  with K0 obtain us b0 where "us0 = us @ [b0]" by (rule below_main_split)
  moreover obtain b fb lb where "b0 = (b, fb, lb)" by (cases b0)
  ultimately have K: "?K = us @ (b, fb, lb) # (a, f, l) # vs" using K0 x by simp
  note P = heap_inv_parts [OF inv, unfolded K]
  from P(1) obtain nb na where n: "segs w b = Some nb" "segs w a = Some na" "seg_length na = l" "seg_last na = b"
    "b \<noteq> 0" "a \<noteq> 0" "seg_signature na = HEAP_SIGNATURE" "seg_path (segs w) a (seg_next na) vs (lastSegment h) 0"
    by (auto simp: seg_path_mid)
  show ?thesis
  proof (cases "l > sz + HEADER")
    case True
    define c where "c = a + l - sz"
    define l' where "l' = l - (sz + HEADER)"
    note G = split_geometry [OF P(2) True sz, folded c_def l'_def]
    have c0: "c \<noteq> 0" using G(1) True sz unfolding word_less_nat_alt by (auto simp: unat_add_HEADER word_unat_eq_iff)
    define nc where "nc = zero_header\<lparr>seg_free := 1, seg_length := sz, seg_isStack := 0, seg_next := a,
                   seg_signature := HEAP_SIGNATURE, seg_last := b\<rparr>"
    let ?S = "(segs w)(c \<mapsto> nc, b \<mapsto> nb\<lparr>seg_next := c\<rparr>, a \<mapsto> na\<lparr>seg_last := c, seg_length := l'\<rparr>)"
    have path: "seg_path ?S 0 (mainSegment h) (us @ (b, fb, lb) # (c, 1, sz) # (a, f, l') # vs) (lastSegment h) 0"
      by (rule path_split [OF P(1,3) G(4) c0 n(1,2)]) (simp_all add: nc_def)
    have ne: "c \<noteq> b" "c \<noteq> a" "a \<noteq> b" using G(4) P(3) by auto
    have last: "(if seg_next na = 0 then h\<lparr>lastSegment := a\<rparr> else h) = h"
      using seg_path_next_0 [OF n(8)] n(8) by auto
    have split: "splitSegment a sz h w = ret (h, w\<lparr>segs := ?S\<rparr>, c)"
      using n ne True [unfolded not_le [symmetric]] last by (simp add: splitSegment_def c_def [symmetric] l'_def nc_def Let_def)
    let ?S' = "?S(c \<mapsto> nc\<lparr>seg_free := 0\<rparr>)"
    have path': "seg_path ?S' 0 (mainSegment h) (us @ (b, fb, lb) # (c, 0, sz) # (a, f, l') # vs) (lastSegment h) 0"
      using path_set_free [of ?S 0 "mainSegment h" "us @ [(b, fb, lb)]" c 1 sz "(a, f, l') # vs" "lastSegment h" 0 0]
        path fits_distinct [OF G(3)] ne by auto
    obtain ws where ws: "L = ws @ (a, f, l) # vs" "\<And>ys. us @ (b, fb, lb) # ys = (mainSegment h, 0, 0) # ws @ ys"
      by (rule same_head [OF K]) blast
    define L' where "L' = ws @ (c, 0, sz) # (a, f, l') # vs"
    have L': "us @ (b, fb, lb) # (c, 0, sz) # (a, f, l') # vs = (mainSegment h, 0, 0) # L'"
      "live L' = live L \<union> {(c + HEADER, sz)}" "L' \<noteq> []"
      using ws f by (auto simp: L'_def live_append live_Cons)
    define h' where "h' = h\<lparr>usedSize := usedSize h + (sz + HEADER), freeSize := freeSize h - (sz + HEADER)\<rparr>"
    have t: "take_segment a sz h w = ret (h', w\<lparr>segs := ?S'\<rparr>, c + HEADER)"
      using n True split ne by (simp add: take_segment_def mark_used_def nc_def h'_def)
    have "heap_inv h' ?S' L'"
      by (rule heap_inv_keep [OF inv L'(3) path' [unfolded L'(1)] G(3) [of 0, unfolded L'(1)]]) (simp_all add: h'_def)
    moreover have "(c, 0, sz) \<in> set L'" using L'(1) f by (cases us) auto
    moreover have "c \<notin> addrs L" using G(4) unfolding K [symmetric] by simp
    then have "c + HEADER \<notin> fst ` live L" using live_addr by fastforce
    ultimately show ?thesis using t L'(2) x by (intro exI [of _ h'] exI [of _ "w\<lparr>segs := ?S'\<rparr>"] exI [of _ c] exI [of _ L']) (simp add: h'_def)
  next
    case False
    with suit x have l: "l = sz" by (auto simp: suitable_def)
    let ?S = "(segs w)(a \<mapsto> na\<lparr>seg_free := 0\<rparr>)"
    have path: "seg_path ?S 0 (mainSegment h) (us @ (b, fb, lb) # (a, 0, l) # vs) (lastSegment h) 0"
      using path_set_free [of "segs w" 0 "mainSegment h" "us @ [(b, fb, lb)]" a f l vs "lastSegment h" 0 0] P(1,3) n(2) by auto
    obtain ws where ws: "L = ws @ (a, f, l) # vs" "\<And>ys. us @ (b, fb, lb) # ys = (mainSegment h, 0, 0) # ws @ ys"
      by (rule same_head [OF K]) blast
    define L' where "L' = ws @ (a, 0, l) # vs"
    have L': "us @ (b, fb, lb) # (a, 0, l) # vs = (mainSegment h, 0, 0) # L'"
      "live L' = live L \<union> {(a + HEADER, sz)}" "L' \<noteq> []"
      using ws f l by (auto simp: L'_def live_append live_Cons)
    have F: "fits (unat (mainSegment h) + 48) (us @ (b, fb, lb) # (a, 0, l) # vs)"
      using P(2) by (simp add: fits_append)
    define h' where "h' = h\<lparr>usedSize := usedSize h + (sz + HEADER), freeSize := freeSize h - (sz + HEADER)\<rparr>"
    have t: "take_segment a sz h w = ret (h', w\<lparr>segs := ?S\<rparr>, a + HEADER)"
      using n False l by (simp add: take_segment_def mark_used_def h'_def)
    have "heap_inv h' ?S L'"
      by (rule heap_inv_keep [OF inv L'(3) path [unfolded L'(1)] F [unfolded L'(1)]]) (simp_all add: h'_def)
    moreover have "(a, 0, sz) \<in> set L'" using L'(1) f l by (cases us) auto
    moreover have "a \<notin> addrs ws" "a \<notin> addrs vs"
      using heap_inv_parts(3) [OF inv] by (auto simp: ws(1))
    then have "a + HEADER \<notin> fst ` live L"
      using live_addr [of a _ ws] live_addr [of a _ vs] f by (auto simp: ws(1) live_append live_Cons)
    ultimately show ?thesis using t L'(2) x by (intro exI [of _ h'] exI [of _ "w\<lparr>segs := ?S\<rparr>"] exI [of _ a] exI [of _ L']) (simp add: h'_def)
  qed
qed

lemma unat_merge:
  assumes "unat a + 48 + unat l \<le> unat b" and "unat b + 48 + unat m < 2 ^ 64"
  shows "unat (l + (m + HEADER)) = unat l + unat m + 48"
proof -
  have "unat m + 48 < 2 ^ 64" using assms by simp
  then have "unat (m + HEADER) = unat m + 48" by (subst unat_add_small) simp_all
  then show ?thesis using assms by (subst unat_add_small) simp_all
qed

lemma fits_merge:
  assumes "fits limit (us @ (b, fb, lb) # (a, f, l) # vs)" and "limit < 2 ^ 64"
  shows "fits limit (us @ (a, f, l + (lb + HEADER)) # vs)"
proof -
  let ?t = "if us = [] then limit else unat (fst (last us))"
  have F: "fits limit us" "unat b + 48 + unat lb \<le> ?t" "unat b mod 16 = 0" "unat lb mod 16 = 0"
    "unat a + 48 + unat l \<le> unat b" "unat a mod 16 = 0" "unat l mod 16 = 0" "fits (unat a) vs"
    using assms(1) by (auto simp: fits_append)
  have "?t < 2 ^ 64" using assms(2) unat_less_64 by simp
  with F(2) have "unat b + 48 + unat lb < 2 ^ 64" by linarith
  then have u: "unat (l + (lb + HEADER)) = unat l + unat lb + 48" by (rule unat_merge [OF F(5)])
  moreover have "(unat l + unat lb + 48) mod 16 = 0" using F(4,7) by presburger
  ultimately show ?thesis using F by (simp add: fits_append)
qed

lemma merge_last_ok:
  assumes "seg_path S 0 m (us @ (b0, f0, l0) # (b, fb, lb) # (a, f, l) # vs) e 0"
    and "distinct (map fst (us @ (b0, f0, l0) # (b, fb, lb) # (a, f, l) # vs))"
  shows "\<exists>S'. MergeLastToThis a S = ret S' \<and> seg_path S' 0 m (us @ (b0, f0, l0) # (a, f, l + (lb + HEADER)) # vs) e 0"
proof -
  from assms(1) obtain n0 nb na where n: "S b0 = Some n0" "S b = Some nb" "S a = Some na" "seg_last nb = b0"
    "seg_last na = b" "seg_length na = l" "seg_length nb = lb" by (auto simp: seg_path_mid)
  let ?S = "S(a \<mapsto> na\<lparr>seg_length := l + (lb + HEADER), seg_last := b0\<rparr>, b0 \<mapsto> n0\<lparr>seg_next := a\<rparr>, b \<mapsto> zero_header)"
  have "MergeLastToThis a S = ret ?S" using n assms(2) by (simp add: MergeLastToThis_def Let_def)
  moreover have "seg_path ?S 0 m (us @ (b0, f0, l0) # (a, f, l + (lb + HEADER)) # vs) e 0"
    by (rule path_merge_last [OF assms n(1,3)])
  ultimately show ?thesis by blast
qed

lemma merge_next_ok:
  assumes "seg_path S 0 m (us @ (b, fb, lb) # (a, f, l) # (d, fd, ld) # vs) e 0"
    and "distinct (map fst (us @ (b, fb, lb) # (a, f, l) # (d, fd, ld) # vs))"
  shows "\<exists>S'. MergeThisToNext a S = ret S' \<and> seg_path S' 0 m (us @ (b, fb, lb) # (d, fd, ld + (l + HEADER)) # vs) e 0"
proof -
  from assms(1) obtain nb na nd where n: "S b = Some nb" "S a = Some na" "S d = Some nd" "seg_last na = b"
    "seg_next na = d" "seg_length na = l" "seg_length nd = ld" by (auto simp: seg_path_mid)
  let ?S = "S(d \<mapsto> nd\<lparr>seg_length := ld + (l + HEADER), seg_last := b\<rparr>, b \<mapsto> nb\<lparr>seg_next := d\<rparr>, a \<mapsto> zero_header)"
  have "MergeThisToNext a S = ret ?S" using n assms(2) by (simp add: MergeThisToNext_def Let_def)
  moreover have "seg_path ?S 0 m (us @ (b, fb, lb) # (d, fd, ld + (l + HEADER)) # vs) e 0"
    by (rule path_merge_next [OF assms n(1,3)])
  ultimately show ?thesis by blast
qed

text \<open>The two merges as steps on the layout below the main segment.\<close>

lemma before_split:
  obtains us b fb lb where "(m, 0, 0) # ws = us @ [(b, fb, lb)]" and "\<And>xs. (m, 0, 0) # ws @ xs = us @ (b, fb, lb) # xs"
proof -
  obtain us b fb lb where "(m, 0, 0) # ws = us @ [(b, fb, lb)]"
    by (metis append_butlast_last_id list.distinct(1) surj_pair)
  moreover from this have "(m, 0, 0) # ws @ xs = us @ (b, fb, lb) # xs" for xs
    by (metis append.assoc append_Cons append_Nil)
  ultimately show ?thesis using that by blast
qed

lemma merge_last_layout:
  assumes path: "seg_path S 0 m ((m, 0, 0) # ws @ (b, fb, lb) # (a, f, l) # vs) e 0"
    and F: "fits limit ((m, 0, 0) # ws @ (b, fb, lb) # (a, f, l) # vs)" and lim: "limit < 2 ^ 64"
  shows "\<exists>S'. MergeLastToThis a S = ret S' \<and> seg_path S' 0 m ((m, 0, 0) # ws @ (a, f, l + (lb + HEADER)) # vs) e 0 \<and>
    fits limit ((m, 0, 0) # ws @ (a, f, l + (lb + HEADER)) # vs)"
proof -
  obtain us b0 f0 l0 where "(m, 0, 0) # ws = us @ [(b0, f0, l0)]"
    and eq: "\<And>xs. (m, 0, 0) # ws @ xs = us @ (b0, f0, l0) # xs"
    by (rule before_split [of m ws]) blast
  note F' = F [unfolded eq]
  have "fits limit ((us @ [(b0, f0, l0)]) @ (a, f, l + (lb + HEADER)) # vs)"
    by (rule fits_merge [OF _ lim, of _ b fb]) (use F' in simp)
  then show ?thesis using merge_last_ok [OF path [unfolded eq] fits_distinct [OF F']] unfolding eq by simp
qed

lemma merge_next_layout:
  assumes path: "seg_path S 0 m ((m, 0, 0) # ws @ (a, f, l) # (d, fd, ld) # vs) e 0"
    and F: "fits limit ((m, 0, 0) # ws @ (a, f, l) # (d, fd, ld) # vs)" and lim: "limit < 2 ^ 64"
  shows "\<exists>S'. MergeThisToNext a S = ret S' \<and> seg_path S' 0 m ((m, 0, 0) # ws @ (d, fd, ld + (l + HEADER)) # vs) e 0 \<and>
    fits limit ((m, 0, 0) # ws @ (d, fd, ld + (l + HEADER)) # vs)"
proof -
  obtain us b0 f0 l0 where "(m, 0, 0) # ws = us @ [(b0, f0, l0)]"
    and eq: "\<And>xs. (m, 0, 0) # ws @ xs = us @ (b0, f0, l0) # xs"
    by (rule before_split [of m ws]) blast
  note F' = F [unfolded eq]
  have "fits limit ((us @ [(b0, f0, l0)]) @ (d, fd, ld + (l + HEADER)) # vs)"
    by (rule fits_merge [OF _ lim, of _ a f]) (use F' in simp)
  then show ?thesis using merge_next_ok [OF path [unfolded eq] fits_distinct [OF F']] unfolding eq by simp
qed

lemma merge_both_layout:
  assumes path: "seg_path S 0 m ((m, 0, 0) # ws @ (b, fb, lb) # (a, f, l) # (d, fd, ld) # vs) e 0"
    and F: "fits limit ((m, 0, 0) # ws @ (b, fb, lb) # (a, f, l) # (d, fd, ld) # vs)" and lim: "limit < 2 ^ 64"
  shows "\<exists>S'. MergeLastAndThisToNext a S = ret S' \<and>
    seg_path S' 0 m ((m, 0, 0) # ws @ (d, fd, ld + (l + (lb + HEADER) + HEADER)) # vs) e 0 \<and>
    fits limit ((m, 0, 0) # ws @ (d, fd, ld + (l + (lb + HEADER) + HEADER)) # vs)"
  using merge_last_layout [OF assms] merge_next_layout lim unfolding MergeLastAndThisToNext_def by fastforce

text \<open>The layout after the segment \<open>(a, l)\<close> between \<open>ws\<close> (higher addresses) and \<open>vs\<close> (lower addresses) has become
  free: a free neighbour on either side becomes one segment with it, each absorbed header adding 48 bytes.\<close>

fun join_below :: "u64 \<Rightarrow> u64 \<Rightarrow> (u64 \<times> u8 \<times> u64) list \<Rightarrow> (u64 \<times> u8 \<times> u64) list" where
  "join_below a l [] = [(a, 1, l)]"
| "join_below a l ((d, fd, ld) # vs) = (if fd \<noteq> 0 then (d, fd, ld + (l + HEADER)) # vs else (a, 1, l) # (d, fd, ld) # vs)"

definition coalesced :: "(u64 \<times> u8 \<times> u64) list \<Rightarrow> u64 \<Rightarrow> u64 \<Rightarrow> (u64 \<times> u8 \<times> u64) list \<Rightarrow> (u64 \<times> u8 \<times> u64) list" where
  "coalesced ws a l vs =
     (if ws \<noteq> [] \<and> fst (snd (last ws)) \<noteq> 0 then butlast ws @ join_below a (l + (snd (snd (last ws)) + HEADER)) vs
      else ws @ join_below a l vs)"

lemma live_join_below: "live (join_below a l vs) = live vs"
  by (cases "(a, l, vs)" rule: join_below.cases) (simp_all add: live_Cons live_def)

lemma live_coalesced: "live (coalesced ws a l vs) = live ws \<union> live vs"
proof (cases "ws \<noteq> [] \<and> fst (snd (last ws)) \<noteq> 0")
  case True
  then obtain us b fb lb where "ws = us @ [(b, fb, lb)]" "fb \<noteq> 0" by (cases ws rule: rev_cases) auto
  then show ?thesis by (simp add: coalesced_def live_append live_join_below live_Cons)
qed (auto simp: coalesced_def live_append live_join_below)

lemma coalesced_nonempty: "coalesced ws a l vs \<noteq> []"
  by (cases "(a, l, vs)" rule: join_below.cases) (simp_all add: coalesced_def)

lemma merge_free_ok:
  assumes path: "seg_path S 0 m ((m, 0, 0) # ws @ (a, 1, l) # vs) e 0"
    and F: "fits limit ((m, 0, 0) # ws @ (a, 1, l) # vs)" and lim: "limit < 2 ^ 64"
    and a: "S a = Some na"
  shows "\<exists>S'. merge_free a na S = ret S' \<and> seg_path S' 0 m ((m, 0, 0) # coalesced ws a l vs) e 0 \<and>
    fits limit ((m, 0, 0) # coalesced ws a l vs)"
proof -
  obtain us b fb lb where ub: "(m, 0, 0) # ws = us @ [(b, fb, lb)]"
    and eq: "\<And>xs. (m, 0, 0) # ws @ xs = us @ (b, fb, lb) # xs" by (rule before_split) blast
  from path [unfolded eq] a obtain nb where n: "S b = Some nb" "seg_free nb = fb" "seg_last na = b" "b \<noteq> 0"
    and vs: "seg_path S a (seg_next na) vs e 0" by (auto simp: seg_path_mid)
  have lf: "neighbour_free (seg_last na) S = ret (fb \<noteq> 0)" using n by (simp add: neighbour_free_def)
  have nf: "neighbour_free (seg_next na) S = ret (vs \<noteq> [] \<and> fst (snd (hd vs)) \<noteq> 0)"
    using vs by (cases vs) (auto simp: neighbour_free_def)
  have up: "\<exists>ws'. ws = ws' @ [(b, fb, lb)]" if "fb \<noteq> 0"
    using ub that by (cases us) auto
  have up0: "\<not> (ws \<noteq> [] \<and> fst (snd (last ws)) \<noteq> 0)" if "fb = 0"
    using ub that by (cases ws rule: rev_cases) auto
  show ?thesis
  proof (cases "vs \<noteq> [] \<and> fst (snd (hd vs)) \<noteq> 0")
    case True
    then obtain d fd ld vs' where v: "vs = (d, fd, ld) # vs'" "fd \<noteq> 0" by (cases vs) auto
    show ?thesis
    proof (cases "fb = 0")
      case True
      from path F v have "seg_path S 0 m ((m, 0, 0) # ws @ (a, 1, l) # (d, fd, ld) # vs') e 0"
        "fits limit ((m, 0, 0) # ws @ (a, 1, l) # (d, fd, ld) # vs')" by simp_all
      then obtain S' where "MergeThisToNext a S = ret S'"
        "seg_path S' 0 m ((m, 0, 0) # ws @ (d, fd, ld + (l + HEADER)) # vs') e 0"
        "fits limit ((m, 0, 0) # ws @ (d, fd, ld + (l + HEADER)) # vs')" using merge_next_layout lim by blast
      moreover have "coalesced ws a l vs = ws @ (d, fd, ld + (l + HEADER)) # vs'"
        using v up0 [OF True] by (auto simp: coalesced_def)
      ultimately show ?thesis using v True by (intro exI [of _ S']) (simp add: merge_free_def nf lf)
    next
      case False
      with up obtain ws' where ws: "ws = ws' @ [(b, fb, lb)]" by blast
      from path F v ws have "seg_path S 0 m ((m, 0, 0) # ws' @ (b, fb, lb) # (a, 1, l) # (d, fd, ld) # vs') e 0"
        "fits limit ((m, 0, 0) # ws' @ (b, fb, lb) # (a, 1, l) # (d, fd, ld) # vs')" by simp_all
      then obtain S' where "MergeLastAndThisToNext a S = ret S'"
        "seg_path S' 0 m ((m, 0, 0) # ws' @ (d, fd, ld + (l + (lb + HEADER) + HEADER)) # vs') e 0"
        "fits limit ((m, 0, 0) # ws' @ (d, fd, ld + (l + (lb + HEADER) + HEADER)) # vs')"
        using merge_both_layout lim by blast
      moreover have "coalesced ws a l vs = ws' @ (d, fd, ld + (l + (lb + HEADER) + HEADER)) # vs'"
        using v ws False by (simp add: coalesced_def)
      ultimately show ?thesis using v False by (intro exI [of _ S']) (simp add: merge_free_def nf lf)
    qed
  next
    case nonext: False
    then have stay: "join_below a k vs = (a, 1, k) # vs" for k by (cases "(a, k, vs)" rule: join_below.cases) auto
    show ?thesis
    proof (cases "fb = 0")
      case True
      then have "coalesced ws a l vs = ws @ (a, 1, l) # vs"
        using stay up0 by (auto simp: coalesced_def)
      with path F nonext True show ?thesis by (intro exI [of _ S]) (auto simp: merge_free_def nf lf)
    next
      case False
      with up obtain ws' where ws: "ws = ws' @ [(b, fb, lb)]" by blast
      from path F ws have "seg_path S 0 m ((m, 0, 0) # ws' @ (b, fb, lb) # (a, 1, l) # vs) e 0"
        "fits limit ((m, 0, 0) # ws' @ (b, fb, lb) # (a, 1, l) # vs)" by simp_all
      then obtain S' where "MergeLastToThis a S = ret S'"
        "seg_path S' 0 m ((m, 0, 0) # ws' @ (a, 1, l + (lb + HEADER)) # vs) e 0"
        "fits limit ((m, 0, 0) # ws' @ (a, 1, l + (lb + HEADER)) # vs)" using merge_last_layout lim by blast
      moreover have "coalesced ws a l vs = ws' @ (a, 1, l + (lb + HEADER)) # vs"
        using ws False stay by (simp add: coalesced_def)
      ultimately show ?thesis using nonext False by (intro exI [of _ S']) (auto simp: merge_free_def nf lf)
    qed
  qed
qed

lemma heap_free_coalesces:
  assumes inv: "heap_inv h (segs w) (ws @ (a, 0, l) # vs)"
  shows "\<exists>h' w'. heap_free (a + HEADER) h w = ret (h', w') \<and> heap_inv h' (segs w') (coalesced ws a l vs) \<and>
    freeSize h' = freeSize h + (l + HEADER) \<and> usedSize h' = usedSize h - (l + HEADER) \<and>
    vm w' = vm w \<and> bytes w' = bytes w \<and> mainSegment h' = mainSegment h"
proof -
  note P = heap_inv_parts [OF inv]
  from P(1) seg_path_dom [OF P(1), of a 0 l] obtain na where n: "segs w a = Some na" "seg_free na = 0"
    "seg_length na = l" "seg_signature na = HEAP_SIGNATURE" by auto
  let ?S = "(segs w)(a \<mapsto> na\<lparr>seg_free := 1\<rparr>)"
  have path: "seg_path ?S 0 (mainSegment h) ((mainSegment h, 0, 0) # ws @ (a, 1, l) # vs) (lastSegment h) 0"
    using path_set_free [of "segs w" 0 "mainSegment h" "(mainSegment h, 0, 0) # ws" a 0 l vs _ 0 1] P n by auto
  have F: "fits (unat (mainSegment h) + 48) ((mainSegment h, 0, 0) # ws @ (a, 1, l) # vs)"
    using P(2) by (simp add: fits_append)
  obtain S' where m: "merge_free a na ?S = ret S'"
    "seg_path S' 0 (mainSegment h) ((mainSegment h, 0, 0) # coalesced ws a l vs) (lastSegment h) 0"
    "fits (unat (mainSegment h) + 48) ((mainSegment h, 0, 0) # coalesced ws a l vs)"
    using merge_free_ok [OF path F, of "na\<lparr>seg_free := 1\<rparr>"] inv by (auto simp: heap_inv_def merge_free_def)
  let ?h = "h\<lparr>freeSize := freeSize h + (l + HEADER), usedSize := usedSize h - (l + HEADER)\<rparr>"
  have "unat a + 48 < 2 ^ 64" using P(2) inv fits_below [OF P(2), of a 0 l] by (simp add: heap_inv_def)
  then have p0: "a + HEADER \<noteq> 0" by (auto simp: word_unat_eq_iff unat_add_small)
  have "heap_free (a + HEADER) h w = ret (?h, w\<lparr>segs := S'\<rparr>)"
    using m(1) n inv p0 by (simp add: heap_free_def Let_def heap_inv_def)
  moreover have "heap_inv ?h S' (coalesced ws a l vs)"
    by (rule heap_inv_keep [OF inv coalesced_nonempty m(2,3)]) simp_all
  ultimately show ?thesis by (intro exI [of _ ?h] exI [of _ "w\<lparr>segs := S'\<rparr>"]) simp
qed

lemma live_split:
  assumes "(p, l) \<in> live L"
  obtains ws a vs where "L = ws @ (a, 0, l) # vs" and "p = a + HEADER"
  using assms by (auto simp: live_def dest: split_list)

lemma live_released:
  assumes "heap_inv h S (ws @ (a, 0, l) # vs)"
  shows "live (coalesced ws a l vs) = live (ws @ (a, 0, l) # vs) - {(a + HEADER, l)}"
  using heap_inv_parts(3) [OF assms] live_addr [of a l ws] live_addr [of a l vs]
  by (auto simp: live_coalesced live_append live_Cons)

lemma heap_free_ok:
  assumes inv: "heap_inv h (segs w) L" and blk: "(p, l) \<in> live L"
  shows "\<exists>h' w' L'. heap_free p h w = ret (h', w') \<and> heap_inv h' (segs w') L' \<and>
    live L' = live L - {(p, l)} \<and> vm w' = vm w \<and> bytes w' = bytes w \<and> mainSegment h' = mainSegment h"
proof -
  from blk obtain ws a vs where L: "L = ws @ (a, 0, l) # vs" and p: "p = a + HEADER" by (rule live_split)
  from heap_free_coalesces [OF inv [unfolded L]] live_released [OF inv [unfolded L]] L p show ?thesis by blast
qed

subsection \<open>Growing and allocating\<close>

lemma expand_page_addr:
  assumes "expand_page pml4 perms i (e, v) = ret (e', v')" and "unat e mod 4096 = 0" and "e \<noteq> 0"
  shows "unat e' + 4096 = unat e \<and> e' \<noteq> 0"
proof -
  from assms(1) have e': "e' = e - PAGESIZE" "e' \<noteq> 0"
    by (auto simp: expand_page_def Let_def bind_res_eq_ret split: if_splits)
  have "unat e \<noteq> 0" using assms(3) by (simp add: word_unat_eq_iff)
  with assms(2) have "4096 \<le> unat e" by (metis mod_less not_le)
  then have "unat (e - PAGESIZE) = unat e - 4096" by (subst unat_sub) (simp_all add: word_le_nat_alt)
  with e' \<open>4096 \<le> unat e\<close> show ?thesis by simp
qed

lemma expand_loop_addr:
  assumes "iter_res (expand_page pml4 perms) is (e, v) = ret (e', v')" and "unat e mod 4096 = 0" and "e \<noteq> 0"
  shows "unat e' + 4096 * length is = unat e \<and> e' \<noteq> 0"
  using assms
proof (induction "is" arbitrary: e v)
  case (Cons i "is")
  then obtain e1 v1 where s: "expand_page pml4 perms i (e, v) = ret (e1, v1)"
    "iter_res (expand_page pml4 perms) is (e1, v1) = ret (e', v')" by (auto simp: bind_res_eq_ret)
  have e1: "unat e1 + 4096 = unat e" "e1 \<noteq> 0" using expand_page_addr [OF s(1) Cons.prems(2,3)] by auto
  moreover have "unat e1 mod 4096 = 0" using Cons.prems(2) e1(1) by (metis mod_add_self2)
  ultimately show ?case using Cons.IH [OF s(2)] by auto
qed simp

lemma request_page_aligned:
  assumes "paging_inv s root" and "0 < card (free_frames (pmm s))"
  obtains k where "request_page (pmm s) = ret (granted k (pmm s), page_addr (sysmem (pmm s)) k)"
    and "k \<le> total_available_pages (sysmem (pmm s))"
    and "page_addr (sysmem (pmm s)) k AND 0xFFF = 0" and "unat (page_addr (sysmem (pmm s)) k) < 2 ^ 40"
proof -
  from assms(2) obtain j where "1 \<le> j" "j \<le> total_available_pages (sysmem (pmm s))" "\<not> taken (sysmem (pmm s)) j"
    by (fastforce simp: free_frames_def card_gt_0_iff)
  with assms(1) obtain k where k: "k \<le> total_available_pages (sysmem (pmm s))"
    "request_page (pmm s) = ret (granted k (pmm s), page_addr (sysmem (pmm s)) k)"
    using search_free_finds [of j "sysmem (pmm s)" "last_requested (pmm s)"]
    by (auto simp: request_page_search frames_inv_def frames_wf_def paging_inv_def)
  have "window (sysmem (pmm s))" using assms(1) by (simp add: paging_inv_def)
  then have "unat (page_addr (sysmem (pmm s)) k AND 0xFFF) = 0" "unat (page_addr (sysmem (pmm s)) k) < 2 ^ 40"
    using k(1) page_addr_aligned unat_page_addr(2) by (auto simp: unat_and_page_mask)
  with k that show ?thesis by (simp add: word_unat_eq_iff)
qed

lemma expand_page_ok:
  assumes inv: "paging_inv v (cr3 v)" and pml4: "pml4 = get_pml4 v" and free: "4 \<le> card (free_frames (pmm v))"
    and e: "unat e mod 4096 = 0" "4096 < unat e"
  shows "\<exists>v'. expand_page pml4 perms i (e, v) = ret (e - PAGESIZE, v') \<and> paging_inv v' (cr3 v') \<and> cr3 v' = cr3 v \<and>
    card (free_frames (pmm v)) \<le> card (free_frames (pmm v')) + 4"
proof -
  obtain k where k: "request_page (pmm v) = ret (granted k (pmm v), page_addr (sysmem (pmm v)) k)"
    "k \<le> total_available_pages (sysmem (pmm v))"
    "page_addr (sysmem (pmm v)) k AND 0xFFF = 0" "unat (page_addr (sysmem (pmm v)) k) < 2 ^ 40"
    by (rule request_page_aligned [OF inv]) (use free in auto)
  let ?v = "v\<lparr>pmm := granted k (pmm v)\<rparr>" and ?p = "page_addr (sysmem (pmm v)) k"
  have c: "card (free_frames (pmm v)) \<le> card (free_frames (pmm ?v)) + 1" using card_free_granted by simp
  have e': "unat (e - PAGESIZE) = unat e - 4096" using e(2) by (subst unat_sub) (simp_all add: word_le_nat_alt)
  then have "(unat (e - PAGESIZE)) mod 4096 = 0" using e by (metis le_mod_geq less_imp_le)
  then have al: "(e - PAGESIZE) AND 0xFFF = 0" using unat_and_page_mask [of "e - PAGESIZE"] by (simp add: word_unat_eq_iff)
  have nz: "e - PAGESIZE \<noteq> 0" using e' e(2) by (auto simp: word_unat_eq_iff)
  obtain v' where v': "map_memory_hh (TO_KERNEL_MAP (cr3 v)) (e - PAGESIZE) ?p perms ?v = ret v'"
    "paging_inv v' (cr3 v)" "cr3 v' = cr3 ?v" "card (free_frames (pmm ?v)) \<le> card (free_frames (pmm v')) + 3"
    by (rule map_memory_hh_ok [OF paging_inv_pmm [OF inv k(2)] _ al k(3,4)]) (use free c in auto)
  have "expand_page pml4 perms i (e, v) = ret (e - PAGESIZE, v')"
    using k(1) v'(1) nz pml4 by (simp add: expand_page_def Let_def map_current_memory_def get_pml4_def)
  then show ?thesis using v' c by auto
qed

lemma expand_loop_ok:
  assumes "paging_inv v (cr3 v)" and "pml4 = get_pml4 v" and "4 * length is \<le> card (free_frames (pmm v))"
    and "unat e mod 4096 = 0" "4096 * length is < unat e"
  shows "\<exists>e' v'. iter_res (expand_page pml4 perms) is (e, v) = ret (e', v') \<and> paging_inv v' (cr3 v') \<and> cr3 v' = cr3 v \<and>
    card (free_frames (pmm v)) \<le> card (free_frames (pmm v')) + 4 * length is"
  using assms
proof (induction "is" arbitrary: e v)
  case (Cons i "is")
  have "4 \<le> card (free_frames (pmm v))" "4096 < unat e" using Cons.prems(3,5) by simp_all
  with expand_page_ok [OF Cons.prems(1,2) _ Cons.prems(4)] obtain v1 where v1:
    "expand_page pml4 perms i (e, v) = ret (e - PAGESIZE, v1)" "paging_inv v1 (cr3 v1)" "cr3 v1 = cr3 v"
    "card (free_frames (pmm v)) \<le> card (free_frames (pmm v1)) + 4" by blast
  have e': "unat (e - PAGESIZE) = unat e - 4096" using \<open>4096 < unat e\<close> by (subst unat_sub) (simp_all add: word_le_nat_alt)
  then have "(unat (e - PAGESIZE)) mod 4096 = 0" using Cons.prems(4) \<open>4096 < unat e\<close> by (metis le_mod_geq less_imp_le)
  moreover have "pml4 = get_pml4 v1" using Cons.prems(2) v1(3) by (simp add: get_pml4_def)
  ultimately show ?case using Cons.IH [OF v1(2), of "e - PAGESIZE"] v1 Cons.prems(3,5) e' by fastforce
qed auto

lemma unat_expand_length:
  assumes "unat sz < 2 ^ 62"
  shows "unat (expand_length sz) = (unat sz + 48 + 4095) div 4096 * 4096"
proof -
  let ?n = "unat sz + 48"
  have n: "unat (sz + HEADER) = ?n" using assms by (simp add: unat_add_small)
  have m: "unat ((sz + HEADER) mod PAGESIZE) = ?n mod 4096" by (simp add: unat_mod n)
  show ?thesis
  proof (cases "?n mod 4096 = 0")
    case True
    then have "(sz + HEADER) mod PAGESIZE = 0" using m by (simp add: word_unat_eq_iff)
    then have "expand_length sz = sz + HEADER" by (simp add: expand_length_def Let_def)
    moreover have "(?n + 4095) div 4096 * 4096 = ?n" using True by (rule page_ceil_aligned)
    ultimately show ?thesis using n by simp
  next
    case False
    then have "(sz + HEADER) mod PAGESIZE \<noteq> 0" using m by (auto simp: word_unat_eq_iff)
    then have e: "expand_length sz = sz + HEADER - (sz + HEADER) mod PAGESIZE + PAGESIZE"
      by (simp add: expand_length_def Let_def)
    have "unat (sz + HEADER - (sz + HEADER) mod PAGESIZE) = ?n - ?n mod 4096"
      by (subst unat_sub) (simp_all add: m n word_le_nat_alt)
    moreover have "?n - ?n mod 4096 = ?n div 4096 * 4096" by (simp add: minus_mod_eq_div_mult)
    moreover have "?n div 4096 * 4096 \<le> ?n" by (rule div_times_less_eq_dividend)
    ultimately have "unat (expand_length sz) = ?n div 4096 * 4096 + 4096"
      unfolding e using assms by (subst unat_add_small) simp_all
    also have "\<dots> = (?n + 4096) div 4096 * 4096"
    proof -
      have "(?n + 4096) div 4096 = ?n div 4096 + 1" by (rule div_add_self2) simp
      then show ?thesis by (simp only: add_mult_distrib mult_1)
    qed
    also have "\<dots> = (?n + 4095) div 4096 * 4096" using page_ceil_unaligned [OF False] by simp
    finally show ?thesis .
  qed
qed

lemma expand_length_bounds:
  assumes "unat sz < 2 ^ 62"
  shows "unat sz + 48 \<le> unat (expand_length sz)" and "4096 \<le> unat (expand_length sz)"
    and "unat (expand_length sz) mod 4096 = 0" and "unat (expand_length sz) < 2 ^ 63"
proof -
  let ?n = "unat sz + 48"
  have q: "?n + 4095 < (?n + 4095) div 4096 * 4096 + 4096" using dividend_less_div_times [of 4096 "?n + 4095"] by simp
  then show "unat sz + 48 \<le> unat (expand_length sz)" unfolding unat_expand_length [OF assms] by linarith
  show "4096 \<le> unat (expand_length sz)" using q unfolding unat_expand_length [OF assms] by (simp add: Suc_leI)
  show "unat (expand_length sz) mod 4096 = 0" unfolding unat_expand_length [OF assms] by simp
  have "(?n + 4095) div 4096 * 4096 \<le> ?n + 4095" by (rule div_times_less_eq_dividend)
  with assms show "unat (expand_length sz) < 2 ^ 63" unfolding unat_expand_length [OF assms] by simp
qed

lemma below_all:
  assumes "fits limit L" and "L = us @ [(e, f, l)]" and "unat n < unat e"
  shows "n \<notin> addrs L"
proof
  assume "n \<in> addrs L"
  then obtain g m where "(n, g, m) \<in> set L" by auto
  then consider "n = e" | "(n, g, m) \<in> set us" using assms(2) by auto
  then show False
  proof cases
    case 2
    have "unat e + 48 \<le> unat (fst z)" if "z \<in> set us" for z
      using assms(1) [unfolded assms(2)] that
    proof (induction us arbitrary: limit)
      case (Cons w us)
      obtain w1 w2 w3 where w: "w = (w1, w2, w3)" by (cases w)
      have "unat e + 48 + unat l \<le> unat w1"
        using Cons.prems(1) w fits_below [of "unat w1" "us @ [(e, f, l)]" e f l] by auto
      then show ?case using Cons w by auto
    qed simp
    from this [OF 2] assms(3) show False by simp
  qed (use assms(3) in simp)
qed

lemma fits_grown:
  assumes "fits limit (us @ [(b, fb, lb), (e, f, l)])" and "unat n + unat len = unat e"
    and "unat n mod 16 = 0" and "unat len mod 16 = 0" and "4096 \<le> unat len"
  shows "fits limit (us @ [(b, fb, lb), (n, 1, l + len - HEADER)])"
    and "fits limit (us @ [(b, fb, lb), (e, f, l), (n, 1, len - HEADER)])"
proof -
  have F: "unat e + 48 + unat l \<le> unat b" "unat l mod 16 = 0" using assms(1) by (auto simp: fits_append)
  then have "unat l + unat len < 2 ^ 64" using assms(2) unat_less_64 [of b] by (simp del: unat_less_64)
  then have "unat (l + len) = unat l + unat len" by (rule unat_add_small)
  then have 1: "unat (l + len - HEADER) = unat l + unat len - 48"
    using assms(5) by (subst unat_sub) (simp_all add: word_le_nat_alt)
  have 2: "unat (len - HEADER) = unat len - 48"
    using assms(5) by (subst unat_sub) (simp_all add: word_le_nat_alt)
  have "(unat l + unat len - 48) mod 16 = 0" "(unat len - 48) mod 16 = 0" using F(2) assms(4,5) by presburger+
  with 1 2 F assms show "fits limit (us @ [(b, fb, lb), (n, 1, l + len - HEADER)])"
    "fits limit (us @ [(b, fb, lb), (e, f, l), (n, 1, len - HEADER)])"
    by (auto simp: fits_append)
qed

text \<open>The layout after growing: the lowest segment is replaced when it was free, or one is added.\<close>

definition grown :: "u64 \<Rightarrow> u64 \<Rightarrow> layout \<Rightarrow> layout" where
  "grown n len L = (case last L of (e, f, l) \<Rightarrow>
     if f \<noteq> 0 then butlast L @ [(n, 1, l + len - HEADER)] else L @ [(n, 1, len - HEADER)])"

lemma live_grown: "L \<noteq> [] \<Longrightarrow> live (grown n len L) = live L"
  by (cases L rule: rev_cases) (auto simp: grown_def live_append live_Cons split: prod.splits)

lemma expand_heap_step:
  assumes inv: "heap_inv h (segs w) L" and sz: "unat sz < 2 ^ 62"
    and loop: "iter_res (expand_page pml4 (heap_perms h)) (map word_of_nat [0..<unat (expand_length sz) div 4096])
      (heapEnd h, vm w) = ret (n, v)"
  shows "\<exists>h' S'. expand_heap pml4 sz h w = ret (h', w\<lparr>vm := v, segs := S'\<rparr>) \<and>
    heap_inv h' S' (grown n (expand_length sz) L) \<and> mainSegment h' = mainSegment h \<and> heapEnd h' = n \<and> isKernel h' = isKernel h"
proof -
  let ?len = "expand_length sz" and ?m = "mainSegment h"
  note B = expand_length_bounds [OF sz]
  note P = heap_inv_parts [OF inv]
  have L0: "L \<noteq> []" and he: "heapEnd h = lastSegment h" "unat (heapEnd h) mod 4096 = 0" using inv by (auto simp: heap_inv_def)
  from L0 obtain ws e f l where L: "L = ws @ [(e, f, l)]" by (metis append_butlast_last_id prod_cases3)
  obtain us b fb lb where ub: "(?m, 0, 0) # ws = us @ [(b, fb, lb)]" and eq: "\<And>xs. (?m, 0, 0) # ws @ xs = us @ (b, fb, lb) # xs"
    by (rule before_split) blast
  have K: "(?m, 0, 0) # L = us @ [(b, fb, lb), (e, f, l)]" using eq [of "[(e, f, l)]"] L by simp
  note P' = P [unfolded K]
  from P'(1) obtain nb ne where n: "segs w b = Some nb" "segs w e = Some ne" "seg_free ne = f" "seg_length ne = l"
    "seg_last ne = b" "b \<noteq> 0" "e \<noteq> 0" and el: "lastSegment h = e" by (auto simp: seg_path_append)
  have pages: "unat (?len div PAGESIZE) = unat ?len div 4096" "?len mod PAGESIZE = 0"
    using B(3) by (simp_all add: unat_div word_unat_eq_iff unat_mod)
  have loop': "for_u64 (if ?len mod PAGESIZE \<noteq> 0 then ?len div PAGESIZE + 1 else ?len div PAGESIZE)
      (expand_page pml4 (heap_perms h)) (heapEnd h, vm w) = ret (n, v)"
    using loop pages by (simp add: for_u64_def)
  have "unat e mod 4096 = 0" using he el by simp
  then have "unat n + 4096 * (unat ?len div 4096) = unat e" and n0: "n \<noteq> 0"
    using expand_loop_addr [OF loop] he el n(7) by auto
  then have ne_e: "unat n + unat ?len = unat e" using B(3) by (simp add: mod_0_imp_dvd mult.commute)
  then have lt: "unat n < unat e" using B(2) by simp
  have fresh: "n \<notin> addrs ((?m, 0, 0) # L)"
    by (rule below_all [OF P(2) _ lt, of "us @ [(b, fb, lb)]" f l]) (simp add: K)
  then have nb: "n \<noteq> b" "n \<noteq> e" unfolding K by auto
  have n16: "unat n mod 16 = 0"
  proof -
    have "(4096::nat) dvd unat n" using ne_e \<open>unat e mod 4096 = 0\<close> B(3) by (metis dvd_add_left_iff mod_0_imp_dvd)
    then have "16 dvd unat n" by (rule dvd_trans [rotated]) simp
    then show ?thesis by simp
  qed
  have len16: "unat ?len mod 16 = 0" 
  proof -
    have "(4096::nat) dvd unat ?len" using B(3) by (simp add: mod_0_imp_dvd)
    then have "16 dvd unat ?len" by (rule dvd_trans [rotated]) simp
    then show ?thesis by simp
  qed
  note G = fits_grown [OF P'(2) ne_e n16 len16 B(2)]
  have n4096: "unat n mod 4096 = 0" using ne_e \<open>unat e mod 4096 = 0\<close> B(3) by (metis mod_add_left_eq mod_add_right_eq add_0_right mod_add_eq)
  let ?h = "\<lambda>h. h\<lparr>heapEnd := n, lastSegment := n, totalSize := totalSize h + (?len + HEADER),
    freeSize := freeSize h + (?len + HEADER)\<rparr>"
  let ?nc = "\<lambda>l p. \<lparr>seg_free = 1, seg_length = l, seg_next = 0, seg_last = p, seg_isStack = 0, seg_signature = HEAP_SIGNATURE\<rparr>"
  define S' where "S' = (if f \<noteq> 0 then (segs w)(n \<mapsto> ?nc (l + ?len - HEADER) b, b \<mapsto> nb\<lparr>seg_next := n\<rparr>)
    else (segs w)(n \<mapsto> ?nc (?len - HEADER) e, e \<mapsto> ne\<lparr>seg_next := n\<rparr>))"
  have "expand_heap pml4 sz h w = ret (?h h, w\<lparr>vm := v, segs := S'\<rparr>)"
    unfolding expand_heap_def Let_def loop' by (auto simp: n el nb nb [symmetric] S'_def)
  moreover have gK: "(?m, 0, 0) # grown n ?len L = (if f = 0 then us @ [(b, fb, lb), (e, f, l), (n, 1, ?len - HEADER)]
      else us @ [(b, fb, lb), (n, 1, l + ?len - HEADER)])"
    using eq [of "[(e, f, l), (n, 1, ?len - HEADER)]"] eq [of "[(n, 1, l + ?len - HEADER)]"] by (simp add: grown_def L del: append_Cons)
  moreover have "seg_path S' 0 ?m ((?m, 0, 0) # grown n ?len L) n 0"
  proof (cases "f = 0")
    case True
    have "seg_path S' 0 ?m ((us @ [(b, fb, lb)]) @ [(e, f, l), (n, 1, ?len - HEADER)]) n 0"
      unfolding S'_def using True P'(1,3) fresh n0 n(2) K
      by (simp del: append_assoc) (rule path_add_last [where e = "lastSegment h"]; simp)
    then show ?thesis unfolding gK using True by simp
  next
    case False
    then show ?thesis unfolding gK S'_def using path_replace_last [OF P'(1,3) fresh [unfolded K] n0 n(1)] by simp
  qed
  moreover have "fits (unat ?m + 48) ((?m, 0, 0) # grown n ?len L)"
    unfolding gK using G by auto
  moreover have "grown n ?len L \<noteq> []" by (simp add: grown_def L)
  ultimately show ?thesis using inv n4096
    by (intro exI [of _ "?h h"] exI [of _ S']) (simp add: heap_inv_def)
qed

lemma unat_align16:
  assumes "unat sz < 2 ^ 62"
  shows "unat (align16 sz) = (unat sz + 15) div 16 * 16"
proof -
  have m: "unat (sz mod 0x10) = unat sz mod 16" by (simp add: unat_mod)
  show ?thesis
  proof (cases "unat sz mod 16 = 0")
    case True
    then have "align16 sz = sz" using m by (simp add: align16_def word_less_nat_alt)
    moreover obtain q where "unat sz = 16 * q" using True by (auto dest: mod_0_imp_dvd)
    ultimately show ?thesis by simp
  next
    case False
    then have "align16 sz = sz - sz mod 0x10 + 0x10" using m by (simp add: align16_def word_less_nat_alt)
    moreover have "unat (sz - sz mod 0x10) = unat sz - unat sz mod 16" by (subst unat_sub) (simp_all add: m word_le_nat_alt)
    ultimately have "unat (align16 sz) = unat sz - unat sz mod 16 + 16" using assms by (simp add: unat_add_small)
    moreover obtain q r where q: "unat sz = 16 * q + r" "r < 16"
      using mult_div_mod_eq [of 16 "unat sz"] mod_less_divisor [of 16 "unat sz"] by (metis zero_less_numeral)
    moreover have "(16 * q + r + 15) div 16 = q + 1" using False q by (intro div_nat_eqI) simp_all
    ultimately show ?thesis by simp
  qed
qed

lemma align16_bounds:
  assumes "unat sz < 2 ^ 62"
  shows "unat (align16 sz) mod 16 = 0" and "unat sz \<le> unat (align16 sz)" and "unat (align16 sz) < 2 ^ 62 + 16"
    and "align16 (align16 sz) = align16 sz" and "sz \<noteq> 0 \<Longrightarrow> align16 sz \<noteq> 0"
proof -
  note u = unat_align16 [OF assms]
  show m: "unat (align16 sz) mod 16 = 0" by (simp add: u)
  show le: "unat sz \<le> unat (align16 sz)" unfolding u by presburger
  have "(unat sz + 15) div 16 * 16 \<le> unat sz + 15" by (rule div_times_less_eq_dividend)
  then show "unat (align16 sz) < 2 ^ 62 + 16" using assms u by simp
  have "unat (align16 sz mod 0x10) = 0" using m by (simp add: unat_mod)
  then show "align16 (align16 sz) = align16 sz" by (subst (1) align16_def) (simp add: word_less_nat_alt)
  show "align16 sz \<noteq> 0" if "sz \<noteq> 0" using that le by (auto simp: word_unat_eq_iff)
qed

text \<open>What a heap needs to grow \<open>k\<close> times for a request of \<open>sz\<close> bytes: frames and address space.\<close>

definition can_grow :: "nat \<Rightarrow> u64 \<Rightarrow> u64 \<Rightarrow> heap \<Rightarrow> kmem \<Rightarrow> bool" where
  "can_grow k pml4 sz h w \<longleftrightarrow> paging_inv (vm w) (cr3 (vm w)) \<and> pml4 = get_pml4 (vm w) \<and>
     4 * k * (unat (expand_length sz) div 4096) \<le> card (free_frames (pmm (vm w))) \<and>
     k * unat (expand_length sz) < unat (heapEnd h)"

lemma expand_heap_ok:
  assumes inv: "heap_inv h (segs w) L" and sz: "unat sz < 2 ^ 62" and cg: "can_grow (Suc k) pml4 sz h w"
  shows "\<exists>h' w' n. expand_heap pml4 sz h w = ret (h', w') \<and> heap_inv h' (segs w') (grown n (expand_length sz) L) \<and>
    mainSegment h' = mainSegment h \<and> can_grow k pml4 sz h' w' \<and> bytes w' = bytes w"
proof -
  let ?p = "unat (expand_length sz) div 4096" and ?is = "map word_of_nat [0..<unat (expand_length sz) div 4096] :: u64 list"
  note B = expand_length_bounds [OF sz]
  have p4096: "4096 * ?p = unat (expand_length sz)" using B(3) by (simp add: mod_0_imp_dvd)
  have he: "unat (heapEnd h) mod 4096 = 0" "heapEnd h \<noteq> 0"
    using inv cg by (auto simp: heap_inv_def can_grow_def)
  have "4 * length ?is \<le> card (free_frames (pmm (vm w)))" "4096 * length ?is < unat (heapEnd h)"
    using cg p4096 by (simp_all add: can_grow_def add_mult_distrib)
  then obtain n v where loop: "iter_res (expand_page pml4 (heap_perms h)) ?is (heapEnd h, vm w) = ret (n, v)"
    and v: "paging_inv v (cr3 v)" "cr3 v = cr3 (vm w)"
      "card (free_frames (pmm (vm w))) \<le> card (free_frames (pmm v)) + 4 * length ?is"
    using expand_loop_ok [of "vm w" pml4 ?is "heapEnd h" "heap_perms h"] he(1) cg by (auto simp: can_grow_def)
  from expand_heap_step [OF inv sz loop] obtain h' S' where
    e: "expand_heap pml4 sz h w = ret (h', w\<lparr>vm := v, segs := S'\<rparr>)" "heap_inv h' S' (grown n (expand_length sz) L)"
      "mainSegment h' = mainSegment h" "heapEnd h' = n" by blast
  have n: "unat n + unat (expand_length sz) = unat (heapEnd h)"
    using expand_loop_addr [OF loop he] p4096 by simp
  have "can_grow k pml4 sz h' (w\<lparr>vm := v, segs := S'\<rparr>)"
    using cg v n e(4) by (auto simp: can_grow_def get_pml4_def algebra_simps)
  with e show ?thesis by (intro exI [of _ h'] exI [of _ "w\<lparr>vm := v, segs := S'\<rparr>"] exI [of _ n]) simp
qed

lemma find_below_main: "find (suitable sz) ((m, 0, 0) # L) = find (suitable sz) L"
  by (simp add: suitable_def)

lemma malloc_unfold:
  assumes "heap_inv h (segs w) L" and "sz \<noteq> 0"
  shows "heap_malloc pml4 sz h w = (case find (suitable (align16 sz)) L of
      Some x \<Rightarrow> take_segment (fst x) (align16 sz) h w
    | None \<Rightarrow> bind_res (expand_heap pml4 (align16 sz) h w) (\<lambda>(h, w). heap_malloc pml4 (align16 sz) h w))"
proof -
  have "find_segment (segs w) (align16 sz) (mainSegment h) = ret (map_option fst (find (suitable (align16 sz)) L))"
    using find_segment_path [OF heap_inv_parts(1) [OF assms(1)] _ heap_inv_parts(3) [OF assms(1)]]
    by (simp only: find_below_main) simp
  then show ?thesis using assms
    by (subst heap_malloc.simps) (simp add: heap_inv_def split: option.splits)
qed

definition allocates :: "heap \<Rightarrow> kmem \<Rightarrow> layout \<Rightarrow> u64 \<Rightarrow> (heap \<times> kmem \<times> u64) res \<Rightarrow> bool" where
  "allocates h w L sz r \<longleftrightarrow> (\<exists>h' w' a L'. r = ret (h', w', a + HEADER) \<and> heap_inv h' (segs w') L' \<and>
     live L' = insert (a + HEADER, sz) (live L) \<and> (a, 0, sz) \<in> set L' \<and> a + HEADER \<notin> fst ` live L \<and>
     bytes w' = bytes w \<and> mainSegment h' = mainSegment h)"

lemma malloc_found:
  assumes "heap_inv h (segs w) L" and "sz \<noteq> 0" and "unat sz < 2 ^ 62" and "x \<in> set L" and "suitable (align16 sz) x"
  shows "allocates h w L (align16 sz) (heap_malloc pml4 sz h w)"
proof -
  obtain y where y: "find (suitable (align16 sz)) L = Some y"
    using assms(4,5) by (metis find_None_iff not_None_eq)
  have "unat (align16 sz) < 2 ^ 63" "unat (align16 sz) mod 16 = 0"
    using align16_bounds [of sz] assms(3) by auto
  moreover have "find (suitable (align16 sz)) ((mainSegment h, 0, 0) # L) = Some y" using y by (simp only: find_below_main)
  ultimately have "allocates h w L (align16 sz) (take_segment (fst y) (align16 sz) h w)"
    using take_segment_ok [OF assms(1), of "align16 sz" y] unfolding allocates_def by metis
  then show ?thesis by (simp add: malloc_unfold [OF assms(1,2)] y)
qed

lemma suitable_grown:
  assumes "L \<noteq> []" and "unat sz < 2 ^ 62"
    and "unat (snd (snd (last L))) + unat (expand_length sz) < 2 ^ 64"
  shows "\<exists>n' l. last (grown n (expand_length sz) L) = (n', 1, l) \<and> grown n (expand_length sz) L \<noteq> [] \<and>
    unat sz \<le> unat l \<and> (fst (snd (last L)) \<noteq> 0 \<longrightarrow> unat l = unat (snd (snd (last L))) + unat (expand_length sz) - 48)"
proof -
  obtain e f l where l: "last L = (e, f, l)" by (cases "last L")
  note B = expand_length_bounds [OF assms(2)]
  have "unat (l + expand_length sz) = unat l + unat (expand_length sz)" using assms(3) l by (intro unat_add_small) simp
  then have "unat (l + expand_length sz - HEADER) = unat l + unat (expand_length sz) - 48"
    using B(2) by (subst unat_sub) (simp_all add: word_le_nat_alt)
  moreover have "unat (expand_length sz - HEADER) = unat (expand_length sz) - 48"
    using B(2) by (subst unat_sub) (simp_all add: word_le_nat_alt)
  ultimately show ?thesis using B(1) l by (auto simp: grown_def)
qed

lemma last_length_small:
  assumes "heap_inv h S L" and "k * unat len < unat (heapEnd h)" and "1 \<le> k"
  shows "unat (snd (snd (last L))) + unat len < 2 ^ 64"
proof -
  from assms(1) obtain us e f l where L: "L = us @ [(e, f, l)]"
    unfolding heap_inv_def by (metis append_butlast_last_id prod_cases3)
  have "seg_path S 0 (mainSegment h) ((mainSegment h, 0, 0) # us @ [(e, f, l)]) (lastSegment h) 0"
    using heap_inv_parts(1) [OF assms(1)] L by simp
  then have "lastSegment h = e" by (auto simp: seg_path_append)
  then have he: "heapEnd h = e" using assms(1) by (simp add: heap_inv_def)
  have "unat len \<le> k * unat len" using assms(3) by (cases k) auto
  then have "unat len < unat e" using assms(2) unfolding he by (rule le_less_trans)
  moreover have "unat e + 48 + unat l \<le> unat (mainSegment h) + 48"
    using fits_below [OF heap_inv_parts(2) [OF assms(1)], of e f l] L by simp
  moreover have "unat (mainSegment h) + 48 < 2 ^ 64" using assms(1) by (simp add: heap_inv_def)
  ultimately show ?thesis using L by simp
qed

lemma allocates_grown:
  assumes "L \<noteq> []" and "allocates h' w' (grown n len L) sz r" and "bytes w' = bytes w" and "mainSegment h' = mainSegment h"
  shows "allocates h w L sz r"
  using assms by (simp add: allocates_def live_grown)

lemma malloc_grow:
  assumes inv: "heap_inv h (segs w) L" and sz: "sz \<noteq> 0" "unat (align16 sz) < 2 ^ 62" "unat sz < 2 ^ 62"
    and none: "\<not> (\<exists>x \<in> set L. suitable (align16 sz) x)" and cg: "can_grow (Suc k) pml4 (align16 sz) h w"
    and next_ok: "\<And>h' w' n l. heap_inv h' (segs w') (grown n (expand_length (align16 sz)) L) \<Longrightarrow>
      can_grow k pml4 (align16 sz) h' w' \<Longrightarrow> last (grown n (expand_length (align16 sz)) L) = (n, 1, l) \<Longrightarrow>
      unat (align16 sz) \<le> unat l \<Longrightarrow>
      (fst (snd (last L)) \<noteq> 0 \<Longrightarrow> unat l = unat (snd (snd (last L))) + unat (expand_length (align16 sz)) - 48) \<Longrightarrow>
      allocates h' w' (grown n (expand_length (align16 sz)) L) (align16 sz) (heap_malloc pml4 (align16 sz) h' w')"
  shows "allocates h w L (align16 sz) (heap_malloc pml4 sz h w)"
proof -
  let ?len = "expand_length (align16 sz)"
  have L0: "L \<noteq> []" using inv by (simp add: heap_inv_def)
  have f: "find (suitable (align16 sz)) L = None" using none by (auto simp: find_None_iff)
  obtain h1 w1 n where e: "expand_heap pml4 (align16 sz) h w = ret (h1, w1)" "heap_inv h1 (segs w1) (grown n ?len L)"
    "mainSegment h1 = mainSegment h" "can_grow k pml4 (align16 sz) h1 w1" "bytes w1 = bytes w"
    using expand_heap_ok [OF inv sz(2) cg] by blast
  have "Suc k * unat ?len < unat (heapEnd h)" using cg by (simp add: can_grow_def)
  then have "unat (snd (snd (last L))) + unat ?len < 2 ^ 64" by (rule last_length_small [OF inv]) simp
  from suitable_grown [OF L0 sz(2) this, of n] obtain n' l where
    l: "last (grown n ?len L) = (n', 1, l)" "unat (align16 sz) \<le> unat l"
      "fst (snd (last L)) \<noteq> 0 \<longrightarrow> unat l = unat (snd (snd (last L))) + unat ?len - 48" by blast
  have "n' = n" using l(1) by (auto simp: grown_def split: prod.splits if_splits)
  with l next_ok [OF e(2,4)] have "allocates h1 w1 (grown n ?len L) (align16 sz) (heap_malloc pml4 (align16 sz) h1 w1)"
    by auto
  then show ?thesis using allocates_grown [OF L0 _ e(5,3)] by (simp add: malloc_unfold [OF inv sz(1)] f e(1))
qed

lemma heap_malloc_ok:
  assumes inv: "heap_inv h (segs w) L" and sz: "sz \<noteq> 0" "unat sz < 2 ^ 61" and cg: "can_grow 2 pml4 (align16 sz) h w"
  shows "allocates h w L (align16 sz) (heap_malloc pml4 sz h w)"
proof (cases "\<exists>x \<in> set L. suitable (align16 sz) x")
  case True
  then show ?thesis using malloc_found [OF inv sz(1)] sz(2) by auto
next
  case False
  let ?A = "align16 sz" and ?len = "expand_length (align16 sz)"
  have A: "?A \<noteq> 0" "align16 ?A = ?A" "unat ?A < 2 ^ 62"
    using align16_bounds [of sz] sz unat_align16 [of sz] by auto
  note B = expand_length_bounds [OF A(3)]
  show ?thesis
  proof (rule malloc_grow [OF inv sz(1) A(3) _ False, of 1])
    show "unat sz < 2 ^ 62" using sz(2) by simp
    show "can_grow (Suc 1) pml4 ?A h w" using cg by (simp add: numeral_2_eq_2)
    fix h1 n1 l1 and w1 :: kmem
    assume h1: "heap_inv h1 (segs w1) (grown n1 ?len L)" "can_grow 1 pml4 ?A h1 w1"
      "last (grown n1 ?len L) = (n1, 1, l1)" "unat ?A \<le> unat l1"
    show "allocates h1 w1 (grown n1 ?len L) ?A (heap_malloc pml4 ?A h1 w1)"
    proof (cases "\<exists>x \<in> set (grown n1 ?len L). suitable ?A x")
      case True
      then show ?thesis using malloc_found [OF h1(1) A(1) A(3)] A(2) by auto
    next
      case no: False
      have "(n1, 1, l1) \<in> set (grown n1 ?len L)" using h1(1,3) last_in_set unfolding heap_inv_def by metis
      with no have "\<not> suitable ?A (n1, 1, l1)" by blast
      then have gt: "unat ?A < unat l1" using h1(4) by (auto simp: suitable_def word_unat_eq_iff)
      show ?thesis
      proof (rule malloc_grow [OF h1(1) A(1), unfolded A(2), OF A(3) A(3) no, of 0])
        show "can_grow (Suc 0) pml4 ?A h1 w1" using h1(2) by simp
        fix h2 n2 l2 and w2 :: kmem
        assume h2: "heap_inv h2 (segs w2) (grown n2 ?len (grown n1 ?len L))"
          "last (grown n2 ?len (grown n1 ?len L)) = (n2, 1, l2)"
          "fst (snd (last (grown n1 ?len L))) \<noteq> 0 \<Longrightarrow>
             unat l2 = unat (snd (snd (last (grown n1 ?len L)))) + unat ?len - 48"
        have "unat ?A + 48 < unat l2" using h2(3) h1(3) gt B(2) by simp
        then have "suitable ?A (n2, 1, l2)" using A(3) by (simp add: suitable_def word_less_nat_alt unat_add_HEADER)
        moreover have "(n2, 1, l2) \<in> set (grown n2 ?len (grown n1 ?len L))" using h2(1,2) last_in_set unfolding heap_inv_def by metis
        ultimately show "allocates h2 w2 (grown n2 ?len (grown n1 ?len L)) ?A (heap_malloc pml4 ?A h2 w2)"
          using malloc_found [OF h2(1) A(1) A(3)] A(2) by auto
      qed
    qed
  qed
qed

subsection \<open>Whatever the heap returns\<close>

lemma expand_heap_ret:
  assumes inv: "heap_inv h (segs w) L" and sz: "unat sz < 2 ^ 62" and r: "expand_heap pml4 sz h w = ret (h', w')"
  shows "\<exists>n. heap_inv h' (segs w') (grown n (expand_length sz) L) \<and> bytes w' = bytes w \<and> mainSegment h' = mainSegment h"
proof -
  let ?len = "expand_length sz"
  have pages: "unat (?len div PAGESIZE) = unat ?len div 4096" "?len mod PAGESIZE = 0"
    using expand_length_bounds(3) [OF sz] by (simp_all add: unat_div word_unat_eq_iff unat_mod)
  from r obtain n v where "for_u64 (if ?len mod PAGESIZE \<noteq> 0 then ?len div PAGESIZE + 1 else ?len div PAGESIZE)
      (expand_page pml4 (heap_perms h)) (heapEnd h, vm w) = ret (n, v)"
    unfolding expand_heap_def Let_def by (auto simp: bind_res_eq_ret)
  then have "iter_res (expand_page pml4 (heap_perms h)) (map word_of_nat [0..<unat ?len div 4096]) (heapEnd h, vm w) = ret (n, v)"
    using pages by (simp add: for_u64_def)
  from expand_heap_step [OF inv sz this] r show ?thesis by auto
qed

definition malloc_sound :: "u64 \<Rightarrow> heap \<Rightarrow> kmem \<Rightarrow> kerror + heap \<times> kmem \<times> u64 \<Rightarrow> bool" where
  "malloc_sound sz h w r \<longleftrightarrow> (\<forall>L x. heap_inv h (segs w) L \<longrightarrow> sz \<noteq> 0 \<longrightarrow> unat sz < 2 ^ 62 \<longrightarrow> unat (align16 sz) < 2 ^ 62 \<longrightarrow>
     r = Inr x \<longrightarrow> allocates h w L (align16 sz) (Some r))"

lemma heap_malloc_sound:
  assumes "heap_malloc pml4 sz h w = Some r"
  shows "malloc_sound sz h w r"
proof (rule heap_malloc.raw_induct [where P = "\<lambda>pml4 sz h w r. malloc_sound sz h w r", OF _ assms])
  fix malloc pml4 sz h w r
  assume IH: "\<And>pml4 sz h w r. malloc pml4 sz h w = Some r \<Longrightarrow> malloc_sound sz h w r"
    and eq: "(if ready h = 0 then ret (h, w, 0) else if sz = 0 then ret (h, w, 0)
      else bind_res (find_segment (segs w) (align16 sz) (mainSegment h)) (\<lambda>r.
        case r of Some cur \<Rightarrow> take_segment cur (align16 sz) h w
        | None \<Rightarrow> bind_res (expand_heap pml4 (align16 sz) h w) (\<lambda>hw. case hw of (h, w) \<Rightarrow> malloc pml4 (align16 sz) h w))) = Some r"
  show "malloc_sound sz h w r"
    unfolding malloc_sound_def
  proof (intro allI impI)
    fix L x assume inv: "heap_inv h (segs w) L" and sz: "sz \<noteq> 0" "unat sz < 2 ^ 62" "unat (align16 sz) < 2 ^ 62" and r: "r = Inr x"
    note B = align16_bounds [OF sz(2)]
    have rd: "ready h \<noteq> 0" using inv by (simp add: heap_inv_def)
    have fs: "find_segment (segs w) (align16 sz) (mainSegment h) = ret (map_option fst (find (suitable (align16 sz)) L))"
      using find_segment_path [OF heap_inv_parts(1) [OF inv] _ heap_inv_parts(3) [OF inv]]
      by (simp only: find_below_main) simp
    show "allocates h w L (align16 sz) (Some r)"
    proof (cases "find (suitable (align16 sz)) L")
      case (Some y)
      then have "y \<in> set L" "suitable (align16 sz) y" by (auto simp: find_Some_iff)
      from malloc_found [OF inv sz(1,2) this] eq Some rd sz(1) fs show ?thesis
        by (simp add: malloc_unfold [OF inv sz(1)])
    next
      case None
      with eq rd sz(1) fs have "bind_res (expand_heap pml4 (align16 sz) h w) (\<lambda>hw. case hw of (h, w) \<Rightarrow> malloc pml4 (align16 sz) h w) = ret x"
        by (simp add: r)
      then obtain h1 w1 where e: "expand_heap pml4 (align16 sz) h w = ret (h1, w1)" "malloc pml4 (align16 sz) h1 w1 = ret x"
        by (auto simp: bind_res_eq_ret)
      from expand_heap_ret [OF inv sz(3) e(1)] obtain n where g: "heap_inv h1 (segs w1) (grown n (expand_length (align16 sz)) L)"
        "bytes w1 = bytes w" "mainSegment h1 = mainSegment h" by blast
      from IH [OF e(2)] g(1) B sz have "allocates h1 w1 (grown n (expand_length (align16 sz)) L) (align16 sz) (ret x)"
        by (auto simp: malloc_sound_def)
      then show ?thesis unfolding r by (rule allocates_grown [rotated]) (use g inv in \<open>auto simp: heap_inv_def\<close>)
    qed
  qed
qed

lemma live_disjoint_fits:
  assumes "fits limit L" and "limit < 2 ^ 64" and "(a, f, l) \<in> set L" and "(b, g, m) \<in> set L" and "a \<noteq> b"
  shows "unat a + 48 + unat l \<le> unat b \<or> unat b + 48 + unat m \<le> unat a"
  using assms
proof (induction L arbitrary: limit)
  case (Cons x L)
  obtain c k n where x: "x = (c, k, n)" by (cases x)
  have F: "fits (unat c) L" using Cons.prems(1) x by simp
  show ?case
  proof (cases "(a, f, l) = x \<or> (b, g, m) = x")
    case True
    then show ?thesis using Cons.prems x fits_below [OF F, of b g m] fits_below [OF F, of a f l] by auto
  next
    case False
    then show ?thesis using Cons.IH [OF F] Cons.prems unat_less_64 [of c] by auto
  qed
qed simp

lemma live_disjoint:
  assumes inv: "heap_inv h S L" and "(p, l) \<in> live L" and "(q, m) \<in> live L" and "p \<noteq> q"
  shows "unat p + unat l \<le> unat q \<or> unat q + unat m \<le> unat p"
proof -
  from assms(2,3) obtain a b where a: "p = a + HEADER" "(a, 0, l) \<in> set L" and b: "q = b + HEADER" "(b, 0, m) \<in> set L"
    by (auto simp: live_def)
  have lim: "unat (mainSegment h) + 48 < 2 ^ 64" using inv by (simp add: heap_inv_def)
  have F: "fits (unat (mainSegment h)) L" using heap_inv_parts(2) [OF inv] by simp
  have "unat a + 48 + unat l \<le> unat (mainSegment h)" "unat b + 48 + unat m \<le> unat (mainSegment h)"
    using fits_below [OF F] a(2) b(2) by auto
  then have u: "unat p = unat a + 48" "unat q = unat b + 48"
    unfolding a(1) b(1) using lim by (subst unat_add_small; simp)+
  have "a \<noteq> b" using assms(4) a b by auto
  then have "unat a + 48 + unat l \<le> unat b \<or> unat b + 48 + unat m \<le> unat a"
    using live_disjoint_fits [OF F _ a(2) b(2)] lim by auto
  then show ?thesis using u by auto
qed

subsection \<open>The allocator interface\<close>

text \<open>
  A client asks for blocks and gives back blocks it was given. \<open>alloc_trace\<close> runs a sequence of such
  operations and keeps the list of the blocks the client owns: address and requested size.
\<close>

datatype heap_op = Malloc u64 | Free nat

fun alloc_trace :: "(u64 \<Rightarrow> 's \<Rightarrow> ('s \<times> u64) res) \<Rightarrow> (u64 \<Rightarrow> 's \<Rightarrow> 's res) \<Rightarrow> heap_op list \<Rightarrow> 's \<Rightarrow> (u64 \<times> u64) list \<Rightarrow> ('s \<times> (u64 \<times> u64) list) res" where
  "alloc_trace alloc release [] s bs = ret (s, bs)"
| "alloc_trace alloc release (Malloc sz # ops) s bs =
     bind_res (alloc sz s) (\<lambda>(s, p). alloc_trace alloc release ops s ((p, sz) # bs))"
| "alloc_trace alloc release (Free i # ops) s bs =
     (if i < length bs
      then bind_res (release (fst (bs ! i)) s) (\<lambda>s. alloc_trace alloc release ops s (take i bs @ drop (Suc i) bs))
      else fault)"

definition request_ok :: "heap_op \<Rightarrow> bool" where
  "request_ok x = (case x of Malloc sz \<Rightarrow> sz \<noteq> 0 \<and> unat sz < 2 ^ 61 | Free i \<Rightarrow> True)"

definition disjoint_blocks :: "u64 \<times> u64 \<Rightarrow> u64 \<times> u64 \<Rightarrow> bool" where
  "disjoint_blocks x y \<longleftrightarrow> unat (fst x) + unat (snd x) \<le> unat (fst y) \<or> unat (fst y) + unat (snd y) \<le> unat (fst x)"

locale block_allocator =
  fixes inv :: "'s \<Rightarrow> (u64 \<times> u64) set \<Rightarrow> bool"
    and alloc :: "u64 \<Rightarrow> 's \<Rightarrow> ('s \<times> u64) res"
    and release :: "u64 \<Rightarrow> 's \<Rightarrow> 's res"
  assumes blocks_disjoint: "inv s B \<Longrightarrow> x \<in> B \<Longrightarrow> y \<in> B \<Longrightarrow> fst x \<noteq> fst y \<Longrightarrow> disjoint_blocks x y"
    and alloc_gives: "inv s B \<Longrightarrow> sz \<noteq> 0 \<Longrightarrow> unat sz < 2 ^ 61 \<Longrightarrow> alloc sz s = ret (s', p) \<Longrightarrow>
      \<exists>l. inv s' (insert (p, l) B) \<and> p \<notin> fst ` B \<and> unat sz \<le> unat l"
    and release_takes: "inv s B \<Longrightarrow> (p, l) \<in> B \<Longrightarrow> \<exists>s'. release p s = ret s' \<and> inv s' (B - {(p, l)})"
begin

definition owns :: "'s \<Rightarrow> (u64 \<times> u64) list \<Rightarrow> bool" where
  "owns s bs \<longleftrightarrow> (\<exists>B. inv s B \<and> distinct (map fst bs) \<and> (\<forall>x \<in> set bs. \<exists>l. (fst x, l) \<in> B \<and> unat (snd x) \<le> unat l))"

lemma owns_disjoint:
  assumes "owns s bs" and "i < length bs" and "j < length bs" and "i \<noteq> j"
  shows "disjoint_blocks (bs ! i) (bs ! j)"
proof -
  from assms(1) obtain B where B: "inv s B" "distinct (map fst bs)"
    "\<And>x. x \<in> set bs \<Longrightarrow> \<exists>l. (fst x, l) \<in> B \<and> unat (snd x) \<le> unat l" by (auto simp: owns_def)
  obtain l m where l: "(fst (bs ! i), l) \<in> B" "unat (snd (bs ! i)) \<le> unat l"
    and m: "(fst (bs ! j), m) \<in> B" "unat (snd (bs ! j)) \<le> unat m"
    using B(3) assms(2,3) by (meson nth_mem)
  have "fst (bs ! i) \<noteq> fst (bs ! j)" using B(2) assms(2-4) by (auto simp: distinct_conv_nth)
  with blocks_disjoint [OF B(1) l(1) m(1)] l(2) m(2) show ?thesis by (auto simp: disjoint_blocks_def)
qed

lemma owns_alloc:
  assumes "owns s bs" and "sz \<noteq> 0" and "unat sz < 2 ^ 61" and "alloc sz s = ret (s', p)"
  shows "owns s' ((p, sz) # bs)"
proof -
  from assms(1) obtain B where B: "inv s B" "distinct (map fst bs)"
    "\<And>x. x \<in> set bs \<Longrightarrow> \<exists>l. (fst x, l) \<in> B \<and> unat (snd x) \<le> unat l" by (auto simp: owns_def)
  from alloc_gives [OF B(1) assms(2-)] obtain l where l: "inv s' (insert (p, l) B)" "p \<notin> fst ` B" "unat sz \<le> unat l" by blast
  have "p \<notin> set (map fst bs)" using l(2) B(3) by force
  moreover have "\<exists>m. (fst x, m) \<in> insert (p, l) B \<and> unat (snd x) \<le> unat m" if "x \<in> set ((p, sz) # bs)" for x
    using that l(3) B(3) [of x] by auto
  ultimately show ?thesis using l(1) B(2) unfolding owns_def by (intro exI [of _ "insert (p, l) B"]) auto
qed

lemma owns_release:
  assumes "owns s bs" and "i < length bs" and "release (fst (bs ! i)) s = ret s'"
  shows "owns s' (take i bs @ drop (Suc i) bs)"
proof -
  from assms(1) obtain B where B: "inv s B" "distinct (map fst bs)"
    "\<And>x. x \<in> set bs \<Longrightarrow> \<exists>l. (fst x, l) \<in> B \<and> unat (snd x) \<le> unat l" by (auto simp: owns_def)
  obtain l where l: "(fst (bs ! i), l) \<in> B" using B(3) assms(2) by (meson nth_mem)
  from release_takes [OF B(1) l] assms(3) have s': "inv s' (B - {(fst (bs ! i), l)})" by auto
  have bs: "bs = take i bs @ bs ! i # drop (Suc i) bs" using assms(2) by (rule id_take_nth_drop)
  have d: "distinct (map fst (take i bs @ bs ! i # drop (Suc i) bs))" using B(2) by (simp only: bs [symmetric])
  have "\<exists>m. (fst x, m) \<in> B - {(fst (bs ! i), l)} \<and> unat (snd x) \<le> unat m" if "x \<in> set (take i bs @ drop (Suc i) bs)" for x
  proof -
    have "x \<in> set bs" using that by (auto dest: in_set_takeD in_set_dropD)
    moreover have "fst (bs ! i) \<notin> fst ` set (take i bs @ drop (Suc i) bs)" using d by (simp add: image_Un)
    then have "fst x \<noteq> fst (bs ! i)" using that by (metis imageI)
    ultimately show ?thesis using B(3) by auto
  qed
  then show ?thesis using s' d unfolding owns_def by (intro exI [of _ "B - {(fst (bs ! i), l)}"]) auto
qed

lemma trace_owns:
  assumes "alloc_trace alloc release ops s bs = ret (s', bs')" and "owns s bs" and "\<forall>x \<in> set ops. request_ok x"
  shows "owns s' bs'"
  using assms
proof (induction ops arbitrary: s bs)
  case (Cons x ops)
  show ?case
  proof (cases x)
    case (Malloc sz)
    with Cons.prems(1) obtain s1 p where a: "alloc sz s = ret (s1, p)" "alloc_trace alloc release ops s1 ((p, sz) # bs) = ret (s', bs')"
      by (auto simp: bind_res_eq_ret)
    from owns_alloc [OF Cons.prems(2) _ _ a(1)] Cons.prems(3) Malloc have "owns s1 ((p, sz) # bs)" by (simp add: request_ok_def)
    from Cons.IH [OF a(2) this] Cons.prems(3) show ?thesis by simp
  next
    case (Free i)
    with Cons.prems(1) obtain s1 where a: "i < length bs" "release (fst (bs ! i)) s = ret s1"
      "alloc_trace alloc release ops s1 (take i bs @ drop (Suc i) bs) = ret (s', bs')"
      by (auto simp: bind_res_eq_ret split: if_splits)
    from Cons.IH [OF a(3) owns_release [OF Cons.prems(2) a(1,2)]] Cons.prems(3) show ?thesis by simp
  qed
qed simp

text \<open>Giving back a block the client owns always succeeds.\<close>

lemma owned_release_returns:
  assumes "owns s bs" and "i < length bs"
  shows "\<exists>s'. release (fst (bs ! i)) s = ret s'"
proof -
  from assms obtain B l where "inv s B" "(fst (bs ! i), l) \<in> B" unfolding owns_def by (meson nth_mem)
  from release_takes [OF this] show ?thesis by blast
qed

end

definition malloc_op :: "u64 \<Rightarrow> u64 \<Rightarrow> heap \<times> kmem \<Rightarrow> ((heap \<times> kmem) \<times> u64) res" where
  "malloc_op pml4 sz s = bind_res (heap_malloc pml4 sz (fst s) (snd s)) (\<lambda>(h, w, p). ret ((h, w), p))"

definition release_op :: "u64 \<Rightarrow> heap \<times> kmem \<Rightarrow> (heap \<times> kmem) res" where
  "release_op p s = heap_free p (fst s) (snd s)"

definition blocks_of :: "heap \<times> kmem \<Rightarrow> (u64 \<times> u64) set \<Rightarrow> bool" where
  "blocks_of s B \<longleftrightarrow> (\<exists>L. heap_inv (fst s) (segs (snd s)) L \<and> live L = B)"

lemma align16_small:
  assumes "unat sz < 2 ^ 61"
  shows "unat (align16 sz) < 2 ^ 62"
proof -
  have "(unat sz + 15) div 16 * 16 \<le> unat sz + 15" by (rule div_times_less_eq_dividend)
  then show ?thesis using assms unat_align16 [of sz] by simp
qed

lemma malloc_opD: "malloc_op pml4 sz s = ret (s', p) \<Longrightarrow> heap_malloc pml4 sz (fst s) (snd s) = ret (fst s', snd s', p)"
  by (auto simp: malloc_op_def bind_res_eq_ret)

lemma malloc_ret_allocates:
  assumes "heap_inv h (segs w) L" and "sz \<noteq> 0" and "unat sz < 2 ^ 61" and "heap_malloc pml4 sz h w = ret r"
  shows "allocates h w L (align16 sz) (ret r)"
proof -
  have "unat sz < 2 ^ 62" using assms(3) by simp
  with heap_malloc_sound [OF assms(4)] assms(1,2) align16_small [OF assms(3)] show ?thesis
    unfolding malloc_sound_def by blast
qed

interpretation kernel_heap: block_allocator blocks_of "malloc_op pml4" release_op for pml4
proof
  fix s :: "heap \<times> kmem" and B x y
  assume B: "blocks_of s B" and x: "x \<in> B" "y \<in> B" "fst x \<noteq> fst y"
  from B obtain L where L: "heap_inv (fst s) (segs (snd s)) L" "live L = B" by (auto simp: blocks_of_def)
  show "disjoint_blocks x y"
    using live_disjoint [OF L(1), of "fst x" "snd x" "fst y" "snd y"] x L(2) by (simp add: disjoint_blocks_def)
next
  fix s :: "heap \<times> kmem" and B sz s' p
  assume B: "blocks_of s B" and sz: "sz \<noteq> 0" "unat sz < 2 ^ 61" and r: "malloc_op pml4 sz s = ret (s', p)"
  from B obtain L where L: "heap_inv (fst s) (segs (snd s)) L" "live L = B" by (auto simp: blocks_of_def)
  have "allocates (fst s) (snd s) L (align16 sz) (ret (fst s', snd s', p))"
    by (rule malloc_ret_allocates [OF L(1) sz malloc_opD [OF r]])
  then obtain L' where L': "heap_inv (fst s') (segs (snd s')) L'" "live L' = insert (p, align16 sz) (live L)" "p \<notin> fst ` live L"
    by (auto simp: allocates_def)
  have "unat sz \<le> unat (align16 sz)" by (rule align16_bounds(2)) (use sz(2) in simp)
  with L' L(2) show "\<exists>l. blocks_of s' (insert (p, l) B) \<and> p \<notin> fst ` B \<and> unat sz \<le> unat l"
    unfolding blocks_of_def L(2) [symmetric] by (intro exI [of _ "align16 sz"] conjI exI [of _ L']) simp_all
next
  fix s :: "heap \<times> kmem" and B p l
  assume B: "blocks_of s B" "(p, l) \<in> B"
  then obtain L where L: "heap_inv (fst s) (segs (snd s)) L" "live L = B" by (auto simp: blocks_of_def)
  have "(p, l) \<in> live L" using B(2) L(2) by simp
  from heap_free_ok [OF L(1) this] obtain h' w' L' where "heap_free p (fst s) (snd s) = ret (h', w')"
    "heap_inv h' (segs w') L'" "live L' = live L - {(p, l)}" by (elim exE conjE)
  then show "\<exists>s'. release_op p s = ret s' \<and> blocks_of s' (B - {(p, l)})"
    unfolding blocks_of_def release_op_def L(2) [symmetric] by (intro exI [of _ "(h', w')"] conjI exI [of _ L']) simp_all
qed

subsection \<open>Freeing twice, resizing, starting\<close>

lemma MergeThisToNext_zero: "MergeThisToNext a S = ret S' \<Longrightarrow> S' a = Some zero_header"
  by (auto simp: MergeThisToNext_def Let_def bind_res_eq_ret)

definition unfreeable :: "heap_segment_header option \<Rightarrow> bool" where
  "unfreeable o' \<longleftrightarrow> (\<exists>x. o' = Some x \<and> (seg_signature x \<noteq> HEAP_SIGNATURE \<or> seg_free x \<noteq> 0))"

lemma unfreeable_zero: "unfreeable (Some zero_header)"
  by (simp add: unfreeable_def zero_header_def HEAP_SIGNATURE_def)

lemma modify_unfreeable:
  assumes "modify p f S = ret S'" and "unfreeable (S a)" and "\<And>y. seg_signature (f y) = seg_signature y \<and> seg_free (f y) = seg_free y"
  shows "unfreeable (S' a)"
  using assms by (auto simp: modify_def bind_res_eq_ret unfreeable_def deref_def split: option.splits)

lemma MergeLastToThis_unfreeable:
  assumes "MergeLastToThis a S = ret S'" and "unfreeable (S a)"
  shows "unfreeable (S' a)"
proof -
  from assms(1) obtain q and l :: heap_segment_header and S1 S2 where m: "modify a (\<lambda>x. x\<lparr>seg_length := seg_length x + (seg_length l + HEADER), seg_last := seg_last l\<rparr>) S = ret S1"
    "modify (seg_last l) (\<lambda>y. y\<lparr>seg_next := a\<rparr>) S1 = ret S2" "S' = S2(q \<mapsto> zero_header)"
    unfolding MergeLastToThis_def Let_def bind_res_eq_ret by (elim exE conjE) (erule that, assumption, blast)
  have "unfreeable (S1 a)" by (rule modify_unfreeable [OF m(1) assms(2)]) simp
  then have "unfreeable (S2 a)" by (rule modify_unfreeable [OF m(2)]) simp
  then show ?thesis by (simp add: m(3) unfreeable_zero)
qed

lemma merge_free_unfreeable:
  assumes "merge_free a x S = ret S'" and "unfreeable (S a)"
  shows "unfreeable (S' a)"
  using assms MergeLastToThis_unfreeable MergeThisToNext_zero unfreeable_zero
  by (auto simp: merge_free_def MergeLastAndThisToNext_def bind_res_eq_ret split: if_splits)

lemma live_lookup:
  assumes "heap_inv h S L" and "(p, l) \<in> live L"
  shows "\<exists>x. S (p - HEADER) = Some x \<and> seg_length x = l" and "p \<noteq> 0"
proof -
  from assms(2) obtain a where a: "p = a + HEADER" "(a, 0, l) \<in> set L" by (auto simp: live_def)
  note P = heap_inv_parts [OF assms(1)]
  show "\<exists>x. S (p - HEADER) = Some x \<and> seg_length x = l"
    using seg_path_dom [OF P(1), of a 0 l] a by auto
  have F: "fits (unat (mainSegment h)) L" using P(2) by simp
  have "unat a + 48 \<le> unat (mainSegment h)" using fits_below [OF F a(2)] by simp
  then have "unat a + 48 < 18446744073709551616" using unat_less_64 [of "mainSegment h"] by linarith
  then have "unat p = unat a + 48" unfolding a(1) by (subst unat_add_small) simp_all
  then show "p \<noteq> 0" by auto
qed

definition demo_heap :: heap where
  "demo_heap = \<lparr>heapEnd = 0x10000000, lastStack = 0x20000000, lastSegment = 0x10000000, mainSegment = 0x10000FD0,
     totalSize = 4096, usedSize = 0x7D0, freeSize = 0x800, isKernel = 1, ready = 1,
     heap_lock = \<lparr>sl_flags = 0, sl_mut = False\<rparr>, stack_lock = \<lparr>sl_flags = 0, sl_mut = False\<rparr>\<rparr>"

definition demo_segments :: "u64 \<rightharpoonup> heap_segment_header" where
  "demo_segments = [0x10000FD0 \<mapsto> \<lparr>seg_free = 0, seg_length = 0, seg_next = 0x10000800, seg_last = 0, seg_isStack = 0, seg_signature = HEAP_SIGNATURE\<rparr>,
     0x10000800 \<mapsto> \<lparr>seg_free = 0, seg_length = 0x7A0, seg_next = 0x10000000, seg_last = 0x10000FD0, seg_isStack = 0, seg_signature = HEAP_SIGNATURE\<rparr>,
     0x10000000 \<mapsto> \<lparr>seg_free = 1, seg_length = 0x7D0, seg_next = 0, seg_last = 0x10000800, seg_isStack = 0, seg_signature = HEAP_SIGNATURE\<rparr>]"

definition demo_kmem :: kmem where
  "demo_kmem = \<lparr>segs = demo_segments, bytes = \<lambda>_. 0, vm = demo_paging, rflags = 0x200\<rparr>"

definition demo_layout :: layout where
  "demo_layout = [(0x10000800, 0, 0x7A0), (0x10000000, 1, 0x7D0)]"

lemma demo_heap_inv: "heap_inv demo_heap (segs demo_kmem) demo_layout"
  by (simp add: heap_inv_def demo_heap_def demo_kmem_def demo_segments_def demo_layout_def)

lemma demo_heap_live: "(0x10000830, 0x7A0) \<in> live demo_layout"
  by (simp add: demo_layout_def live_Cons HEADER_def)

lemma demo_can_grow: "can_grow 2 (get_pml4 demo_paging) (align16 100) demo_heap demo_kmem"
proof -
  have e: "unat (expand_length (align16 100)) = 4096" by (simp add: align16_def expand_length_def HEADER_def Let_def)
  have "card {1, 2, 3, 4, 5, 6, 7, 8 :: u64} \<le> card (free_frames (pmm demo_paging))"
    by (rule card_mono) (auto simp: demo_paging_def free_frames_def)
  then have "8 \<le> card (free_frames (pmm demo_paging))" by simp
  moreover have "cr3 demo_paging = 0x1000" "heapEnd demo_heap = 0x10000000" "vm demo_kmem = demo_paging"
    by (simp_all add: demo_paging_def demo_heap_def demo_kmem_def)
  ultimately show ?thesis unfolding can_grow_def e using demo_paging_inv by simp
qed

subsection \<open>Properties\<close>

text \<open>C5: a request of a non-zero size below 2^61 on a heap with room to grow returns: \<^verbatim>\<open>_malloc\<close> hands
  out a block at least as big as asked for that overlaps no block in use, leaves every other block and all
  block contents as they were, and keeps the segment list well formed.\<close>

theorem heap_malloc_fresh:
  assumes "heap_inv h (segs w) L" and "sz \<noteq> 0" and "unat sz < 2 ^ 61" and "can_grow 2 pml4 (align16 sz) h w"
  shows "\<exists>h' w' p l L'. heap_malloc pml4 sz h w = ret (h', w', p) \<and> heap_inv h' (segs w') L' \<and>
    live L' = insert (p, l) (live L) \<and> sz \<le> l \<and> p \<notin> fst ` live L \<and> bytes w' = bytes w \<and>
    (\<forall>q m. (q, m) \<in> live L \<longrightarrow> unat p + unat l \<le> unat q \<or> unat q + unat m \<le> unat p)"
proof -
  from heap_malloc_ok [OF assms] obtain h' w' a L' where
    r: "heap_malloc pml4 sz h w = ret (h', w', a + HEADER)" "heap_inv h' (segs w') L'"
      "live L' = insert (a + HEADER, align16 sz) (live L)" "a + HEADER \<notin> fst ` live L" "bytes w' = bytes w"
    unfolding allocates_def by (elim exE conjE)
  have "unat (a + HEADER) + unat (align16 sz) \<le> unat q \<or> unat q + unat m \<le> unat (a + HEADER)" if "(q, m) \<in> live L" for q m
  proof (rule live_disjoint [OF r(2)])
    show "(a + HEADER, align16 sz) \<in> live L'" "(q, m) \<in> live L'" using r(3) that by auto
    show "a + HEADER \<noteq> q" using r(4) that by force
  qed
  moreover have "sz \<le> align16 sz" using align16_bounds(2) [of sz] assms(3) by (simp add: word_le_nat_alt)
  ultimately show ?thesis using r
    by (intro exI [of _ h'] exI [of _ w'] exI [of _ "a + HEADER"] exI [of _ "align16 sz"] exI [of _ L']) blast
qed

theorem heap_malloc_fresh_witness:
  "\<exists>h w p (l :: u64). heap_malloc (get_pml4 demo_paging) 100 demo_heap demo_kmem = ret (h, w, p) \<and> 100 \<le> l \<and>
    (unat p + unat l \<le> 0x10000830 \<or> 0x10000FD0 \<le> unat p)"
proof -
  have "(100 :: u64) \<noteq> 0" "unat (100 :: u64) < 2 ^ 61" by simp_all
  from heap_malloc_fresh [OF demo_heap_inv this demo_can_grow] obtain h w p and l :: u64
    where r: "heap_malloc (get_pml4 demo_paging) 100 demo_heap demo_kmem = ret (h, w, p)" "100 \<le> l"
      "\<forall>q m. (q, m) \<in> live demo_layout \<longrightarrow> unat p + unat l \<le> unat q \<or> unat q + unat m \<le> unat p" by (elim exE conjE) (rule that)
  from r(3) demo_heap_live have "unat p + unat l \<le> 0x10000830 \<or> 0x10000FD0 \<le> unat p" by force
  with r show ?thesis by blast
qed

text \<open>C6: \<^verbatim>\<open>_free\<close> of a block in use succeeds. The segment list afterwards is the one before with that segment
  free and joined with whichever of its two neighbours are free (\<open>coalesced\<close>): exactly that block leaves the blocks in
  use, the segment list stays well formed, the counters move by the block and its header, and neither the contents of
  the blocks nor the page tables change.\<close>

theorem heap_free_releases:
  assumes "heap_inv h (segs w) L" and "(p, l) \<in> live L"
  shows "\<exists>h' w' ws a vs. L = ws @ (a, 0, l) # vs \<and> p = a + HEADER \<and> heap_free p h w = ret (h', w') \<and>
    heap_inv h' (segs w') (coalesced ws a l vs) \<and> live (coalesced ws a l vs) = live L - {(p, l)} \<and>
    freeSize h' = freeSize h + (l + HEADER) \<and> usedSize h' = usedSize h - (l + HEADER) \<and>
    vm w' = vm w \<and> bytes w' = bytes w"
proof -
  from assms(2) obtain ws a vs where L: "L = ws @ (a, 0, l) # vs" and p: "p = a + HEADER" by (rule live_split)
  from heap_free_coalesces [OF assms(1) [unfolded L]] live_released [OF assms(1) [unfolded L]] L p show ?thesis by blast
qed

theorem heap_free_releases_witness:
  "\<exists>h w. heap_free 0x10000830 demo_heap demo_kmem = ret (h, w) \<and> heap_inv h (segs w) [(0x10000000, 1, 0xFA0)]"
proof -
  have one: "ws = [] \<and> a = 0x10000800 \<and> vs = [(0x10000000, 1, 0x7D0)]"
    if "demo_layout = ws @ (a, 0, 0x7A0) # vs" for ws a vs
    using that by (cases ws) (auto simp: demo_layout_def Cons_eq_append_conv)
  have "coalesced [] 0x10000800 0x7A0 [(0x10000000, 1, 0x7D0)] = [(0x10000000, 1, 0xFA0)]"
    by (simp add: coalesced_def HEADER_def)
  with heap_free_releases [OF demo_heap_inv demo_heap_live] one show ?thesis by metis
qed

text \<open>C1: over any sequence of allocations and releases of owned blocks on one heap, the blocks that a client
  owns at the end never overlap.\<close>

theorem heap_trace_disjoint:
  assumes "alloc_trace (malloc_op pml4) release_op ops (h, w) bs = ret ((h', w'), bs')" and "heap_inv h (segs w) L"
    and "set bs \<subseteq> live L" and "distinct (map fst bs)" and "\<forall>x \<in> set ops. request_ok x"
    and "i < length bs'" and "j < length bs'" and "i \<noteq> j"
  shows "disjoint_blocks (bs' ! i) (bs' ! j)"
proof -
  have "blocks_of (h, w) (live L)" using assms(2) by (auto simp: blocks_of_def)
  then have "kernel_heap.owns (h, w) bs" unfolding kernel_heap.owns_def
    using assms(3,4) by (intro exI [of _ "live L"]) (auto intro!: exI)
  from kernel_heap.trace_owns [OF assms(1) this assms(5)] show ?thesis
    by (rule kernel_heap.owns_disjoint [OF _ assms(6-8)])
qed

theorem heap_trace_disjoint_witness:
  "\<exists>h w p. alloc_trace (malloc_op (get_pml4 demo_paging)) release_op [Malloc 100] (demo_heap, demo_kmem) [(0x10000830, 0x7A0)] =
     ret ((h, w), [(p, 100), (0x10000830, 0x7A0)]) \<and> disjoint_blocks (p, 100) (0x10000830, 0x7A0)"
proof -
  have b: "(100 :: u64) \<noteq> 0" "unat (100 :: u64) < 2 ^ 61" by simp_all
  obtain h w p where "heap_malloc (get_pml4 demo_paging) 100 demo_heap demo_kmem = ret (h, w, p)"
    using heap_malloc_ok [OF demo_heap_inv b demo_can_grow] unfolding allocates_def by (elim exE conjE)
  then have r: "alloc_trace (malloc_op (get_pml4 demo_paging)) release_op [Malloc 100] (demo_heap, demo_kmem) [(0x10000830, 0x7A0)] =
     ret ((h, w), [(p, 100), (0x10000830, 0x7A0)])" by (simp add: malloc_op_def)
  have "disjoint_blocks ([(p, 100), (0x10000830, 0x7A0)] ! 0) ([(p, 100), (0x10000830, 0x7A0)] ! 1)"
    by (rule heap_trace_disjoint [OF r demo_heap_inv]) (use demo_heap_live in \<open>auto simp: request_ok_def\<close>)
  with r show ?thesis by auto
qed

text \<open>C27: \<^verbatim>\<open>_realloc\<close> returns a new block with the common prefix of the old one's contents, changes no other byte,
  and releases exactly the old block.\<close>

theorem heap_realloc_moves:
  assumes inv: "heap_inv h (segs w) L" and blk: "(buf, l) \<in> live L" and sz: "sz \<noteq> 0" "unat sz < 2 ^ 61"
    and cg: "can_grow 2 pml4 (align16 sz) h w"
  shows "\<exists>h' w' p m L'. heap_realloc pml4 buf sz h w = ret (h', w', p) \<and> heap_inv h' (segs w') L' \<and> sz \<le> m \<and>
    live L' = insert (p, m) (live L - {(buf, l)}) \<and> p \<notin> fst ` live L \<and>
    (\<forall>i. i < sz \<and> i < l \<longrightarrow> bytes w' (p + i) = bytes w (buf + i)) \<and>
    (\<forall>a. \<not> a - p < min sz l \<longrightarrow> bytes w' a = bytes w a)"
proof -
  from heap_malloc_ok [OF inv sz cg] obtain h1 w1 a L1 where
    r: "heap_malloc pml4 sz h w = ret (h1, w1, a + HEADER)" "heap_inv h1 (segs w1) L1"
      "live L1 = insert (a + HEADER, align16 sz) (live L)" "a + HEADER \<notin> fst ` live L" "bytes w1 = bytes w"
    unfolding allocates_def by (elim exE conjE)
  let ?p = "a + HEADER" and ?w = "\<lambda>n. w1\<lparr>bytes := mem_copy (a + HEADER) buf n (bytes w1)\<rparr>"
  have b1: "(buf, l) \<in> live L1" and p1: "(?p, align16 sz) \<in> live L1" using r(3) blk by auto
  from live_lookup(1) [OF r(2) b1] obtain x where x: "segs w1 (buf - HEADER) = Some x" "seg_length x = l" by blast
  have inv2: "heap_inv h1 (segs (?w (min sz l))) L1" using r(2) by simp
  from heap_free_ok [OF inv2 b1] obtain h2 w2 L2 where
    f: "heap_free buf h1 (?w (min sz l)) = ret (h2, w2)" "heap_inv h2 (segs w2) L2" "live L2 = live L1 - {(buf, l)}"
      "bytes w2 = mem_copy ?p buf (min sz l) (bytes w)" using r(5) by auto
  have m: "min sz l = (if sz < l then sz else l)" by (auto simp: min_def)
  have "ready h \<noteq> 0" using inv by (simp add: heap_inv_def)
  then have res: "heap_realloc pml4 buf sz h w = ret (h2, w2, ?p)"
    using r(1) x f(1) live_lookup(2) [OF r(2) b1] live_lookup(2) [OF r(2) p1] unfolding m
    by (simp add: heap_realloc_def Let_def split: if_splits)
  have "?p \<noteq> buf" using r(4) blk by force
  then have "live L2 = insert (?p, align16 sz) (live L - {(buf, l)})" using f(3) r(3) by auto
  moreover have "sz \<le> align16 sz" using align16_bounds(2) [of sz] sz(2) by (simp add: word_le_nat_alt)
  ultimately show ?thesis using res f(2,4) r(4)
    by (intro exI [of _ h2] exI [of _ w2] exI [of _ ?p] exI [of _ "align16 sz"] exI [of _ L2]) (auto simp: mem_copy_def min_def)
qed

theorem heap_realloc_moves_witness:
  "\<exists>h w p. heap_realloc (get_pml4 demo_paging) 0x10000830 100 demo_heap demo_kmem = ret (h, w, p) \<and> bytes w (p + 99) = 0"
proof -
  have z: "bytes demo_kmem a = 0" for a by (simp add: demo_kmem_def)
  have "(100 :: u64) \<noteq> 0" "unat (100 :: u64) < 2 ^ 61" by simp_all
  from heap_realloc_moves [OF demo_heap_inv demo_heap_live this demo_can_grow] obtain h w p
    where r: "heap_realloc (get_pml4 demo_paging) 0x10000830 100 demo_heap demo_kmem = ret (h, w, p)"
      "\<forall>i. i < 100 \<and> i < 0x7A0 \<longrightarrow> bytes w (p + i) = bytes demo_kmem (0x10000830 + i)" by (elim exE conjE)
  then have "bytes w (p + 99) = 0" using z by simp
  with r(1) show ?thesis by blast
qed

text \<open>C35: freeing a block a second time panics, on any heap: the first release leaves the header free or
  wiped, so the signature or the free test of \<^verbatim>\<open>_free\<close> fails.\<close>

theorem double_free_panics:
  assumes "heap_free p h w = ret (h', w')" and "p \<noteq> 0" and "ready h \<noteq> 0"
  shows "\<exists>msg. heap_free p h' w' = panic msg"
proof -
  from assms obtain x S where m: "merge_free (p - HEADER) x ((segs w)(p - HEADER \<mapsto> x\<lparr>seg_free := 1\<rparr>)) = ret S"
    "segs w' = S" "ready h' = ready h"
    by (auto simp: heap_free_def Let_def bind_res_eq_ret split: if_splits)
  have "unfreeable (segs w' (p - HEADER))" unfolding m(2) by (rule merge_free_unfreeable [OF m(1)]) (simp add: unfreeable_def)
  then show ?thesis using assms m(3) by (auto simp: heap_free_def unfreeable_def Let_def)
qed

theorem double_free_panics_witness:
  "\<exists>h w msg. heap_free 0x10000830 demo_heap demo_kmem = ret (h, w) \<and> heap_free 0x10000830 h w = panic msg"
proof -
  obtain h w where r: "heap_free 0x10000830 demo_heap demo_kmem = ret (h, w)"
    using heap_free_ok [OF demo_heap_inv demo_heap_live] by (elim exE conjE)
  have "ready demo_heap \<noteq> 0" by (simp add: demo_heap_def)
  then show ?thesis using double_free_panics [OF r] r by auto
qed

end
