(* ===== verification/Linked_Lists.thy ===== *)
theory Linked_Lists
  imports Kernel_Prelude
begin

section \<open>Linked lists (\<^verbatim>\<open>src/src/util/lists.c\<close>)\<close>

text \<open>
  Doubly linked lists with a head, a tail and a size. The nodes are a store from addresses to records.
  The address that \<^verbatim>\<open>kmalloc\<close> returns for a new node is an argument of \<^verbatim>\<open>linked_list_add\<close>; \<^verbatim>\<open>kfree\<close>
  removes the node from the store. The size and the counters of the loops are C \<^verbatim>\<open>int\<close>s, whose increment past the
  largest value faults; a represented list has fewer than \<open>2 ^ 31\<close> elements. The lemmas show that every operation does on the represented
  sequence what its name says, that it returns, and that it touches no node of another list.
\<close>

subsection \<open>State\<close>

record node =
  ll_data :: u64
  ll_next :: u64
  ll_prev :: u64

record linked_list =
  ll_size :: int
  ll_head :: u64
  ll_tail :: u64

type_synonym nodes = "u64 \<rightharpoonup> node"

subsection \<open>Operations\<close>

definition linked_list_create :: linked_list where
  "linked_list_create = \<lparr>ll_size = 0, ll_head = 0, ll_tail = 0\<rparr>"

definition linked_list_add :: "u64 \<Rightarrow> u64 \<Rightarrow> linked_list \<Rightarrow> nodes \<Rightarrow> (linked_list \<times> nodes) res" where
  "linked_list_add node data l h =
     (let h = h(node \<mapsto> \<lparr>ll_data = data, ll_next = 0, ll_prev = 0\<rparr>) in
      bind_res
        (if ll_size l = 0 then ret (l\<lparr>ll_head := node, ll_tail := node\<rparr>, h)
         else bind_res (modify (ll_tail l) (\<lambda>x. x\<lparr>ll_next := node\<rparr>) h) (\<lambda>h.
              bind_res (modify node (\<lambda>x. x\<lparr>ll_prev := ll_tail l\<rparr>) h) (\<lambda>h.
                ret (l\<lparr>ll_tail := node\<rparr>, h))))
        (\<lambda>(l, h). bind_res (int_inc (ll_size l)) (\<lambda>n. ret (l\<lparr>ll_size := n\<rparr>, h))))"

text \<open>
  The body that \<^verbatim>\<open>linked_list_remove\<close> and \<^verbatim>\<open>linked_list_remove_at\<close> share: the two conditional writes around
  the node, then its release.
\<close>

definition link_prev :: "node \<Rightarrow> linked_list \<Rightarrow> nodes \<Rightarrow> (linked_list \<times> nodes) res" where
  "link_prev n l h =
     (if ll_prev n \<noteq> 0 then bind_res (modify (ll_prev n) (\<lambda>x. x\<lparr>ll_next := ll_next n\<rparr>) h) (\<lambda>h. ret (l, h))
      else ret (l\<lparr>ll_head := ll_next n\<rparr>, h))"

definition link_next :: "node \<Rightarrow> linked_list \<Rightarrow> nodes \<Rightarrow> (linked_list \<times> nodes) res" where
  "link_next n l h =
     (if ll_next n \<noteq> 0 then bind_res (modify (ll_next n) (\<lambda>x. x\<lparr>ll_prev := ll_prev n\<rparr>) h) (\<lambda>h. ret (l, h))
      else ret (l\<lparr>ll_tail := ll_prev n\<rparr>, h))"

definition unlink_node :: "u64 \<Rightarrow> linked_list \<Rightarrow> nodes \<Rightarrow> (linked_list \<times> nodes) res" where
  "unlink_node node l h =
     bind_res (deref h node) (\<lambda>n.
     bind_res (link_prev n l h) (\<lambda>(l, h).
     bind_res (deref h node) (\<lambda>n.
     bind_res (link_next n l h) (\<lambda>(l, h).
       ret (l\<lparr>ll_size := ll_size l - 1\<rparr>, h(node := None))))))"

definition linked_list_remove :: "u64 \<Rightarrow> linked_list \<Rightarrow> nodes \<Rightarrow> (linked_list \<times> nodes) res" where
  "linked_list_remove data l h =
     bind_res (seek (\<lambda>n. ll_data n = data) ll_next h (ll_head l)) (\<lambda>node.
       if node = 0 then ret (l, h) else unlink_node node l h)"

text \<open>The counting loops: the node at an index, or null when the list ends before it.\<close>

partial_function (option) seek_index :: "int \<Rightarrow> int \<Rightarrow> nodes \<Rightarrow> u64 \<Rightarrow> u64 res" where
  "seek_index i index h node =
     (if node = 0 then ret 0
      else if i = index then ret node
      else bind_res (deref h node) (\<lambda>n. bind_res (int_inc i) (\<lambda>i. seek_index i index h (ll_next n))))"

definition linked_list_remove_at :: "int \<Rightarrow> linked_list \<Rightarrow> nodes \<Rightarrow> (linked_list \<times> nodes) res" where
  "linked_list_remove_at index l h =
     bind_res (seek_index 0 index h (ll_head l)) (\<lambda>node.
       if node = 0 then ret (l, h) else unlink_node node l h)"

partial_function (option) free_nodes :: "u64 \<Rightarrow> nodes \<Rightarrow> nodes res" where
  "free_nodes node h =
     (if node = 0 then ret h
      else bind_res (deref h node) (\<lambda>n. free_nodes (ll_next n) (h(node := None))))"

definition linked_list_remove_all :: "linked_list \<Rightarrow> nodes \<Rightarrow> (linked_list \<times> nodes) res" where
  "linked_list_remove_all l h =
     bind_res (free_nodes (ll_head l) h) (\<lambda>h. ret (l\<lparr>ll_size := 0, ll_head := 0, ll_tail := 0\<rparr>, h))"

definition linked_list_get :: "linked_list \<Rightarrow> int \<Rightarrow> nodes \<Rightarrow> u64 res" where
  "linked_list_get l index h =
     bind_res (seek_index 0 index h (ll_head l)) (\<lambda>node.
       if node = 0 then ret 0 else bind_res (deref h node) (\<lambda>n. ret (ll_data n)))"

definition linked_list_get_first :: "linked_list \<Rightarrow> nodes \<Rightarrow> u64 res" where
  "linked_list_get_first l h = bind_res (deref h (ll_head l)) (\<lambda>n. ret (ll_data n))"

definition linked_list_get_last :: "linked_list \<Rightarrow> nodes \<Rightarrow> u64 res" where
  "linked_list_get_last l h = bind_res (deref h (ll_tail l)) (\<lambda>n. ret (ll_data n))"

definition linked_list_size :: "linked_list \<Rightarrow> int" where
  "linked_list_size l = ll_size l"

partial_function (option) index_loop :: "int \<Rightarrow> u64 \<Rightarrow> nodes \<Rightarrow> u64 \<Rightarrow> int res" where
  "index_loop i data h node =
     (if node = 0 then ret (- 1)
      else bind_res (deref h node) (\<lambda>n.
        if ll_data n = data then ret i else bind_res (int_inc i) (\<lambda>i. index_loop i data h (ll_next n))))"

definition linked_list_index_of :: "linked_list \<Rightarrow> u64 \<Rightarrow> nodes \<Rightarrow> int res" where
  "linked_list_index_of l data h = index_loop 0 data h (ll_head l)"

definition linked_list_destroy :: "linked_list \<Rightarrow> nodes \<Rightarrow> nodes res" where
  "linked_list_destroy l h = bind_res (linked_list_remove_all l h) (\<lambda>(l, h). ret h)"

subsection \<open>Doubly linked segments\<close>

text \<open>
  \<open>dseg h pr p xs e q\<close>: from the pointer \<open>p\<close>, whose predecessor is \<open>pr\<close>, the nodes visited are those of
  \<open>xs\<close> (address and data), the last one is \<open>e\<close> and its successor is \<open>q\<close>.
\<close>

fun dseg :: "nodes \<Rightarrow> u64 \<Rightarrow> u64 \<Rightarrow> (u64 \<times> u64) list \<Rightarrow> u64 \<Rightarrow> u64 \<Rightarrow> bool" where
  "dseg h pr p [] e q \<longleftrightarrow> p = q \<and> e = pr"
| "dseg h pr p ((a, d) # xs) e q \<longleftrightarrow> p = a \<and> a \<noteq> 0 \<and>
     (\<exists>n. h a = Some n \<and> ll_data n = d \<and> ll_prev n = pr \<and> dseg h a (ll_next n) xs e q)"

definition rep :: "linked_list \<Rightarrow> nodes \<Rightarrow> (u64 \<times> u64) list \<Rightarrow> bool" where
  "rep l h xs \<longleftrightarrow> dseg h 0 (ll_head l) xs (ll_tail l) 0 \<and> ll_size l = int (length xs) \<and> length xs < 0x80000000"

lemma dseg_append: "dseg h pr p (xs @ ys) e q \<longleftrightarrow> (\<exists>m r. dseg h pr p xs m r \<and> dseg h m r ys e q)"
  by (induction h pr p xs e q rule: dseg.induct) auto

lemma dseg_path: "dseg h pr p xs e q \<Longrightarrow> path ll_next h p (map fst xs) q"
  by (induction h pr p xs e q rule: dseg.induct) auto

lemma dseg_upd_other [simp]: "a \<notin> fst ` set xs \<Longrightarrow> dseg (h(a := v)) pr p xs e q = dseg h pr p xs e q"
  by (induction h pr p xs e q rule: dseg.induct) auto

lemma dseg_last: "dseg h pr p xs e q \<Longrightarrow> xs \<noteq> [] \<Longrightarrow> e = fst (last xs) \<and> e \<noteq> 0 \<and> h e \<noteq> None"
  by (induction h pr p xs e q rule: dseg.induct) (auto split: if_splits)

lemma dseg_first: "dseg h pr p xs e q \<Longrightarrow> xs \<noteq> [] \<Longrightarrow> p = fst (hd xs) \<and> p \<noteq> 0 \<and> h p \<noteq> None"
  by (cases xs) auto

lemma dseg_set_next:
  "dseg h pr p xs e q \<Longrightarrow> xs \<noteq> [] \<Longrightarrow> distinct (map fst xs) \<Longrightarrow> h e = Some n \<Longrightarrow>
   dseg (h(e \<mapsto> n\<lparr>ll_next := q'\<rparr>)) pr p xs e q'"
proof (induction h pr p xs e q rule: dseg.induct)
  case (2 h pr p a d xs e q)
  then obtain m where m: "h a = Some m" "ll_data m = d" "ll_prev m = pr" "dseg h a (ll_next m) xs e q" "p = a" "a \<noteq> 0" by auto
  show ?case
  proof (cases "xs = []")
    case True
    with m 2 show ?thesis by auto
  next
    case False
    then have "e \<in> fst ` set xs" using dseg_last [OF m(4)] by auto
    then have "a \<noteq> e" using 2 by auto
    then have "(h(e \<mapsto> n\<lparr>ll_next := q'\<rparr>)) a = Some m" using m by simp
    moreover have "dseg (h(e \<mapsto> n\<lparr>ll_next := q'\<rparr>)) a (ll_next m) xs e q'"
      by (rule 2(1)) (use 2(4,5) m(4) False in auto)
    ultimately show ?thesis using m by (simp del: fun_upd_apply)
  qed
qed simp

lemma dseg_set_prev:
  "dseg h pr p xs e q \<Longrightarrow> xs \<noteq> [] \<Longrightarrow> distinct (map fst xs) \<Longrightarrow> h p = Some n \<Longrightarrow>
   dseg (h(p \<mapsto> n\<lparr>ll_prev := pr'\<rparr>)) pr' p xs e q"
  by (cases xs) auto

lemma rep_distinct: "rep l h xs \<Longrightarrow> distinct (map fst xs)"
  by (auto simp: rep_def dest!: dseg_path intro: chain_distinct)

lemma rep_dom: "rep l h xs \<Longrightarrow> a \<in> fst ` set xs \<Longrightarrow> a \<noteq> 0 \<and> h a \<noteq> None"
  using path_dom [of ll_next h "ll_head l" "map fst xs" 0] path_not_0 [of ll_next h "ll_head l" "map fst xs" 0 a]
  by (auto simp: rep_def dest!: dseg_path)

subsection \<open>The operations on the represented list\<close>

lemma add_ok:
  assumes r: "rep l h xs" and p: "p \<noteq> 0" "p \<notin> fst ` set xs" "Suc (length xs) < 0x80000000"
  shows "\<exists>l' h'. linked_list_add p d l h = ret (l', h') \<and> rep l' h' (xs @ [(p, d)]) \<and>
    (\<forall>b. b \<notin> fst ` set xs \<longrightarrow> b \<noteq> p \<longrightarrow> h' b = h b)"
proof (cases "xs = []")
  case True
  then show ?thesis using r p by (auto simp: linked_list_add_def rep_def int_inc_def int_ok_def)
next
  case False
  let ?h = "h(p \<mapsto> \<lparr>ll_data = d, ll_next = 0, ll_prev = 0\<rparr>)" and ?t = "ll_tail l"
  from r have s: "dseg h 0 (ll_head l) xs ?t 0" "ll_size l \<noteq> 0" "ll_size l = int (length xs)" using False by (auto simp: rep_def)
  from dseg_last [OF s(1) False] obtain n where n: "h ?t = Some n" "?t = fst (last xs)" by auto
  then have t: "?t \<noteq> p" "?t \<in> fst ` set xs" using p(2) False by auto
  have "dseg (h(?t \<mapsto> n\<lparr>ll_next := p\<rparr>)) 0 (ll_head l) xs ?t p"
    by (rule dseg_set_next [OF s(1) False rep_distinct [OF r] n(1)])
  then have "dseg (?h(?t \<mapsto> n\<lparr>ll_next := p\<rparr>, p \<mapsto> \<lparr>ll_data = d, ll_next = 0, ll_prev = ?t\<rparr>)) 0 (ll_head l) (xs @ [(p, d)]) p 0"
    using p by (auto simp: dseg_append)
  then show ?thesis using s n t p(3) by (auto simp: linked_list_add_def rep_def Let_def int_inc_def int_ok_def)
qed

lemma link_prev_ok:
  assumes x: "dseg h 0 (ll_head l) xs (ll_prev n) a" and dist: "distinct (map fst xs)"
  shows "\<exists>h'. link_prev n l h = ret (if xs = [] then l\<lparr>ll_head := ll_next n\<rparr> else l, h') \<and>
    dseg h' 0 (if xs = [] then ll_next n else ll_head l) xs (ll_prev n) (ll_next n) \<and> (\<forall>b. b \<notin> fst ` set xs \<longrightarrow> h' b = h b)"
proof (cases "xs = []")
  case True
  with x show ?thesis by (auto simp: link_prev_def)
next
  case False
  let ?m = "ll_prev n"
  from dseg_last [OF x False] False obtain k where k: "h ?m = Some k" "?m \<in> fst ` set xs" "?m \<noteq> 0" by auto
  have "dseg (h(?m \<mapsto> k\<lparr>ll_next := ll_next n\<rparr>)) 0 (ll_head l) xs ?m (ll_next n)"
    by (rule dseg_set_next [OF x False dist k(1)])
  moreover have "\<forall>b. b \<notin> fst ` set xs \<longrightarrow> (h(?m \<mapsto> k\<lparr>ll_next := ll_next n\<rparr>)) b = h b" using k(2) by auto
  ultimately show ?thesis using k False by (intro exI [of _ "h(?m \<mapsto> k\<lparr>ll_next := ll_next n\<rparr>)"]) (simp add: link_prev_def)
qed

lemma link_next_ok:
  assumes y: "dseg h a (ll_next n) ys (ll_tail l) 0" and dist: "distinct (map fst ys)"
  shows "\<exists>h'. link_next n l h = ret (if ys = [] then l\<lparr>ll_tail := ll_prev n\<rparr> else l, h') \<and>
    dseg h' (ll_prev n) (ll_next n) ys (if ys = [] then ll_prev n else ll_tail l) 0 \<and> (\<forall>b. b \<notin> fst ` set ys \<longrightarrow> h' b = h b)"
proof (cases "ys = []")
  case True
  with y show ?thesis by (auto simp: link_next_def)
next
  case False
  let ?q = "ll_next n"
  from dseg_first [OF y False] False obtain k where k: "h ?q = Some k" "?q \<in> fst ` set ys" "?q \<noteq> 0" by (cases ys) auto
  have "dseg (h(?q \<mapsto> k\<lparr>ll_prev := ll_prev n\<rparr>)) (ll_prev n) ?q ys (ll_tail l) 0"
    by (rule dseg_set_prev [OF y False dist k(1)])
  moreover have "\<forall>b. b \<notin> fst ` set ys \<longrightarrow> (h(?q \<mapsto> k\<lparr>ll_prev := ll_prev n\<rparr>)) b = h b" using k(2) by auto
  ultimately show ?thesis using k False by (intro exI [of _ "h(?q \<mapsto> k\<lparr>ll_prev := ll_prev n\<rparr>)"]) (simp add: link_next_def)
qed

lemma dseg_cong: "(\<And>b. b \<in> fst ` set xs \<Longrightarrow> h' b = h b) \<Longrightarrow> dseg h' pr p xs e q = dseg h pr p xs e q"
  by (induction xs arbitrary: pr p) (auto split: prod.splits)

lemma unlink_ok:
  assumes r: "rep l h (xs @ (a, d) # ys)"
  shows "\<exists>l' h'. unlink_node a l h = ret (l', h') \<and> rep l' h' (xs @ ys) \<and>
    (\<forall>b. b \<notin> fst ` set (xs @ (a, d) # ys) \<longrightarrow> h' b = h b) \<and> h' a = None"
proof -
  from rep_distinct [OF r] have dist: "distinct (map fst xs)" "distinct (map fst ys)" "a \<notin> fst ` set xs" "a \<notin> fst ` set ys"
    "fst ` set xs \<inter> fst ` set ys = {}" by auto
  from r obtain n where x: "dseg h 0 (ll_head l) xs (ll_prev n) a" and n: "h a = Some n"
    and y: "dseg h a (ll_next n) ys (ll_tail l) 0" and sz: "ll_size l = 1 + int (length (xs @ ys))" "length (xs @ ys) < 0x80000000"
    by (auto simp: rep_def dseg_append)
  define l1 where "l1 = (if xs = [] then l\<lparr>ll_head := ll_next n\<rparr> else l)"
  from link_prev_ok [OF x dist(1)] obtain h1 where h1: "link_prev n l h = ret (l1, h1)"
    "dseg h1 0 (ll_head l1) xs (ll_prev n) (ll_next n)" and f1: "\<And>b. b \<notin> fst ` set xs \<Longrightarrow> h1 b = h b"
    by (auto simp: l1_def split: if_splits)
  have n1: "h1 a = Some n" using f1 dist(3) n by simp
  have "dseg h1 a (ll_next n) ys (ll_tail l) 0" using y dseg_cong [of ys h1 h] f1 dist(5) by blast
  then have y1: "dseg h1 a (ll_next n) ys (ll_tail l1) 0" by (simp add: l1_def)
  define l2 where "l2 = (if ys = [] then l1\<lparr>ll_tail := ll_prev n\<rparr> else l1)"
  from link_next_ok [OF y1 dist(2)] obtain h2 where h2: "link_next n l1 h1 = ret (l2, h2)"
    "dseg h2 (ll_prev n) (ll_next n) ys (ll_tail l2) 0" and f2: "\<And>b. b \<notin> fst ` set ys \<Longrightarrow> h2 b = h1 b"
    by (auto simp: l2_def split: if_splits)
  have "dseg h2 0 (ll_head l1) xs (ll_prev n) (ll_next n)" using h1(2) dseg_cong [of xs h2 h1] f2 dist(5) by blast
  moreover have "ll_head l2 = ll_head l1" by (simp add: l2_def)
  ultimately have "dseg h2 0 (ll_head l2) (xs @ ys) (ll_tail l2) 0" using h2(2) unfolding dseg_append by metis
  then have "rep (l2\<lparr>ll_size := ll_size l2 - 1\<rparr>) (h2(a := None)) (xs @ ys)"
    using dist sz by (auto simp: rep_def l2_def l1_def image_Un)
  moreover have "unlink_node a l h = ret (l2\<lparr>ll_size := ll_size l2 - 1\<rparr>, h2(a := None))"
    unfolding unlink_node_def using n n1 h1(1) h2(1) by simp
  ultimately show ?thesis using f1 f2 by (auto simp: image_Un)
qed

lemma dseg_data: "dseg h pr p xs e q \<Longrightarrow> (a, d) \<in> set xs \<Longrightarrow> \<exists>n. h a = Some n \<and> ll_data n = d"
  by (induction h pr p xs e q rule: dseg.induct) auto

lemma seek_data:
  assumes "dseg h pr p xs e 0"
  shows "seek (\<lambda>n. ll_data n = d) ll_next h p = ret (case find (\<lambda>x. snd x = d) xs of None \<Rightarrow> 0 | Some x \<Rightarrow> fst x)"
  using assms by (induction h pr p xs e "0::u64" rule: dseg.induct) (auto simp: seek.simps)

lemma seek_index_ok:
  assumes "dseg h pr p xs e 0" and "i \<le> k" and "0 \<le> i" and "i + int (length xs) < 0x80000000"
  shows "seek_index i k h p = ret (if nat (k - i) < length xs then fst (xs ! nat (k - i)) else 0)"
  using assms
proof (induction h pr p xs e "0::u64" arbitrary: i rule: dseg.induct)
  case (1 h pr p e)
  then show ?case by (simp add: seek_index.simps)
next
  case (2 h pr p a d xs e)
  then obtain n where n: "h a = Some n" "dseg h a (ll_next n) xs e 0" "p = a" "a \<noteq> 0" by auto
  show ?case
  proof (cases "i = k")
    case True
    with n show ?thesis by (simp add: seek_index.simps)
  next
    case False
    then have "nat (k - i) = Suc (nat (k - (i + 1)))" using 2 by simp
    with False n 2(1) [of n "i + 1"] 2(3-5) show ?thesis by (subst seek_index.simps) (simp add: int_inc_def int_ok_def)
  qed
qed

lemma seek_index_negative:
  assumes "dseg h pr p xs e 0" and "k < i" and "0 \<le> i" and "i + int (length xs) < 0x80000000"
  shows "seek_index i k h p = ret 0"
  using assms by (induction h pr p xs e "0::u64" arbitrary: i rule: dseg.induct) (auto simp: seek_index.simps int_inc_def int_ok_def)

lemma index_loop_ok:
  assumes "dseg h pr p xs e 0" and "0 \<le> i" and "i + int (length xs) < 0x80000000"
  shows "index_loop i d h p =
    ret (if d \<in> snd ` set xs then i + int (length (takeWhile (\<lambda>x. snd x \<noteq> d) xs)) else - 1)"
  using assms
proof (induction h pr p xs e "0::u64" arbitrary: i rule: dseg.induct)
  case (2 h pr p a b xs e)
  then obtain n where n: "h a = Some n" "ll_data n = b" "dseg h a (ll_next n) xs e 0" "p = a" "a \<noteq> 0" by auto
  with 2(1) [of n "i + 1"] 2(3,4) show ?case by (subst index_loop.simps) (auto simp: int_inc_def int_ok_def)
qed (simp add: index_loop.simps)

lemma free_nodes_ok:
  assumes "dseg h pr p xs e 0" and "distinct (map fst xs)"
  shows "free_nodes p h = ret (h |` (- fst ` set xs))"
  using assms
proof (induction xs arbitrary: h pr p)
  case Nil
  then show ?case by (simp add: free_nodes.simps)
next
  case (Cons x xs)
  obtain a d where x: "x = (a, d)" by (cases x)
  with Cons.prems obtain n where n: "h a = Some n" "dseg h a (ll_next n) xs e 0" "p = a" "a \<noteq> 0" by auto
  have "dseg (h(a := None)) a (ll_next n) xs e 0" using n(2) Cons.prems(2) x by simp
  from Cons.IH [OF this] Cons.prems(2) n
  have "free_nodes p h = ret ((h(a := None)) |` (- fst ` set xs))" by (subst free_nodes.simps) (simp del: fun_upd_apply)
  also have "(h(a := None)) |` (- fst ` set xs) = h |` (- fst ` set (x # xs))" using x by (auto simp: restrict_map_def fun_eq_iff)
  finally show ?case .
qed

subsection \<open>The list the operations implement\<close>

datatype list_op = Add u64 u64 | Remove u64 | Remove_at int | Remove_all

fun list_step :: "list_op \<Rightarrow> linked_list \<times> nodes \<Rightarrow> (linked_list \<times> nodes) res" where
  "list_step (Add p d) (l, h) = linked_list_add p d l h"
| "list_step (Remove d) (l, h) = linked_list_remove d l h"
| "list_step (Remove_at i) (l, h) = linked_list_remove_at i l h"
| "list_step Remove_all (l, h) = linked_list_remove_all l h"

fun drop_data :: "u64 \<Rightarrow> (u64 \<times> u64) list \<Rightarrow> (u64 \<times> u64) list" where
  "drop_data d [] = []"
| "drop_data d (x # xs) = (if snd x = d then xs else x # drop_data d xs)"

fun list_spec :: "list_op \<Rightarrow> (u64 \<times> u64) list \<Rightarrow> (u64 \<times> u64) list" where
  "list_spec (Add p d) xs = xs @ [(p, d)]"
| "list_spec (Remove d) xs = drop_data d xs"
| "list_spec (Remove_at i) xs = (if 0 \<le> i then take (nat i) xs @ drop (Suc (nat i)) xs else xs)"
| "list_spec Remove_all xs = []"

text \<open>\<^verbatim>\<open>kmalloc\<close> hands out an address that is not null and not in use, and the list has room for one more element.\<close>

fun op_valid :: "list_op \<Rightarrow> (u64 \<times> u64) list \<Rightarrow> bool" where
  "op_valid (Add p d) xs \<longleftrightarrow> p \<noteq> 0 \<and> p \<notin> fst ` set xs \<and> Suc (length xs) < 0x80000000"
| "op_valid _ xs \<longleftrightarrow> True"

fun ops_valid :: "list_op list \<Rightarrow> (u64 \<times> u64) list \<Rightarrow> bool" where
  "ops_valid [] xs \<longleftrightarrow> True"
| "ops_valid (x # ops) xs \<longleftrightarrow> op_valid x xs \<and> ops_valid ops (list_spec x xs)"

lemma drop_data_find:
  "drop_data d xs = (case find (\<lambda>x. snd x = d) xs of None \<Rightarrow> xs
     | Some x \<Rightarrow> takeWhile (\<lambda>x. snd x \<noteq> d) xs @ tl (dropWhile (\<lambda>x. snd x \<noteq> d) xs))"
  by (induction xs) (auto split: option.splits)

lemma find_split:
  assumes "find P xs = Some x"
  shows "xs = takeWhile (\<lambda>y. \<not> P y) xs @ x # tl (dropWhile (\<lambda>y. \<not> P y) xs)"
  using assms by (induction xs) (auto split: if_splits)

definition keeps_others :: "nodes \<Rightarrow> nodes \<Rightarrow> (u64 \<times> u64) list \<Rightarrow> (u64 \<times> u64) list \<Rightarrow> bool" where
  "keeps_others h h' xs ys \<longleftrightarrow> (\<forall>b. b \<notin> fst ` set xs \<longrightarrow> b \<notin> fst ` set ys \<longrightarrow> h' b = h b)"

lemma remove_ok:
  assumes r: "rep l h xs"
  shows "\<exists>l' h'. linked_list_remove d l h = ret (l', h') \<and> rep l' h' (drop_data d xs) \<and> keeps_others h h' xs (drop_data d xs)"
proof (cases "find (\<lambda>x. snd x = d) xs")
  case None
  with r show ?thesis using seek_data [of h 0 "ll_head l" xs "ll_tail l" d]
    by (simp add: linked_list_remove_def rep_def drop_data_find keeps_others_def)
next
  case (Some x)
  let ?us = "takeWhile (\<lambda>x. snd x \<noteq> d) xs" and ?vs = "tl (dropWhile (\<lambda>x. snd x \<noteq> d) xs)"
  have xs: "xs = ?us @ (fst x, snd x) # ?vs" using find_split [OF Some] by simp
  have r': "rep l h (?us @ (fst x, snd x) # ?vs)" using r by (subst (asm) xs)
  have "fst x \<in> fst ` set xs" by (subst xs) simp
  then have "fst x \<noteq> 0" using rep_dom [OF r] by blast
  moreover have "seek (\<lambda>n. ll_data n = d) ll_next h (ll_head l) = ret (fst x)"
    using seek_data [of h 0 "ll_head l" xs "ll_tail l" d] r Some by (simp add: rep_def)
  moreover have "keeps_others h h' xs ys" if "\<forall>b. b \<notin> fst ` set (?us @ (fst x, snd x) # ?vs) \<longrightarrow> h' b = h b" for h' ys
    unfolding keeps_others_def by (subst xs) (use that in blast)
  ultimately show ?thesis using unlink_ok [OF r'] Some by (auto simp: linked_list_remove_def drop_data_find)
qed

lemma remove_at_ok:
  assumes r: "rep l h xs"
  shows "\<exists>l' h'. linked_list_remove_at i l h = ret (l', h') \<and> rep l' h' (list_spec (Remove_at i) xs) \<and>
    keeps_others h h' xs (list_spec (Remove_at i) xs)"
proof (cases "0 \<le> i \<and> nat i < length xs")
  case False
  then have "seek_index 0 i h (ll_head l) = ret 0"
    using seek_index_ok [of h 0 "ll_head l" xs "ll_tail l" 0 i] seek_index_negative [of h 0 "ll_head l" xs "ll_tail l" i 0] r
    by (cases "0 \<le> i") (auto simp: rep_def)
  with False r show ?thesis by (auto simp: linked_list_remove_at_def keeps_others_def)
next
  case True
  let ?x = "xs ! nat i"
  have xs: "xs = take (nat i) xs @ (fst ?x, snd ?x) # drop (Suc (nat i)) xs" using True by (simp add: id_take_nth_drop)
  have r': "rep l h (take (nat i) xs @ (fst ?x, snd ?x) # drop (Suc (nat i)) xs)" using r by (subst (asm) xs)
  have "seek_index 0 i h (ll_head l) = ret (fst ?x)"
    using seek_index_ok [of h 0 "ll_head l" xs "ll_tail l" 0 i] r True by (simp add: rep_def)
  moreover have "fst ?x \<noteq> 0" using rep_dom [OF r, of "fst ?x"] True by simp
  moreover have "keeps_others h h' xs ys" if "\<forall>b. b \<notin> fst ` set (take (nat i) xs @ (fst ?x, snd ?x) # drop (Suc (nat i)) xs) \<longrightarrow> h' b = h b" for h' ys
    unfolding keeps_others_def by (subst xs) (use that in blast)
  ultimately show ?thesis using unlink_ok [OF r'] True by (auto simp: linked_list_remove_at_def)
qed

lemma remove_all_ok:
  assumes r: "rep l h xs"
  shows "linked_list_remove_all l h = ret (l\<lparr>ll_size := 0, ll_head := 0, ll_tail := 0\<rparr>, h |` (- fst ` set xs))"
  using free_nodes_ok [of h 0 "ll_head l" xs "ll_tail l"] rep_distinct [OF r] r
  by (simp add: linked_list_remove_all_def rep_def)

lemma list_step_ok:
  assumes r: "rep l h xs" and v: "op_valid x xs"
  shows "\<exists>l' h'. list_step x (l, h) = ret (l', h') \<and> rep l' h' (list_spec x xs) \<and> keeps_others h h' xs (list_spec x xs)"
proof (cases x)
  case (Add p d)
  then show ?thesis using add_ok [OF r, of p d] v by (auto simp: keeps_others_def)
next
  case Remove_all
  then show ?thesis using remove_all_ok [OF r] by (auto simp: rep_def keeps_others_def)
qed (use remove_ok [OF r] remove_at_ok [OF r] in auto)

subsection \<open>Properties\<close>

text \<open>C14: over any sequence of \<^verbatim>\<open>linked_list_add\<close>, \<^verbatim>\<open>linked_list_remove\<close>, \<^verbatim>\<open>linked_list_remove_at\<close> and
  \<^verbatim>\<open>linked_list_remove_all\<close> the doubly linked list stays well formed and represents the sequence that the same operations
  give on a list; every call returns, also for absent data and indices out of range. Each added node has a new address, and
  the list never has \<open>2 ^ 31\<close> elements, where \<^verbatim>\<open>size++\<close> would overflow.\<close>

theorem linked_list_refines:
  assumes "rep l h xs" and "ops_valid ops xs"
  shows "\<exists>l' h'. iter_res list_step ops (l, h) = ret (l', h') \<and> rep l' h' (fold list_spec ops xs)"
  using assms
proof (induction ops arbitrary: l h xs)
  case (Cons x ops)
  from list_step_ok [OF Cons.prems(1), of x] Cons.prems(2) obtain l1 h1 where
    s: "list_step x (l, h) = ret (l1, h1)" "rep l1 h1 (list_spec x xs)" by auto
  from Cons.IH [OF s(2)] Cons.prems(2) s(1) show ?case by simp
qed simp

theorem linked_list_refines_witness:
  "\<exists>l h. iter_res list_step [Add 0x1000 7, Add 0x2000 8, Add 0x3000 7, Remove 7, Remove_at 1] (linked_list_create, Map.empty) = ret (l, h) \<and>
     rep l h [(0x2000, 8)]"
proof -
  have "rep linked_list_create Map.empty []" by (simp add: rep_def linked_list_create_def)
  from linked_list_refines [OF this, of "[Add 0x1000 7, Add 0x2000 8, Add 0x3000 7, Remove 7, Remove_at 1]"]
  show ?thesis by simp
qed

text \<open>\<^verbatim>\<open>linked_list_get\<close>, \<^verbatim>\<open>linked_list_index_of\<close>, \<^verbatim>\<open>linked_list_get_first\<close> and \<^verbatim>\<open>linked_list_get_last\<close> return the element
  at the index (null outside the list), the first index of a value (-1 if absent), and the two ends.\<close>

lemma linked_list_lookups:
  assumes "rep l h xs"
  shows "linked_list_size l = int (length xs) \<and>
    linked_list_get l i h = ret (if 0 \<le> i \<and> nat i < length xs then snd (xs ! nat i) else 0) \<and>
    linked_list_index_of l d h = ret (if d \<in> snd ` set xs then int (length (takeWhile (\<lambda>x. snd x \<noteq> d) xs)) else - 1) \<and>
    (xs \<noteq> [] \<longrightarrow> linked_list_get_first l h = ret (snd (hd xs)) \<and> linked_list_get_last l h = ret (snd (last xs)))"
proof -
  from assms have s: "dseg h 0 (ll_head l) xs (ll_tail l) 0" "ll_size l = int (length xs)" "length xs < 0x80000000" by (simp_all add: rep_def)
  have "linked_list_get l i h = ret (if 0 \<le> i \<and> nat i < length xs then snd (xs ! nat i) else 0)"
  proof (cases "0 \<le> i \<and> nat i < length xs")
    case True
    then have x: "xs ! nat i \<in> set xs" by simp
    from dseg_data [OF s(1), of "fst (xs ! nat i)" "snd (xs ! nat i)"] x rep_dom [OF assms, of "fst (xs ! nat i)"]
    show ?thesis using seek_index_ok [OF s(1), of 0 i] True s(3) by (auto simp: linked_list_get_def)
  next
    case False
    then show ?thesis using seek_index_ok [OF s(1), of 0 i] seek_index_negative [OF s(1), of i 0] s(3)
      by (cases "0 \<le> i") (auto simp: linked_list_get_def)
  qed
  moreover have "linked_list_get_first l h = ret (snd (hd xs)) \<and> linked_list_get_last l h = ret (snd (last xs))" if "xs \<noteq> []"
    using dseg_first [OF s(1) that] dseg_last [OF s(1) that] that
      dseg_data [OF s(1), of "fst (hd xs)" "snd (hd xs)"] dseg_data [OF s(1), of "fst (last xs)" "snd (last xs)"]
    by (auto simp: linked_list_get_first_def linked_list_get_last_def)
  ultimately show ?thesis using s(2,3) index_loop_ok [OF s(1), of 0 d]
    by (simp add: linked_list_size_def linked_list_index_of_def)
qed

lemma linked_list_lookups_example:
  "\<exists>l h. list_step (Add 0x1000 7) (linked_list_create, Map.empty) = ret (l, h) \<and>
     linked_list_get l 0 h = ret 7 \<and> linked_list_get l 1 h = ret 0 \<and> linked_list_index_of l 9 h = ret (- 1) \<and>
     linked_list_get_last l h = ret 7"
proof -
  have "rep linked_list_create Map.empty []" by (simp add: rep_def linked_list_create_def)
  from list_step_ok [OF this, of "Add 0x1000 7"] obtain l h where
    r: "list_step (Add 0x1000 7) (linked_list_create, Map.empty) = ret (l, h)" "rep l h [(0x1000, 7)]" by auto
  show ?thesis using r linked_list_lookups [OF r(2), of 0 9] linked_list_lookups [OF r(2), of 1 9] by auto
qed

end
