(* ===== verification/Md5.thy ===== *)
theory Md5
  imports Kernel_Prelude
begin

section \<open>Message digests (\<^verbatim>\<open>src/src/util/md5.c\<close>)\<close>

text \<open>
  The MD5 implementation that the hash map uses. The context is a record, its buffer and the data are byte
  lists; the field \<^verbatim>\<open>block\<close> is not used on x86, where \<^verbatim>\<open>GET\<close> and \<^verbatim>\<open>SET\<close> read the data itself. The lemmas show that feeding a message in any number of parts gives the digest of the whole
  padded message, and the digest of RFC 1321's test string is computed.
\<close>

subsection \<open>State and rounds\<close>

record md5_ctx =
  md5_lo :: u32
  md5_hi :: u32
  md5_a :: u32
  md5_b :: u32
  md5_c :: u32
  md5_d :: u32
  md5_buffer :: "u8 list"

type_synonym md5_state = "u32 \<times> u32 \<times> u32 \<times> u32"

definition md5_F :: "u32 \<Rightarrow> u32 \<Rightarrow> u32 \<Rightarrow> u32" where
  "md5_F x y z = z XOR (x AND (y XOR z))"

definition md5_G :: "u32 \<Rightarrow> u32 \<Rightarrow> u32 \<Rightarrow> u32" where
  "md5_G x y z = y XOR (z AND (x XOR y))"

definition md5_H :: "u32 \<Rightarrow> u32 \<Rightarrow> u32 \<Rightarrow> u32" where
  "md5_H x y z = (x XOR y) XOR z"

definition md5_H2 :: "u32 \<Rightarrow> u32 \<Rightarrow> u32 \<Rightarrow> u32" where
  "md5_H2 x y z = x XOR (y XOR z)"

definition md5_I :: "u32 \<Rightarrow> u32 \<Rightarrow> u32 \<Rightarrow> u32" where
  "md5_I x y z = y XOR (x OR NOT z)"

text \<open>
  The macro \<^verbatim>\<open>STEP\<close> updates the variable in its first place. The calls rotate the four variables, so the
  result lists them in the order of the next call.
\<close>

definition STEP :: "(u32 \<Rightarrow> u32 \<Rightarrow> u32 \<Rightarrow> u32) \<Rightarrow> u32 \<Rightarrow> u32 \<Rightarrow> nat \<Rightarrow> md5_state \<Rightarrow> md5_state" where
  "STEP f x t s st = (case st of (a, b, c, d) \<Rightarrow>
     let a = a + (f b c d + x + t);
         a = push_bit s a OR drop_bit (32 - s) (a AND 0xffffffff);
         a = a + b
     in (d, a, b, c))"

text \<open>The sixty-four calls: function, word of the block, constant, rotation.\<close>

definition md5_round1 :: "((u32 \<Rightarrow> u32 \<Rightarrow> u32 \<Rightarrow> u32) \<times> nat \<times> u32 \<times> nat) list" where
  "md5_round1 =
    [(md5_F, 0, 0xd76aa478, 7), (md5_F, 1, 0xe8c7b756, 12), (md5_F, 2, 0x242070db, 17), (md5_F, 3, 0xc1bdceee, 22),
     (md5_F, 4, 0xf57c0faf, 7), (md5_F, 5, 0x4787c62a, 12), (md5_F, 6, 0xa8304613, 17), (md5_F, 7, 0xfd469501, 22),
     (md5_F, 8, 0x698098d8, 7), (md5_F, 9, 0x8b44f7af, 12), (md5_F, 10, 0xffff5bb1, 17), (md5_F, 11, 0x895cd7be, 22),
     (md5_F, 12, 0x6b901122, 7), (md5_F, 13, 0xfd987193, 12), (md5_F, 14, 0xa679438e, 17), (md5_F, 15, 0x49b40821, 22)]"

definition md5_round2 :: "((u32 \<Rightarrow> u32 \<Rightarrow> u32 \<Rightarrow> u32) \<times> nat \<times> u32 \<times> nat) list" where
  "md5_round2 =
    [(md5_G, 1, 0xf61e2562, 5), (md5_G, 6, 0xc040b340, 9), (md5_G, 11, 0x265e5a51, 14), (md5_G, 0, 0xe9b6c7aa, 20),
     (md5_G, 5, 0xd62f105d, 5), (md5_G, 10, 0x02441453, 9), (md5_G, 15, 0xd8a1e681, 14), (md5_G, 4, 0xe7d3fbc8, 20),
     (md5_G, 9, 0x21e1cde6, 5), (md5_G, 14, 0xc33707d6, 9), (md5_G, 3, 0xf4d50d87, 14), (md5_G, 8, 0x455a14ed, 20),
     (md5_G, 13, 0xa9e3e905, 5), (md5_G, 2, 0xfcefa3f8, 9), (md5_G, 7, 0x676f02d9, 14), (md5_G, 12, 0x8d2a4c8a, 20)]"

definition md5_round3 :: "((u32 \<Rightarrow> u32 \<Rightarrow> u32 \<Rightarrow> u32) \<times> nat \<times> u32 \<times> nat) list" where
  "md5_round3 =
    [(md5_H, 5, 0xfffa3942, 4), (md5_H2, 8, 0x8771f681, 11), (md5_H, 11, 0x6d9d6122, 16), (md5_H2, 14, 0xfde5380c, 23),
     (md5_H, 1, 0xa4beea44, 4), (md5_H2, 4, 0x4bdecfa9, 11), (md5_H, 7, 0xf6bb4b60, 16), (md5_H2, 10, 0xbebfbc70, 23),
     (md5_H, 13, 0x289b7ec6, 4), (md5_H2, 0, 0xeaa127fa, 11), (md5_H, 3, 0xd4ef3085, 16), (md5_H2, 6, 0x04881d05, 23),
     (md5_H, 9, 0xd9d4d039, 4), (md5_H2, 12, 0xe6db99e5, 11), (md5_H, 15, 0x1fa27cf8, 16), (md5_H2, 2, 0xc4ac5665, 23)]"

definition md5_round4 :: "((u32 \<Rightarrow> u32 \<Rightarrow> u32 \<Rightarrow> u32) \<times> nat \<times> u32 \<times> nat) list" where
  "md5_round4 =
    [(md5_I, 0, 0xf4292244, 6), (md5_I, 7, 0x432aff97, 10), (md5_I, 14, 0xab9423a7, 15), (md5_I, 5, 0xfc93a039, 21),
     (md5_I, 12, 0x655b59c3, 6), (md5_I, 3, 0x8f0ccc92, 10), (md5_I, 10, 0xffeff47d, 15), (md5_I, 1, 0x85845dd1, 21),
     (md5_I, 8, 0x6fa87e4f, 6), (md5_I, 15, 0xfe2ce6e0, 10), (md5_I, 6, 0xa3014314, 15), (md5_I, 13, 0x4e0811a1, 21),
     (md5_I, 4, 0xf7537e82, 6), (md5_I, 11, 0xbd3af235, 10), (md5_I, 2, 0x2ad7d2bb, 15), (md5_I, 9, 0xeb86d391, 21)]"

text \<open>\<^verbatim>\<open>SET(n)\<close> and \<^verbatim>\<open>GET(n)\<close> read a little-endian word of the block.\<close>

definition GET :: "u8 list \<Rightarrow> nat \<Rightarrow> u32" where
  "GET ptr n = ucast (ptr ! (4 * n)) OR push_bit 8 (ucast (ptr ! (4 * n + 1))) OR
     push_bit 16 (ucast (ptr ! (4 * n + 2))) OR push_bit 24 (ucast (ptr ! (4 * n + 3)))"

definition run_steps :: "u8 list \<Rightarrow> md5_state \<Rightarrow> md5_state" where
  "run_steps ptr st = fold (\<lambda>(f, n, t, s). STEP f (GET ptr n) t s)
     (md5_round1 @ md5_round2 @ md5_round3 @ md5_round4) st"

text \<open>One pass of the loop of \<^verbatim>\<open>body\<close>, on the sixty-four bytes at the start of its argument.\<close>

definition body_block :: "u8 list \<Rightarrow> md5_state \<Rightarrow> md5_state" where
  "body_block ptr st =
     (case st of (saved_a, saved_b, saved_c, saved_d) \<Rightarrow>
      case run_steps ptr st of (a, b, c, d) \<Rightarrow> (a + saved_a, b + saved_b, c + saved_c, d + saved_d))"

text \<open>
  \<^verbatim>\<open>body\<close> runs \<^verbatim>\<open>do { ... } while (size -= 64)\<close> and returns the advanced pointer; a block past the end of the
  data is a fault, so the loop ends with the data at the latest.
\<close>

function md5_body :: "u8 list \<Rightarrow> u64 \<Rightarrow> md5_state \<Rightarrow> (md5_state \<times> u8 list) res" where
  "md5_body ptr sz st =
     (if length ptr < 64 then fault
      else let st = body_block ptr st; sz = sz - 64 in
        if sz \<noteq> 0 then md5_body (drop 64 ptr) sz st else ret (st, drop 64 ptr))"
  by pat_completeness auto

termination
  by (relation "measure (\<lambda>(ptr, sz, st). length ptr)") auto

definition ctx_state :: "md5_ctx \<Rightarrow> md5_state" where
  "ctx_state ctx = (md5_a ctx, md5_b ctx, md5_c ctx, md5_d ctx)"

definition set_state :: "md5_state \<Rightarrow> md5_ctx \<Rightarrow> md5_ctx" where
  "set_state st ctx = (case st of (a, b, c, d) \<Rightarrow> ctx\<lparr>md5_a := a, md5_b := b, md5_c := c, md5_d := d\<rparr>)"

definition body_ctx :: "u8 list \<Rightarrow> u64 \<Rightarrow> md5_ctx \<Rightarrow> (md5_ctx \<times> u8 list) res" where
  "body_ctx data sz ctx = bind_res (md5_body data sz (ctx_state ctx)) (\<lambda>(st, rest). ret (set_state st ctx, rest))"

subsection \<open>The interface functions\<close>

definition MD5_Init :: "md5_ctx \<Rightarrow> md5_ctx" where
  "MD5_Init ctx = ctx\<lparr>md5_a := 0x67452301, md5_b := 0xefcdab89, md5_c := 0x98badcfe, md5_d := 0x10325476,
     md5_lo := 0, md5_hi := 0\<rparr>"

text \<open>\<^verbatim>\<open>memcpy\<close> and \<^verbatim>\<open>memset\<close> into the buffer of the context; leaving it is a fault.\<close>

definition buf_put :: "nat \<Rightarrow> u8 list \<Rightarrow> md5_ctx \<Rightarrow> md5_ctx res" where
  "buf_put off bs ctx =
     (if off + length bs \<le> length (md5_buffer ctx)
      then ret (ctx\<lparr>md5_buffer := take off (md5_buffer ctx) @ bs @ drop (off + length bs) (md5_buffer ctx)\<rparr>) else fault)"

text \<open>The last part of \<^verbatim>\<open>MD5_Update\<close>: whole blocks straight from the data, the rest into the buffer.\<close>

definition update_rest :: "u8 list \<Rightarrow> u64 \<Rightarrow> md5_ctx \<Rightarrow> md5_ctx res" where
  "update_rest data sz ctx =
     bind_res
       (if sz \<ge> 64 then
          bind_res (body_ctx data (sz AND NOT 0x3f) ctx) (\<lambda>(ctx, data). ret (ctx, data, sz AND 0x3f))
        else ret (ctx, data, sz)) (\<lambda>(ctx, data, sz).
       buf_put 0 (take (unat sz) data) ctx)"

definition update_count :: "u64 \<Rightarrow> md5_ctx \<Rightarrow> md5_ctx" where
  "update_count sz ctx =
     (let saved_lo = md5_lo ctx;
          lo = ucast ((ucast saved_lo + sz) AND 0x1fffffff :: u64);
          hi = (if lo < saved_lo then md5_hi ctx + 1 else md5_hi ctx) + ucast (drop_bit 29 sz)
      in ctx\<lparr>md5_lo := lo, md5_hi := hi\<rparr>)"

definition MD5_Update :: "u8 list \<Rightarrow> u64 \<Rightarrow> md5_ctx \<Rightarrow> md5_ctx res" where
  "MD5_Update data sz ctx =
     (let used = ucast (md5_lo ctx AND 0x3f) :: u64; ctx = update_count sz ctx in
      if used \<noteq> 0 then
        let available = 64 - used in
        if sz < available then buf_put (unat used) (take (unat sz) data) ctx
        else bind_res (buf_put (unat used) (take (unat available) data) ctx) (\<lambda>ctx.
             bind_res (body_ctx (md5_buffer ctx) 64 ctx) (\<lambda>(ctx, _).
               update_rest (drop (unat available) data) (sz - available) ctx))
      else update_rest data sz ctx)"

definition OUT :: "u32 \<Rightarrow> u8 list" where
  "OUT src = [ucast src, ucast (drop_bit 8 src), ucast (drop_bit 16 src), ucast (drop_bit 24 src)]"

text \<open>\<^verbatim>\<open>MD5_Final\<close> returns the context, which it clears at the end, and the digest.\<close>

definition zero_ctx :: md5_ctx where
  "zero_ctx = \<lparr>md5_lo = 0, md5_hi = 0, md5_a = 0, md5_b = 0, md5_c = 0, md5_d = 0, md5_buffer = replicate 64 0\<rparr>"

definition MD5_Final :: "md5_ctx \<Rightarrow> (md5_ctx \<times> u8 list) res" where
  "MD5_Final ctx =
     (let used = unat (md5_lo ctx AND 0x3f) in
      bind_res (buf_put used [0x80] ctx) (\<lambda>ctx.
      let used = used + 1; available = 64 - used in
      bind_res
        (if available < 8 then
           bind_res (buf_put used (replicate available 0) ctx) (\<lambda>ctx.
           bind_res (body_ctx (md5_buffer ctx) 64 ctx) (\<lambda>(ctx, _). ret (ctx, 0, 64)))
         else ret (ctx, used, available)) (\<lambda>(ctx, used, available).
      bind_res (buf_put used (replicate (available - 8) 0) ctx) (\<lambda>ctx.
      let ctx = ctx\<lparr>md5_lo := push_bit 3 (md5_lo ctx)\<rparr> in
      bind_res (buf_put 56 (OUT (md5_lo ctx)) ctx) (\<lambda>ctx.
      bind_res (buf_put 60 (OUT (md5_hi ctx)) ctx) (\<lambda>ctx.
      bind_res (body_ctx (md5_buffer ctx) 64 ctx) (\<lambda>(ctx, _).
        ret (zero_ctx, OUT (md5_a ctx) @ OUT (md5_b ctx) @ OUT (md5_c ctx) @ OUT (md5_d ctx)))))))))"

text \<open>The context lives on the stack of the caller; its first contents are arbitrary.\<close>

definition MD5_Digest :: "md5_ctx \<Rightarrow> u8 list \<Rightarrow> u64 \<Rightarrow> u8 list res" where
  "MD5_Digest ctx data sz =
     bind_res (MD5_Update data sz (MD5_Init ctx)) (\<lambda>ctx. bind_res (MD5_Final ctx) (\<lambda>(ctx, result). ret result))"

definition MD5_UNSAFE_Buffered_digest :: "md5_ctx \<Rightarrow> u8 list \<Rightarrow> u64 \<Rightarrow> u8 list res" where
  "MD5_UNSAFE_Buffered_digest ctx data sz =
     bind_res (MD5_Update data sz (MD5_Init ctx)) (\<lambda>ctx. bind_res (MD5_Final ctx) (\<lambda>(ctx, result). ret result))"

subsection \<open>The message in blocks\<close>

function blocks :: "u8 list \<Rightarrow> u8 list list" where
  "blocks xs = (if length xs < 64 then [] else take 64 xs # blocks (drop 64 xs))"
  by pat_completeness auto

termination
  by (relation "measure length") auto

declare blocks.simps [simp del]

lemma blocks_short [simp]: "length xs < 64 \<Longrightarrow> blocks xs = []"
  by (simp add: blocks.simps)

lemma blocks_block: "length xs = 64 \<Longrightarrow> blocks (xs @ ys) = xs # blocks ys"
  by (subst blocks.simps) simp

lemma blocks_append: "64 dvd length xs \<Longrightarrow> blocks (xs @ ys) = blocks xs @ blocks ys"
proof (induction xs rule: blocks.induct)
  case (1 xs)
  show ?case
  proof (cases "length xs < 64")
    case True
    then have "xs = []" using 1 by (auto dest: dvd_imp_le)
    then show ?thesis by simp
  next
    case False
    then have "64 dvd length (drop 64 xs)" using 1(2) by (simp add: dvd_diff_nat)
    with 1(1) False show ?thesis by (subst (1 2) blocks.simps) simp
  qed
qed

definition tail64 :: "u8 list \<Rightarrow> u8 list" where
  "tail64 xs = drop (64 * (length xs div 64)) xs"

lemma length_tail64: "length (tail64 xs) = length xs mod 64"
  by (simp add: tail64_def modulo_nat_def mult.commute)

lemma blocks_tail: "blocks (xs @ ys) = blocks xs @ blocks (tail64 xs @ ys)" "tail64 (xs @ ys) = tail64 (tail64 xs @ ys)"
proof -
  let ?n = "64 * (length xs div 64)"
  have n: "?n \<le> length xs" by simp
  have xs: "xs = take ?n xs @ tail64 xs" by (simp add: tail64_def)
  have d: "64 dvd length (take ?n xs)" by (simp only: length_take min.absorb2 [OF n]) simp
  have "blocks xs = blocks (take ?n xs) @ blocks (tail64 xs)" by (subst (1) xs) (rule blocks_append [OF d])
  then have "blocks xs = blocks (take ?n xs)" using length_tail64 [of xs] by simp
  moreover have "blocks (xs @ ys) = blocks (take ?n xs) @ blocks (tail64 xs @ ys)"
    by (subst (1) xs) (simp only: append_assoc blocks_append [OF d])
  ultimately show "blocks (xs @ ys) = blocks xs @ blocks (tail64 xs @ ys)" by simp
  have l: "length (tail64 xs @ ys) = length (xs @ ys) - ?n" using n by (simp add: tail64_def)
  have "64 * (length (xs @ ys) div 64) = ?n + 64 * (length (tail64 xs @ ys) div 64)"
  proof -
    have "length (xs @ ys) = length (tail64 xs @ ys) + 64 * (length xs div 64)" using l n by simp
    then show ?thesis by (simp only: div_mult_self2) simp
  qed
  then show "tail64 (xs @ ys) = tail64 (tail64 xs @ ys)"
    unfolding tail64_def [of "xs @ ys"] tail64_def [of "tail64 xs @ ys"]
    using n by (subst (2) xs) (simp add: add.commute)
qed

lemma rounds_range: "x \<in> set (md5_round1 @ md5_round2 @ md5_round3 @ md5_round4) \<Longrightarrow> fst (snd x) < 16"
  by (auto simp: md5_round1_def md5_round2_def md5_round3_def md5_round4_def)

lemma GET_take: "n < 16 \<Longrightarrow> 64 \<le> length ptr \<Longrightarrow> GET (take 64 ptr) n = GET ptr n"
  by (simp add: GET_def)

lemma body_block_take: "64 \<le> length ptr \<Longrightarrow> body_block (take 64 ptr) st = body_block ptr st"
proof -
  assume "64 \<le> length ptr"
  then have "run_steps (take 64 ptr) st = run_steps ptr st"
    unfolding run_steps_def by (intro fold_cong) (use rounds_range GET_take in \<open>fastforce split: prod.splits\<close>)+
  then show "body_block (take 64 ptr) st = body_block ptr st" by (simp add: body_block_def)
qed

declare md5_body.simps [simp del]

lemma md5_body_blocks:
  "0 < n \<Longrightarrow> 64 * n \<le> length ptr \<Longrightarrow> 64 * n < 2 ^ 64 \<Longrightarrow>
   md5_body ptr (word_of_nat (64 * n)) st = ret (fold body_block (blocks (take (64 * n) ptr)) st, drop (64 * n) ptr)"
proof (induction n arbitrary: ptr st)
  case (Suc n)
  have b: "blocks (take (64 * Suc n) ptr) = take 64 ptr # blocks (take (64 * n) (drop 64 ptr))"
    using Suc.prems(2) by (subst blocks.simps) (simp add: drop_take min_def)
  have s: "word_of_nat (64 * Suc n) - 64 = (word_of_nat (64 * n) :: u64)" by simp
  show ?case
  proof (cases "n = 0")
    case True
    then show ?thesis using Suc.prems(2) b by (subst md5_body.simps) (simp add: body_block_take)
  next
    case False
    have "unat (word_of_nat (64 * n) :: u64) = 64 * n" using Suc.prems(3) by (intro unat_of_nat_small) simp
    then have "(word_of_nat (64 * n) :: u64) \<noteq> 0" using False by (metis mult_eq_0_iff unsigned_0 zero_neq_numeral)
    moreover have "md5_body (drop 64 ptr) (word_of_nat (64 * n)) (body_block ptr st) =
        ret (fold body_block (blocks (take (64 * n) (drop 64 ptr))) (body_block ptr st), drop (64 * n) (drop 64 ptr))"
      by (rule Suc.IH) (use Suc.prems False in auto)
    ultimately show ?thesis using Suc.prems(2) b s
      by (subst md5_body.simps) (simp add: body_block_take Let_def add.commute)
  qed
qed simp

subsection \<open>What a context stands for\<close>

text \<open>
  A context holds a message: its state is that of the whole blocks so far, its buffer starts with the
  rest, and the counters are the length of the message split at bit 29.
\<close>

definition md5_IV :: md5_state where
  "md5_IV = (0x67452301, 0xefcdab89, 0x98badcfe, 0x10325476)"

definition md5_holds :: "md5_ctx \<Rightarrow> u8 list \<Rightarrow> bool" where
  "md5_holds ctx msg \<longleftrightarrow> length (md5_buffer ctx) = 64 \<and> ctx_state ctx = fold body_block (blocks msg) md5_IV \<and>
     take (length msg mod 64) (md5_buffer ctx) = tail64 msg \<and>
     unat (md5_lo ctx) = length msg mod 2 ^ 29 \<and> unat (md5_hi ctx) = length msg div 2 ^ 29 mod 2 ^ 32"

definition data_part :: "md5_ctx \<Rightarrow> u8 list \<Rightarrow> bool" where
  "data_part ctx msg \<longleftrightarrow> length (md5_buffer ctx) = 64 \<and> ctx_state ctx = fold body_block (blocks msg) md5_IV \<and>
     take (length msg mod 64) (md5_buffer ctx) = tail64 msg"

definition same_count :: "md5_ctx \<Rightarrow> md5_ctx \<Rightarrow> bool" where
  "same_count ctx ctx' \<longleftrightarrow> md5_lo ctx' = md5_lo ctx \<and> md5_hi ctx' = md5_hi ctx"

lemma ctx_set_state [simp]: "ctx_state (set_state st ctx) = st" "md5_buffer (set_state st ctx) = md5_buffer ctx"
  "md5_lo (set_state st ctx) = md5_lo ctx" "md5_hi (set_state st ctx) = md5_hi ctx"
  by (cases st; simp add: ctx_state_def set_state_def)+

lemma ctx_state_buffer [simp]: "ctx_state (ctx\<lparr>md5_buffer := b\<rparr>) = ctx_state ctx"
  "ctx_state (ctx\<lparr>md5_lo := l\<rparr>) = ctx_state ctx" "ctx_state (ctx\<lparr>md5_hi := l\<rparr>) = ctx_state ctx"
  by (simp_all add: ctx_state_def)

lemma body_ctx_block:
  assumes "length (md5_buffer ctx) = 64"
  shows "body_ctx (md5_buffer ctx) 64 ctx = ret (set_state (body_block (md5_buffer ctx) (ctx_state ctx)) ctx, [])"
  using assms by (simp add: body_ctx_def md5_body.simps)

lemma unat_low6: "unat ((x :: u64) AND 0x3f) = unat x mod 64" "unat ((y :: u32) AND 0x3f) = unat y mod 64"
proof -
  have m: "(0x3f :: u64) = mask 6" "(0x3f :: u32) = mask 6" by (simp_all add: mask_eq_exp_minus_1)
  show "unat (x AND 0x3f) = unat x mod 64" "unat (y AND 0x3f) = unat y mod 64"
    unfolding m by (simp_all add: take_bit_eq_mask [symmetric] unsigned_take_bit_eq take_bit_eq_mod unat_mod)
qed

lemma high6: "(x :: u64) AND NOT 0x3f = word_of_nat (64 * (unat x div 64))"
proof -
  have m: "(0x3f :: u64) = mask 6" by (simp add: mask_eq_exp_minus_1)
  have "unat (drop_bit 6 x) * 2 ^ 6 < 2 ^ 64"
    using unat_less_64 [of x] by (simp add: unat_drop_bit_div del: unat_less_64)
  then have "unat (x AND NOT 0x3f) = unat x div 64 * 64"
    unfolding m by (simp only: word_and_not_mask unat_push_bit_small unat_drop_bit_div) simp
  moreover have "unat (word_of_nat (64 * (unat x div 64)) :: u64) = 64 * (unat x div 64)"
    by (intro unat_of_nat_small order.strict_trans1 [OF times_div_less_eq_dividend]) simp
  ultimately show ?thesis by (simp add: word_unat_eq_iff)
qed

lemma tail64_aligned: "64 dvd length xs \<Longrightarrow> tail64 xs = []"
  by (auto simp: tail64_def elim!: dvdE)

lemma update_rest_ok:
  assumes d: "length (md5_buffer ctx) = 64" "ctx_state ctx = fold body_block (blocks msg) md5_IV" "64 dvd length msg"
    and len: "length data < 2 ^ 64"
  shows "\<exists>ctx'. update_rest data (word_of_nat (length data)) ctx = ret ctx' \<and> data_part ctx' (msg @ data) \<and> same_count ctx ctx'"
proof -
  let ?n = "length data div 64" and ?sz = "word_of_nat (length data) :: u64"
  have sz: "unat ?sz = length data" using len by (rule unat_of_nat_small)
  have low: "unat (word_of_nat (length data mod 64) :: u64) = length data mod 64"
    by (intro unat_of_nat_small order.strict_trans [OF mod_less_divisor]) simp_all
  have nd: "64 * ?n \<le> length data" by simp
  let ?st = "fold body_block (blocks (msg @ data)) md5_IV"
  have bl: "blocks (msg @ data) = blocks msg @ blocks (take (64 * ?n) data)"
  proof -
    have "64 dvd length (take (64 * ?n) data)" by (simp only: length_take min.absorb2 [OF nd]) simp
    from blocks_append [OF this, of "tail64 data"] have "blocks data = blocks (take (64 * ?n) data)"
      using length_tail64 [of data] by (simp add: tail64_def)
    then show ?thesis using blocks_append [OF d(3)] by simp
  qed
  have tl: "tail64 (msg @ data) = tail64 data" using blocks_tail(2) [of msg data] tail64_aligned [OF d(3)] by simp
  have md: "length (msg @ data) mod 64 = length data mod 64" using d(3) by (auto elim!: dvdE)
  have "\<exists>c. (if ?sz \<ge> 64 then bind_res (body_ctx data (?sz AND NOT 0x3f) ctx) (\<lambda>(ctx, data). ret (ctx, data, ?sz AND 0x3f))
        else ret (ctx, data, ?sz)) = ret (c, tail64 data, word_of_nat (length data mod 64)) \<and>
      length (md5_buffer c) = 64 \<and> ctx_state c = ?st \<and> same_count ctx c"
  proof (cases "64 \<le> length data")
    case True
    have "body_ctx data (?sz AND NOT 0x3f) ctx = ret (set_state (fold body_block (blocks (take (64 * ?n) data)) (ctx_state ctx)) ctx, tail64 data)"
      unfolding body_ctx_def high6 sz using md5_body_blocks [of ?n data "ctx_state ctx"] True nd len
      by (simp add: tail64_def)
    moreover have "?sz AND 0x3f = word_of_nat (length data mod 64)"
      using unat_low6(1) [of ?sz] low by (simp add: word_unat_eq_iff sz)
    moreover have "?sz \<ge> 64" using True sz by (simp add: word_le_nat_alt)
    ultimately show ?thesis using d bl by (simp add: same_count_def)
  next
    case False
    then have "\<not> ?sz \<ge> 64" "tail64 data = data" "length data mod 64 = length data" "take (64 * ?n) data = []"
      using sz by (simp_all add: word_le_nat_alt tail64_def)
    then show ?thesis using d bl by (simp add: same_count_def)
  qed
  then obtain c where c: "update_rest data ?sz ctx = buf_put 0 (take (unat (word_of_nat (length data mod 64) :: u64)) (tail64 data)) c"
    "length (md5_buffer c) = 64" "ctx_state c = ?st" "same_count ctx c" by (auto simp: update_rest_def)
  have "update_rest data ?sz ctx = ret (c\<lparr>md5_buffer := tail64 data @ drop (length data mod 64) (md5_buffer c)\<rparr>)"
    using c(1,2) length_tail64 [of data] low by (simp add: buf_put_def less_imp_le)
  moreover have "length (tail64 data @ drop (length data mod 64) (md5_buffer c)) = 64"
    using c(2) length_tail64 [of data] by (simp add: less_imp_le)
  ultimately show ?thesis using c tl md length_tail64 [of data] by (simp add: data_part_def same_count_def)
qed

lemma update_count_ok:
  assumes lo: "unat (md5_lo ctx) = L mod 2 ^ 29" and hi: "unat (md5_hi ctx) = L div 2 ^ 29 mod 2 ^ 32" and n: "n < 2 ^ 63"
  shows "unat (md5_lo (update_count (word_of_nat n) ctx)) = (L + n) mod 2 ^ 29"
    and "unat (md5_hi (update_count (word_of_nat n) ctx)) = (L + n) div 2 ^ 29 mod 2 ^ 32"
proof -
  let ?sz = "word_of_nat n :: u64" and ?l = "L mod 2 ^ 29"
  define lo' where "lo' = (ucast ((ucast (md5_lo ctx) + ?sz) AND 0x1fffffff :: u64) :: u32)"
  have sz: "unat ?sz = n" using n by (intro unat_of_nat_small) simp
  have m: "(0x1fffffff :: u64) = mask 29" by (simp add: mask_eq_exp_minus_1)
  have ul: "unat (ucast (md5_lo ctx) :: u64) = ?l" using lo by (simp add: unsigned_ucast_eq take_bit_nat_eq_self)
  have l29: "?l < 2 ^ 29" by simp
  have s: "unat (ucast (md5_lo ctx) + ?sz) = ?l + n" using ul sz l29 n by (subst unat_add_small) simp_all
  have "unat ((ucast (md5_lo ctx) + ?sz) AND 0x1fffffff :: u64) = (?l + n) mod 2 ^ 29"
    unfolding m using s by (simp add: take_bit_eq_mask [symmetric] unsigned_take_bit_eq take_bit_eq_mod unat_mod)
  then have lo': "unat lo' = (?l + n) mod 2 ^ 29"
    unfolding lo'_def by (simp add: unsigned_ucast_eq take_bit_nat_eq_self)
  have "md5_lo (update_count ?sz ctx) = lo'" by (simp add: update_count_def Let_def lo'_def)
  then show "unat (md5_lo (update_count ?sz ctx)) = (L + n) mod 2 ^ 29" using lo' by (simp add: mod_simps)
  define q r where "q = n div 2 ^ 29" and "r = n mod 2 ^ 29"
  have n': "n = q * 2 ^ 29 + r" "r < 2 ^ 29" by (simp_all add: q_def r_def)
  have lr: "unat lo' = (?l + r) mod 2 ^ 29" unfolding lo' by (simp add: r_def mod_simps)
  have carry: "lo' < md5_lo ctx \<longleftrightarrow> 2 ^ 29 \<le> ?l + r"
  proof (cases "2 ^ 29 \<le> ?l + r")
    case True
    then have "(?l + r) mod 2 ^ 29 = ?l + r - 2 ^ 29" using l29 n'(2) by (simp add: le_mod_geq)
    then have "unat lo' < unat (md5_lo ctx)" using True n'(2) lr lo by linarith
    then show ?thesis using True by (simp add: word_less_nat_alt)
  next
    case False
    then show ?thesis using lr lo by (simp add: word_less_nat_alt)
  qed
  have "(L + n) div 2 ^ 29 = L div 2 ^ 29 + q + (?l + r) div 2 ^ 29"
  proof -
    have "L + n = (?l + r) + (L div 2 ^ 29 + q) * 2 ^ 29" using n'(1) mod_mult_div_eq [of L "2 ^ 29"] by (simp add: algebra_simps)
    moreover have "((?l + r) + (L div 2 ^ 29 + q) * 2 ^ 29) div 2 ^ 29 = (L div 2 ^ 29 + q) + (?l + r) div 2 ^ 29"
      by (rule div_mult_self1) simp
    ultimately show ?thesis by (simp only:)
  qed
  moreover have "(?l + r) div 2 ^ 29 = (if 2 ^ 29 \<le> ?l + r then 1 else 0)"
    using l29 n'(2) by (auto intro!: div_nat_eqI)
  ultimately have tot: "(L + n) div 2 ^ 29 = L div 2 ^ 29 + (if lo' < md5_lo ctx then 1 else 0) + q"
    unfolding carry by linarith
  have "md5_hi (update_count ?sz ctx) = (if lo' < md5_lo ctx then md5_hi ctx + 1 else md5_hi ctx) + ucast (drop_bit 29 ?sz)"
    by (simp add: update_count_def Let_def lo'_def)
  moreover have "ucast (drop_bit 29 ?sz) = (word_of_nat q :: u32)"
  proof -
    have "ucast (drop_bit 29 ?sz) = (word_of_nat (unat (drop_bit 29 ?sz)) :: u32)" by (simp only: of_nat_unat)
    then show ?thesis by (simp only: unat_drop_bit_div sz q_def)
  qed
  moreover have "md5_hi ctx = word_of_nat (L div 2 ^ 29)" using hi by (simp add: word_unat_eq_iff unat_of_nat)
  ultimately have "md5_hi (update_count ?sz ctx) = word_of_nat ((L + n) div 2 ^ 29)" unfolding tot by simp
  then show "unat (md5_hi (update_count ?sz ctx)) = (L + n) div 2 ^ 29 mod 2 ^ 32" by (simp add: unat_of_nat)
qed

lemma update_count_simps [simp]: "ctx_state (update_count sz ctx) = ctx_state ctx" "md5_buffer (update_count sz ctx) = md5_buffer ctx"
  by (simp_all add: update_count_def Let_def)

lemma holds_iff: "md5_holds ctx msg \<longleftrightarrow> data_part ctx msg \<and>
    unat (md5_lo ctx) = length msg mod 2 ^ 29 \<and> unat (md5_hi ctx) = length msg div 2 ^ 29 mod 2 ^ 32"
  by (auto simp: md5_holds_def data_part_def)

lemma buffer_index:
  assumes "unat (md5_lo ctx) = L mod 2 ^ 29"
  shows "unat (ucast (md5_lo ctx AND 0x3f) :: u64) = L mod 64"
proof -
  have "unat (md5_lo ctx AND 0x3f) = L mod 64" unfolding unat_low6 assms by (simp add: mod_mod_cancel)
  moreover have "L mod 64 < 64" by simp
  ultimately show ?thesis by (simp add: unsigned_ucast_eq take_bit_nat_eq_self)
qed

lemma update_fill:
  assumes d: "data_part ctx msg" and u: "u = length msg mod 64" "u \<noteq> 0" and len: "64 - u \<le> length data" "length data < 2 ^ 63"
  shows "\<exists>ctx'. bind_res (buf_put u (take (64 - u) data) ctx) (\<lambda>ctx. bind_res (body_ctx (md5_buffer ctx) 64 ctx) (\<lambda>(ctx, _).
      update_rest (drop (64 - u) data) (word_of_nat (length data) - word_of_nat (64 - u)) ctx)) = ret ctx' \<and>
    data_part ctx' (msg @ data) \<and> same_count ctx ctx'"
proof -
  let ?B = "tail64 msg @ take (64 - u) data" and ?msg = "msg @ take (64 - u) data"
  have u64: "u < 64" using u by simp
  have b: "length (md5_buffer ctx) = 64" "take u (md5_buffer ctx) = tail64 msg" "ctx_state ctx = fold body_block (blocks msg) md5_IV"
    using d u by (simp_all add: data_part_def)
  have B: "length ?B = 64" using length_tail64 [of msg] u u64 len by simp
  have put: "buf_put u (take (64 - u) data) ctx = ret (ctx\<lparr>md5_buffer := ?B\<rparr>)"
    using b u64 len by (simp add: buf_put_def)
  let ?c = "set_state (body_block ?B (ctx_state ctx)) (ctx\<lparr>md5_buffer := ?B\<rparr>)"
  have body: "body_ctx (md5_buffer (ctx\<lparr>md5_buffer := ?B\<rparr>)) 64 (ctx\<lparr>md5_buffer := ?B\<rparr>) = ret (?c, [])"
    using body_ctx_block [of "ctx\<lparr>md5_buffer := ?B\<rparr>"] B by simp
  have "blocks ?msg = blocks msg @ [?B]"
    using blocks_tail(1) [of msg "take (64 - u) data"] blocks_block [OF B, of "[]"] by simp
  then have st: "ctx_state ?c = fold body_block (blocks ?msg) md5_IV" using b(3) by simp
  have "length ?msg = length msg + (64 - u)" using len(1) by simp
  also have "\<dots> = 64 * (length msg div 64) + 64"
    using u(1) u64 mult_div_mod_eq [of 64 "length msg"] by linarith
  finally have dv: "64 dvd length ?msg" by (metis dvd_add dvd_refl dvd_triv_left)
  have w: "word_of_nat (length data) - word_of_nat (64 - u) = (word_of_nat (length (drop (64 - u) data)) :: u64)"
    using len(1) by (simp add: of_nat_diff)
  have "\<exists>ctx'. update_rest (drop (64 - u) data) (word_of_nat (length (drop (64 - u) data))) ?c = ret ctx' \<and>
      data_part ctx' (?msg @ drop (64 - u) data) \<and> same_count ?c ctx'"
    by (rule update_rest_ok [OF _ st dv]) (use B len in auto)
  then show ?thesis unfolding w put bind_res_simps body using b by (auto simp: same_count_def)
qed

lemma MD5_Update_holds:
  assumes h: "md5_holds ctx msg" and len: "length data < 2 ^ 63"
  shows "\<exists>ctx'. MD5_Update data (word_of_nat (length data)) ctx = ret ctx' \<and> md5_holds ctx' (msg @ data)"
proof -
  let ?sz = "word_of_nat (length data) :: u64" and ?u = "length msg mod 64"
  define c where "c = update_count ?sz ctx"
  have cnt: "unat (md5_lo c) = length (msg @ data) mod 2 ^ 29" "unat (md5_hi c) = length (msg @ data) div 2 ^ 29 mod 2 ^ 32"
    using update_count_ok [of ctx "length msg" "length data"] h len by (simp_all add: c_def md5_holds_def)
  have d: "data_part c msg" using h by (simp add: c_def holds_iff data_part_def)
  have fin: ?thesis if "MD5_Update data ?sz ctx = ret c'" "data_part c' (msg @ data)" "same_count c c'" for c'
    using that cnt by (auto simp: holds_iff same_count_def)
  have used: "unat (ucast (md5_lo ctx AND 0x3f) :: u64) = ?u" using h by (intro buffer_index) (simp add: md5_holds_def)
  have sz: "unat ?sz = length data" using len by (intro unat_of_nat_small) simp
  show ?thesis
  proof (cases "?u = 0")
    case True
    then have z: "ucast (md5_lo ctx AND 0x3f) = (0 :: u64)" using used by (simp add: word_unat_eq_iff)
    have "64 dvd length msg" using True by (simp add: dvd_eq_mod_eq_0)
    from update_rest_ok [OF _ _ this, of c data] d len fin show ?thesis
      by (auto simp: MD5_Update_def z c_def [symmetric] data_part_def)
  next
    case False
    then have nz: "ucast (md5_lo ctx AND 0x3f) \<noteq> (0 :: u64)" using used by (auto simp: word_unat_eq_iff)
    have u64: "?u < 64" by simp
    have av: "unat (64 - ucast (md5_lo ctx AND 0x3f) :: u64) = 64 - ?u" "64 - ucast (md5_lo ctx AND 0x3f) = (word_of_nat (64 - ?u) :: u64)"
    proof -
      show "unat (64 - ucast (md5_lo ctx AND 0x3f) :: u64) = 64 - ?u" using used u64 by (subst unat_sub) (simp_all add: word_le_nat_alt)
      then show "64 - ucast (md5_lo ctx AND 0x3f) = (word_of_nat (64 - ?u) :: u64)"
        using unat_of_nat_small [of "64 - ?u"] by (simp add: word_unat_eq_iff)
    qed
    show ?thesis
    proof (cases "length data < 64 - ?u")
      case True
      let ?B = "tail64 msg @ data @ drop (?u + length data) (md5_buffer c)"
      have b: "length (md5_buffer c) = 64" "take ?u (md5_buffer c) = tail64 msg" using d by (simp_all add: data_part_def)
      have "MD5_Update data ?sz ctx = buf_put ?u data c"
        using True nz av sz used by (simp add: MD5_Update_def Let_def c_def word_less_nat_alt)
      then have "MD5_Update data ?sz ctx = ret (c\<lparr>md5_buffer := ?B\<rparr>)" using b True by (simp add: buf_put_def)
      moreover have m: "(length msg + length data) mod 64 = ?u + length data"
        using True mod_add_left_eq [of "length msg" 64 "length data"] by simp
      have "data_part (c\<lparr>md5_buffer := ?B\<rparr>) (msg @ data)"
        using d b True m blocks_tail [of msg data] length_tail64 [of msg]
        by (simp add: data_part_def mod_add_left_eq tail64_def [of "tail64 msg @ data"])
      ultimately show ?thesis by (rule fin) (simp add: same_count_def)
    next
      case False': False
      then have "\<not> ?sz < 64 - ucast (md5_lo ctx AND 0x3f)" using av sz by (simp add: word_less_nat_alt)
      with nz have "MD5_Update data ?sz ctx = bind_res (buf_put ?u (take (64 - ?u) data) c) (\<lambda>ctx. bind_res (body_ctx (md5_buffer ctx) 64 ctx) (\<lambda>(ctx, _).
          update_rest (drop (64 - ?u) data) (?sz - word_of_nat (64 - ?u)) ctx))"
        using used av by (simp add: MD5_Update_def Let_def c_def)
      then show ?thesis using update_fill [OF d refl False _ len] False' fin by auto
    qed
  qed
qed

subsection \<open>The padded message\<close>

text \<open>The reference: the message, a one bit, zeros, and the length in bits, in whole blocks.\<close>

definition md5_pad :: "u8 list \<Rightarrow> u8 list" where
  "md5_pad msg = msg @ 0x80 # replicate ((119 - length msg mod 64) mod 64) 0 @
     OUT (word_of_nat (8 * length msg)) @ OUT (word_of_nat (8 * length msg div 2 ^ 32))"

definition out_state :: "md5_state \<Rightarrow> u8 list" where
  "out_state st = (case st of (a, b, c, d) \<Rightarrow> OUT a @ OUT b @ OUT c @ OUT d)"

definition md5_ref :: "u8 list \<Rightarrow> u8 list" where
  "md5_ref msg = out_state (fold body_block (blocks (md5_pad msg)) md5_IV)"

lemma length_OUT [simp]: "length (OUT x) = 4"
  by (simp add: OUT_def)

lemma final_counts:
  assumes "md5_holds ctx msg"
  shows "push_bit 3 (md5_lo ctx) = word_of_nat (8 * length msg)" and "md5_hi ctx = word_of_nat (8 * length msg div 2 ^ 32)"
proof -
  let ?L = "length msg"
  have lo: "md5_lo ctx = word_of_nat (?L mod 2 ^ 29)" and hi: "unat (md5_hi ctx) = ?L div 2 ^ 29 mod 2 ^ 32"
    using assms by (simp_all add: md5_holds_def word_unat_eq_iff unat_of_nat)
  have "8 * (?L mod 2 ^ 29) mod 2 ^ 32 = 8 * ?L mod 2 ^ 32"
    using mult_mod_right [of 8 ?L "2 ^ 29"] by simp
  then have "word_of_nat (8 * (?L mod 2 ^ 29)) = (word_of_nat (8 * ?L) :: u32)"
    by (simp only: word_of_nat_eq_iff take_bit_eq_mod) simp
  moreover have "push_bit 3 (md5_lo ctx) = word_of_nat (8 * (?L mod 2 ^ 29))"
    unfolding lo push_bit_eq_mult by simp
  ultimately show "push_bit 3 (md5_lo ctx) = word_of_nat (8 * ?L)" by (simp only:)
  have "8 * ?L div 2 ^ 32 = ?L div 2 ^ 29" using div_mult_mult1 [of "8 :: nat" ?L "2 ^ 29"] by simp
  then show "md5_hi ctx = word_of_nat (8 * ?L div 2 ^ 32)" using hi by (simp add: word_unat_eq_iff unat_of_nat)
qed

lemma final_tail:
  assumes b: "length (md5_buffer ctx) = 64" "take n (md5_buffer ctx) = xs" "length xs = n" "n \<le> 56"
  shows "bind_res (buf_put n (replicate (64 - n - 8) 0) ctx) (\<lambda>ctx.
      let ctx = ctx\<lparr>md5_lo := push_bit 3 (md5_lo ctx)\<rparr> in
      bind_res (buf_put 56 (OUT (md5_lo ctx)) ctx) (\<lambda>ctx.
      bind_res (buf_put 60 (OUT (md5_hi ctx)) ctx) (\<lambda>ctx.
      bind_res (body_ctx (md5_buffer ctx) 64 ctx) (\<lambda>(ctx, _).
        ret (zero_ctx, OUT (md5_a ctx) @ OUT (md5_b ctx) @ OUT (md5_c ctx) @ OUT (md5_d ctx)))))) =
    ret (zero_ctx, out_state (body_block (xs @ replicate (56 - n) 0 @ OUT (push_bit 3 (md5_lo ctx)) @ OUT (md5_hi ctx)) (ctx_state ctx)))"
proof -
  let ?B1 = "xs @ replicate (56 - n) 0 @ drop 56 (md5_buffer ctx)"
  let ?B2 = "xs @ replicate (56 - n) 0 @ OUT (push_bit 3 (md5_lo ctx)) @ drop 60 (md5_buffer ctx)"
  let ?B3 = "xs @ replicate (56 - n) 0 @ OUT (push_bit 3 (md5_lo ctx)) @ OUT (md5_hi ctx)"
  have n8: "64 - n - 8 = 56 - n" "n + (56 - n) = 56" using b(4) by simp_all
  have p1: "buf_put n (replicate (56 - n) 0) ctx = ret (ctx\<lparr>md5_buffer := ?B1\<rparr>)"
    using b by (simp add: buf_put_def n8)
  have p2: "buf_put 56 (OUT (push_bit 3 (md5_lo ctx))) (ctx\<lparr>md5_buffer := ?B1, md5_lo := push_bit 3 (md5_lo ctx)\<rparr>) =
      ret (ctx\<lparr>md5_buffer := ?B2, md5_lo := push_bit 3 (md5_lo ctx)\<rparr>)"
    using b by (simp add: buf_put_def n8)
  have p3: "buf_put 60 (OUT (md5_hi ctx)) (ctx\<lparr>md5_buffer := ?B2, md5_lo := push_bit 3 (md5_lo ctx)\<rparr>) =
      ret (ctx\<lparr>md5_buffer := ?B3, md5_lo := push_bit 3 (md5_lo ctx)\<rparr>)"
    using b by (simp add: buf_put_def n8)
  have body: "body_ctx ?B3 64 (ctx\<lparr>md5_buffer := ?B3, md5_lo := push_bit 3 (md5_lo ctx)\<rparr>) =
      ret (set_state (body_block ?B3 (ctx_state ctx)) (ctx\<lparr>md5_buffer := ?B3, md5_lo := push_bit 3 (md5_lo ctx)\<rparr>), [])"
    using body_ctx_block [of "ctx\<lparr>md5_buffer := ?B3, md5_lo := push_bit 3 (md5_lo ctx)\<rparr>"] b(3,4) by simp
  obtain p q r s where "body_block ?B3 (ctx_state ctx) = (p, q, r, s)" by (cases "body_block ?B3 (ctx_state ctx)")
  then show ?thesis by (simp add: p1 p2 p3 body Let_def out_state_def set_state_def)
qed

lemma pad_count:
  "v < 56 \<Longrightarrow> (119 - v) mod 64 = 56 - Suc v"
  "56 \<le> v \<Longrightarrow> v < 64 \<Longrightarrow> (119 - v) mod 64 = 63 - v + (56 :: nat)"
proof -
  assume "v < 56"
  then have "119 - v = 56 - Suc v + 64 * 1" "56 - Suc v < 64" by simp_all
  then show "(119 - v) mod 64 = 56 - Suc v" by (simp only: mod_mult_self2 mod_less)
next
  assume "56 \<le> v" "v < 64"
  then have "119 - v = 63 - v + 56" "63 - v + 56 < 64" by simp_all
  then show "(119 - v) mod 64 = 63 - v + 56" by (simp only: mod_less)
qed

lemma MD5_Final_holds:
  assumes h: "md5_holds ctx msg"
  shows "MD5_Final ctx = ret (zero_ctx, md5_ref msg)"
proof -
  let ?u = "length msg mod 64" and ?X = "tail64 msg @ [0x80]"
  let ?len = "OUT (push_bit 3 (md5_lo ctx)) @ OUT (md5_hi ctx)"
  have lo: "unat (md5_lo ctx) = length msg mod 2 ^ 29" using h by (simp add: md5_holds_def)
  have u: "?u < 64" "length (tail64 msg) = ?u" "unat (md5_lo ctx AND 0x3f) = ?u"
    unfolding unat_low6 lo by (simp_all add: length_tail64 mod_mod_cancel)
  have b: "length (md5_buffer ctx) = 64" "take ?u (md5_buffer ctx) = tail64 msg" "ctx_state ctx = fold body_block (blocks msg) md5_IV"
    using h by (simp_all add: md5_holds_def)
  let ?c = "ctx\<lparr>md5_buffer := ?X @ drop (Suc ?u) (md5_buffer ctx)\<rparr>"
  have put: "buf_put ?u [0x80] ctx = ret ?c" using b u by (simp add: buf_put_def)
  have pad: "blocks (md5_pad msg) = blocks msg @ blocks (?X @ replicate ((119 - ?u) mod 64) 0 @ ?len)"
    unfolding md5_pad_def final_counts [OF h, symmetric] using blocks_tail(1) [of msg] by simp
  show ?thesis
  proof (cases "?u < 56")
    case True
    have z: "(119 - ?u) mod 64 = 56 - Suc ?u" using True by (rule pad_count)
    have "blocks (?X @ replicate (56 - Suc ?u) 0 @ ?len) = [?X @ replicate (56 - Suc ?u) 0 @ ?len]"
      using blocks_block [of "?X @ replicate (56 - Suc ?u) 0 @ ?len" "[]"] u True by simp
    then have "md5_ref msg = out_state (body_block (?X @ replicate (56 - Suc ?u) 0 @ ?len) (ctx_state ctx))"
      unfolding md5_ref_def pad z by (simp add: b(3))
    moreover have a: "\<not> 63 - ?u < 8" using True by simp
    moreover have "MD5_Final ctx = ret (zero_ctx, out_state (body_block (?X @ replicate (56 - Suc ?u) 0 @ ?len) (ctx_state ctx)))"
      using final_tail [of ?c "Suc ?u" ?X] b u True unfolding MD5_Final_def u(3) by (simp add: put Let_def a)
    ultimately show ?thesis by simp
  next
    case False
    let ?B = "?X @ replicate (63 - ?u) 0"
    have z: "(119 - ?u) mod 64 = (63 - ?u) + 56" using False u(1) by (intro pad_count) simp_all
    have B: "length ?B = 64" using u by simp
    have "blocks (?X @ replicate ((119 - ?u) mod 64) 0 @ ?len) = blocks (?B @ (replicate 56 0 @ ?len))"
      unfolding z replicate_add by simp
    also have "\<dots> = [?B, replicate 56 0 @ ?len]"
      using blocks_block [OF B, of "replicate 56 0 @ ?len"] blocks_block [of "replicate 56 0 @ ?len" "[]"] by simp
    finally have r: "md5_ref msg = out_state (body_block (replicate 56 0 @ ?len) (body_block ?B (ctx_state ctx)))"
      unfolding md5_ref_def pad by (simp add: b(3))
    let ?c1 = "ctx\<lparr>md5_buffer := ?B\<rparr>" and ?st = "body_block ?B (ctx_state ctx)"
    have put1: "buf_put (Suc ?u) (replicate (63 - ?u) 0) ?c = ret ?c1" using b u by (simp add: buf_put_def)
    have body: "body_ctx ?B 64 ?c1 = ret (set_state ?st ?c1, [])"
      using body_ctx_block [of ?c1] B by simp
    have a: "63 - ?u < 8" using False by simp
    show ?thesis
      using final_tail [of "set_state ?st ?c1" 0 "[]"] b u False B a unfolding MD5_Final_def u(3) r
      by (simp add: put put1 [unfolded append_assoc append.simps] body [unfolded append_assoc append.simps] Let_def)
  qed
qed

lemma Init_holds: "length (md5_buffer ctx) = 64 \<Longrightarrow> md5_holds (MD5_Init ctx) []"
  by (simp add: md5_holds_def MD5_Init_def ctx_state_def md5_IV_def tail64_def)

definition update_all :: "u8 list list \<Rightarrow> md5_ctx \<Rightarrow> md5_ctx res" where
  "update_all parts ctx = iter_res (\<lambda>data. MD5_Update data (word_of_nat (length data))) parts ctx"

lemma update_all_holds:
  "md5_holds ctx msg \<Longrightarrow> \<forall>p \<in> set parts. length p < 2 ^ 63 \<Longrightarrow>
   \<exists>ctx'. update_all parts ctx = ret ctx' \<and> md5_holds ctx' (msg @ concat parts)"
proof (induction parts arbitrary: ctx msg)
  case (Cons p parts)
  from MD5_Update_holds [OF Cons.prems(1), of p] Cons.prems(2) obtain c where
    c: "MD5_Update p (word_of_nat (length p)) ctx = ret c" "md5_holds c (msg @ p)" by auto
  from Cons.IH [OF c(2)] Cons.prems(2) c(1) show ?case by (simp add: update_all_def)
qed (simp add: update_all_def)

definition demo_ctx :: md5_ctx where
  "demo_ctx = \<lparr>md5_lo = 0, md5_hi = 0, md5_a = 0, md5_b = 0, md5_c = 0, md5_d = 0, md5_buffer = replicate 64 0\<rparr>"

lemma MD5_Digest_ref:
  assumes "length (md5_buffer ctx) = 64" and "length data < 2 ^ 63"
  shows "MD5_Digest ctx data (word_of_nat (length data)) = ret (md5_ref data)"
  using MD5_Update_holds [OF Init_holds [OF assms(1)] assms(2)] MD5_Final_holds by (auto simp: MD5_Digest_def)

lemma length_md5_ref [simp]: "length (md5_ref data) = 16"
  by (simp add: md5_ref_def out_state_def split: prod.splits)

subsection \<open>A test vector\<close>

text \<open>The digest of ``abc'' from RFC 1321, one round at a time.\<close>

definition abc_words :: "u32 list" where
  "abc_words = [0x80636261, 0, 0, 0, 0, 0, 0, 0, 0, 0, 0, 0, 0, 0, 24, 0]"

definition abc_block :: "u8 list" where
  "abc_block = [97, 98, 99, 0x80] @ replicate 52 0 @ [24, 0, 0, 0, 0, 0, 0, 0]"

lemma abc_blocks: "blocks (md5_pad [97, 98, 99]) = [abc_block]"
  by (simp add: abc_block_def md5_pad_def blocks.simps OUT_def)

lemma abc_GET: "n \<in> set [0, 1, 2, 3, 4, 5, 6, 7, 8, 9, 10, 11, 12, 13, 14, 15] \<Longrightarrow> GET abc_block n = abc_words ! n"
  by (auto simp: abc_words_def abc_block_def GET_def nth_append)

lemma abc_round1: "fold (\<lambda>(f, n, t, s). STEP f (GET abc_block n) t s) md5_round1 (0x67452301, 0xefcdab89, 0x98badcfe, 0x10325476) = (0xdda9b9a6, 0x72aff2e0, 0xe396856b, 0xa1051895)"
  unfolding md5_round1_def by (simp add: abc_GET abc_words_def STEP_def Let_def md5_F_def)

lemma abc_round2: "fold (\<lambda>(f, n, t, s). STEP f (GET abc_block n) t s) md5_round2 (0xdda9b9a6, 0x72aff2e0, 0xe396856b, 0xa1051895) = (0x790a77fb, 0x726342d3, 0xa62884aa, 0x9f47e4f8)"
  unfolding md5_round2_def by (simp add: abc_GET abc_words_def STEP_def Let_def md5_G_def)

lemma abc_round3: "fold (\<lambda>(f, n, t, s). STEP f (GET abc_block n) t s) md5_round3 (0x790a77fb, 0x726342d3, 0xa62884aa, 0x9f47e4f8) = (0x7f2e507b, 0x7beb9700, 0x8fae6399, 0x99d9679d)"
  unfolding md5_round3_def by (simp add: abc_GET abc_words_def STEP_def Let_def md5_H_def md5_H2_def)

lemma abc_round4: "fold (\<lambda>(f, n, t, s). STEP f (GET abc_block n) t s) md5_round4 (0x7f2e507b, 0x7beb9700, 0x8fae6399, 0x99d9679d) = (0x310ade8f, 0xc08226b3, 0xe484b9d8, 0x624d8cb2)"
  unfolding md5_round4_def by (simp add: abc_GET abc_words_def STEP_def Let_def md5_I_def)

subsection \<open>Properties\<close>

text \<open>C19: \<^verbatim>\<open>MD5_Init\<close>, any number of \<^verbatim>\<open>MD5_Update\<close> calls and \<^verbatim>\<open>MD5_Final\<close> return, clear the context and give the digest of the
  concatenated parts: the blocks of the message padded with a one bit, zeros and the length in bits, run through the
  compression function. The buffering, the carry between the counters and the padding across a block border are right.\<close>

theorem md5_streaming:
  assumes "length (md5_buffer ctx) = 64" and "\<forall>p \<in> set parts. length p < 2 ^ 63"
  shows "bind_res (update_all parts (MD5_Init ctx)) MD5_Final = ret (zero_ctx, md5_ref (concat parts))"
  using update_all_holds [OF Init_holds [OF assms(1)] assms(2)] MD5_Final_holds by auto

theorem md5_streaming_witness:
  "bind_res (update_all [[97], [98, 99]] (MD5_Init demo_ctx)) MD5_Final = ret (zero_ctx, md5_ref [97, 98, 99])"
  using md5_streaming [of demo_ctx "[[97], [98, 99]]"] by (simp add: demo_ctx_def)

text \<open>The optimised functions \<^verbatim>\<open>F\<close>, \<^verbatim>\<open>G\<close>, \<^verbatim>\<open>H\<close>, \<^verbatim>\<open>H2\<close> and \<^verbatim>\<open>I\<close> of the source are the ones of RFC 1321.\<close>

lemma md5_functions_rfc:
  "md5_F x y z = (x AND y) OR (NOT x AND z) \<and> md5_G x y z = (x AND z) OR (y AND NOT z) \<and>
   md5_H2 x y z = md5_H x y z \<and> md5_H x y z = x XOR y XOR z \<and> md5_I x y z = y XOR (x OR NOT z)"
  by (auto simp: md5_F_def md5_G_def md5_H_def md5_H2_def md5_I_def bit_simps xor.assoc intro!: bit_eqI)

text \<open>The digest of the string abc is the one in the test suite of RFC 1321.\<close>

lemma md5_abc: "MD5_Digest demo_ctx [97, 98, 99] 3 = ret [0x90, 0x01, 0x50, 0x98, 0x3c, 0xd2, 0x4f, 0xb0, 0xd6, 0x96, 0x3f, 0x7d, 0x28, 0xe1, 0x7f, 0x72]"
proof -
  have "run_steps abc_block md5_IV = (0x310ade8f, 0xc08226b3, 0xe484b9d8, 0x624d8cb2)"
    by (simp add: run_steps_def md5_IV_def abc_round1 abc_round2 abc_round3 abc_round4)
  then have "md5_ref [97, 98, 99] = [0x90, 0x01, 0x50, 0x98, 0x3c, 0xd2, 0x4f, 0xb0, 0xd6, 0x96, 0x3f, 0x7d, 0x28, 0xe1, 0x7f, 0x72]"
    by (simp add: md5_ref_def abc_blocks body_block_def md5_IV_def out_state_def OUT_def)
  then show ?thesis using MD5_Digest_ref [of demo_ctx "[97, 98, 99]"] by (simp add: demo_ctx_def)
qed

end
