(* ===== verification/Strings.thy ===== *)
theory Strings
  imports Kernel_Prelude
begin

section \<open>Strings and memory blocks\<close>

text \<open>
  \<^verbatim>\<open>util/ctype.c\<close> and \<^verbatim>\<open>util/string.c\<close>. Memory is a total function from addresses to bytes, so a read never faults;
  a loop that would run over memory without a terminator is a partial function whose value is then \<^term>\<open>None\<close>.
  The functions of the file that only print that they are undefined (\<^verbatim>\<open>memchr\<close>, \<^verbatim>\<open>memmove\<close>, \<^verbatim>\<open>strcoll\<close>, \<^verbatim>\<open>strerror\<close>,
  \<^verbatim>\<open>strpbrk\<close>, \<^verbatim>\<open>strspn\<close>, \<^verbatim>\<open>strxfrm\<close>) are left out.
  The lemmas relate each function to the list of characters a terminated string holds (\<open>cstr\<close>): copies and concatenations,
  searches, comparisons, numbers with their overflow behaviour, and little-endian loads and stores.
\<close>

type_synonym memory = "u64 \<Rightarrow> u8"

subsection \<open>Character classes\<close>

definition isupper :: "int \<Rightarrow> bool" where
  "isupper c \<longleftrightarrow> 65 \<le> c \<and> c \<le> 90"

definition islower :: "int \<Rightarrow> bool" where
  "islower c \<longleftrightarrow> 97 \<le> c \<and> c \<le> 122"

definition isalpha :: "int \<Rightarrow> bool" where
  "isalpha c \<longleftrightarrow> isupper c \<or> islower c"

definition isdigit :: "int \<Rightarrow> bool" where
  "isdigit c \<longleftrightarrow> 48 \<le> c \<and> c \<le> 57"

definition isalnum :: "int \<Rightarrow> bool" where
  "isalnum c \<longleftrightarrow> isalpha c \<or> isdigit c"

definition iscntrl :: "int \<Rightarrow> bool" where
  "iscntrl c \<longleftrightarrow> (0 \<le> c \<and> c \<le> 31) \<or> c = 127"

definition isgraph :: "int \<Rightarrow> bool" where
  "isgraph c \<longleftrightarrow> 33 \<le> c \<and> c \<le> 126"

definition isprint :: "int \<Rightarrow> bool" where
  "isprint c \<longleftrightarrow> 32 \<le> c \<and> c \<le> 126"

definition ispunct :: "int \<Rightarrow> bool" where
  "ispunct c \<longleftrightarrow> isgraph c \<and> \<not> isalnum c"

definition isspace :: "int \<Rightarrow> bool" where
  "isspace c \<longleftrightarrow> c = 32 \<or> c = 9"

definition isxdigit :: "int \<Rightarrow> bool" where
  "isxdigit c \<longleftrightarrow> isdigit c \<or> (97 \<le> c \<and> c \<le> 102) \<or> (65 \<le> c \<and> c \<le> 70)"

definition tolower :: "int \<Rightarrow> int" where
  "tolower c = (if isupper c then c + 32 else c)"

definition toupper :: "int \<Rightarrow> int" where
  "toupper c = (if islower c then c - 32 else c)"

subsection \<open>Blocks of memory\<close>

definition memset :: "memory \<Rightarrow> u64 \<Rightarrow> 32 word \<Rightarrow> u64 \<Rightarrow> memory" where
  "memset mem dest val sz = fold (\<lambda>i m. m(dest + word_of_nat i := ucast val)) [0..<unat sz] mem"

definition memcpy :: "memory \<Rightarrow> u64 \<Rightarrow> u64 \<Rightarrow> u64 \<Rightarrow> memory" where
  "memcpy mem dest src sz = fold (\<lambda>i m. m(dest + word_of_nat i := m (src + word_of_nat i))) [0..<unat sz] mem"

text \<open>The index is a \<^verbatim>\<open>uint64_t\<close> returned as an \<^verbatim>\<open>int\<close>.\<close>

definition zerocheck :: "memory \<Rightarrow> u64 \<Rightarrow> u64 \<Rightarrow> int" where
  "zerocheck mem dest sz =
     (case find (\<lambda>i. mem (dest + word_of_nat i) \<noteq> 0) [0..<unat sz] of
        Some i \<Rightarrow> sint (word_of_nat i :: 32 word) | None \<Rightarrow> -1)"

definition memcmp :: "memory \<Rightarrow> u64 \<Rightarrow> u64 \<Rightarrow> u64 \<Rightarrow> u64" where
  "memcmp mem dest src sz =
     (case find (\<lambda>i. mem (dest + word_of_nat i) \<noteq> mem (src + word_of_nat i)) [0..<unat sz] of
        Some _ \<Rightarrow> 1 | None \<Rightarrow> 0)"

subsection \<open>Copying strings\<close>

text \<open>A loop that runs to the end of a string does not return (\<^term>\<open>None\<close>) on a memory without one.\<close>

partial_function (option) str_end :: "memory \<Rightarrow> u64 \<Rightarrow> u64 option" where
  "str_end mem p = (if mem p \<noteq> 0 then str_end mem (p + 1) else Some p)"

partial_function (option) strcat_copy :: "memory \<Rightarrow> u64 \<Rightarrow> u64 \<Rightarrow> memory option" where
  "strcat_copy mem dest src =
     (if mem src \<noteq> 0 then strcat_copy (mem(dest := mem src)) (dest + 1) (src + 1)
      else Some (mem(dest := 0)))"

definition strcat :: "memory \<Rightarrow> u64 \<Rightarrow> u64 \<Rightarrow> (memory \<times> u64) option" where
  "strcat mem dest src =
     Option.bind (str_end mem dest) (\<lambda>d. map_option (\<lambda>m. (m, dest)) (strcat_copy mem d src))"

function strncat_copy :: "memory \<Rightarrow> u64 \<Rightarrow> u64 \<Rightarrow> u64 \<Rightarrow> memory" where
  "strncat_copy mem dest src n =
     (if mem src \<noteq> 0 \<and> n > 0 then strncat_copy (mem(dest := mem src)) (dest + 1) (src + 1) (n - 1)
      else mem(dest := 0))"
  by pat_completeness auto

termination
  by (relation "measure (\<lambda>(mem, dest, src, n). unat n)") (simp_all add: measure_unat word_gt_0)

declare strncat_copy.simps [simp del]

definition strncat :: "memory \<Rightarrow> u64 \<Rightarrow> u64 \<Rightarrow> u64 \<Rightarrow> (memory \<times> u64) option" where
  "strncat mem dest src n = map_option (\<lambda>d. (strncat_copy mem d src n, dest)) (str_end mem dest)"

partial_function (option) strcpy_loop :: "memory \<Rightarrow> u64 \<Rightarrow> u64 \<Rightarrow> u64 \<Rightarrow> memory option" where
  "strcpy_loop mem dest src i =
     (if mem (src + i) \<noteq> 0 then strcpy_loop (mem(dest + i := mem (src + i))) dest src (i + 1)
      else Some (mem(dest + i := 0)))"

definition strcpy :: "memory \<Rightarrow> u64 \<Rightarrow> u64 \<Rightarrow> (memory \<times> u64) option" where
  "strcpy mem dest src = map_option (\<lambda>m. (m, dest)) (strcpy_loop mem dest src 0)"

definition STR_MAX_SIZE :: u64 where
  "STR_MAX_SIZE = 65536"

function strlen_loop :: "memory \<Rightarrow> u64 \<Rightarrow> u64 \<Rightarrow> u64" where
  "strlen_loop mem str len =
     (if mem str \<noteq> 0 \<and> len < STR_MAX_SIZE then strlen_loop mem (str + 1) (len + 1) else len)"
  by pat_completeness auto

termination
proof (relation "measure (\<lambda>(mem, str, len). 65536 - unat len)")
  fix mem :: memory and str len :: u64
  assume "mem str \<noteq> 0 \<and> len < STR_MAX_SIZE"
  then have l: "len < 65536" by (simp add: STR_MAX_SIZE_def)
  then have "unat (len + 1) = Suc (unat len)" by (rule word_plus_1_nat)
  with l show "((mem, str + 1, len + 1), mem, str, len) \<in> measure (\<lambda>(mem, str, len). 65536 - unat len)"
    by (simp add: word_less_nat_alt)
qed simp

declare strlen_loop.simps [simp del]

definition strlen :: "memory \<Rightarrow> u64 \<Rightarrow> u64" where
  "strlen mem str = strlen_loop mem str 0"

function strncpy_loop :: "memory \<Rightarrow> u64 \<Rightarrow> u64 \<Rightarrow> u64 \<Rightarrow> u64 \<Rightarrow> memory" where
  "strncpy_loop mem dest src n i =
     (if i < n \<and> mem (src + i) \<noteq> 0 then strncpy_loop (mem(dest + i := mem (src + i))) dest src n (i + 1)
      else mem(dest + i := 0))"
  by pat_completeness auto

termination
proof (relation "measure (\<lambda>(mem, dest, src, n, i). unat n - unat i)")
  fix mem :: memory and dest src n i :: u64
  assume "i < n \<and> mem (src + i) \<noteq> 0"
  then have "unat (i + 1) = Suc (unat i)" "unat i < unat n" using word_plus_1_nat [of i n] by (simp_all add: word_less_nat_alt)
  then show "((mem(dest + i := mem (src + i)), dest, src, n, i + 1), mem, dest, src, n, i)
    \<in> measure (\<lambda>(mem, dest, src, n, i). unat n - unat i)" by simp
qed simp

declare strncpy_loop.simps [simp del]

definition strncpy :: "memory \<Rightarrow> u64 \<Rightarrow> u64 \<Rightarrow> u64 \<Rightarrow> memory" where
  "strncpy mem dest src n =
     (let n = (if strlen mem src < n then strlen mem src else n) in strncpy_loop mem dest src n 0)"

subsection \<open>Searching strings\<close>

text \<open>A \<^verbatim>\<open>char\<close> is signed: it is compared with an \<^verbatim>\<open>int\<close> after sign extension.\<close>

abbreviation schar :: "u8 \<Rightarrow> int" where
  "schar c \<equiv> sint c"

partial_function (option) strchr :: "memory \<Rightarrow> u64 \<Rightarrow> int \<Rightarrow> u64 option" where
  "strchr mem str ch =
     (if mem str \<noteq> 0 then (if schar (mem str) = ch then Some str else strchr mem (str + 1) ch)
      else if schar (mem str) = ch then Some str else Some 0)"

partial_function (option) strrchr_loop :: "memory \<Rightarrow> u64 \<Rightarrow> int \<Rightarrow> u64 \<Rightarrow> u64 option" where
  "strrchr_loop mem str ch lst =
     (if mem str \<noteq> 0 then strrchr_loop mem (str + 1) ch (if schar (mem str) = ch then str else lst)
      else Some (if schar (mem str) = ch then str else lst))"

definition strrchr :: "memory \<Rightarrow> u64 \<Rightarrow> int \<Rightarrow> u64 option" where
  "strrchr mem str ch = strrchr_loop mem str ch 0"

partial_function (option) strcspn_reject :: "memory \<Rightarrow> u8 \<Rightarrow> u64 \<Rightarrow> bool option" where
  "strcspn_reject mem c r =
     (if mem r \<noteq> 0 then (if c = mem r then Some True else strcspn_reject mem c (r + 1)) else Some False)"

partial_function (option) strcspn_loop :: "memory \<Rightarrow> u64 \<Rightarrow> u64 \<Rightarrow> u64 \<Rightarrow> u64 option" where
  "strcspn_loop mem s reject count =
     (if mem s \<noteq> 0 then Option.bind (strcspn_reject mem (mem s) reject) (\<lambda>hit.
        if hit then Some count else strcspn_loop mem (s + 1) reject (count + 1))
      else Some count)"

definition strcspn :: "memory \<Rightarrow> u64 \<Rightarrow> u64 \<Rightarrow> u64 option" where
  "strcspn mem str reject = strcspn_loop mem str reject 0"

partial_function (option) strstr_match :: "memory \<Rightarrow> u64 \<Rightarrow> u64 \<Rightarrow> u64 option" where
  "strstr_match mem h n = (if mem h = mem n \<and> mem n \<noteq> 0 then strstr_match mem (h + 1) (n + 1) else Some n)"

partial_function (option) strstr :: "memory \<Rightarrow> u64 \<Rightarrow> u64 \<Rightarrow> u64 option" where
  "strstr mem haystack needle =
     (if mem haystack \<noteq> 0 then Option.bind (strstr_match mem haystack needle) (\<lambda>n.
        if mem n = 0 then Some haystack else strstr mem (haystack + 1) needle)
      else Some 0)"

subsection \<open>Comparing strings\<close>

partial_function (option) strcmp :: "memory \<Rightarrow> u64 \<Rightarrow> u64 \<Rightarrow> int option" where
  "strcmp mem s1 s2 =
     (if mem s1 \<noteq> 0 \<and> mem s2 \<noteq> 0 \<and> mem s1 = mem s2 then strcmp mem (s1 + 1) (s2 + 1)
      else Some (schar (mem s1) - schar (mem s2)))"

fun strncmp_loop :: "memory \<Rightarrow> u64 \<Rightarrow> u64 \<Rightarrow> nat \<Rightarrow> int" where
  "strncmp_loop mem s1 s2 0 = 0"
| "strncmp_loop mem s1 s2 (Suc n) =
     (if mem s1 \<noteq> mem s2 then uint (mem s1) - uint (mem s2)
      else if mem s1 = 0 then 0
      else strncmp_loop mem (s1 + 1) (s2 + 1) n)"

definition strncmp :: "memory \<Rightarrow> u64 \<Rightarrow> u64 \<Rightarrow> u64 \<Rightarrow> int" where
  "strncmp mem s1 s2 n = (if n = 0 then 0 else strncmp_loop mem s1 s2 (unat n))"

subsection \<open>Numbers in strings\<close>

partial_function (option) skip_spaces :: "memory \<Rightarrow> u64 \<Rightarrow> u64 option" where
  "skip_spaces mem nptr = (if isspace (schar (mem nptr)) then skip_spaces mem (nptr + 1) else Some nptr)"

partial_function (option) skip_nondigits :: "memory \<Rightarrow> u64 \<Rightarrow> u64 option" where
  "skip_nondigits mem nptr = (if \<not> isdigit (schar (mem nptr)) then skip_nondigits mem (nptr + 1) else Some nptr)"

definition atou64_prefix :: "memory \<Rightarrow> u64 \<Rightarrow> u64 \<times> u64" where
  "atou64_prefix mem nptr =
     (if mem nptr = 48 \<and> mem (nptr + 1) = 120 then (16, nptr + 2)
      else if mem nptr = 48 \<and> mem (nptr + 1) = 98 then (2, nptr + 2)
      else (10, nptr))"

definition atou64_digit :: "int \<Rightarrow> u64" where
  "atou64_digit c =
     (if isdigit c then word_of_int (c - 48)
      else if isxdigit c then
        (if 97 \<le> c \<and> c \<le> 102 then word_of_int (c - 97 + 10)
         else if 65 \<le> c \<and> c \<le> 70 then word_of_int (c - 65 + 10)
         else 0)
      else 0)"

definition atou64_sum :: "memory \<Rightarrow> u64 \<Rightarrow> u64 \<Rightarrow> u64 \<Rightarrow> u64 \<times> u64" where
  "atou64_sum mem nptr base len =
     fold (\<lambda>i (result, multiplier).
       (result + atou64_digit (schar (mem (nptr + (len - word_of_nat i - 1)))) * multiplier, multiplier * base))
       [0..<unat len] (0, 1)"

definition atou64 :: "memory \<Rightarrow> u64 \<Rightarrow> u64 option" where
  "atou64 mem nptr =
     Option.bind (skip_spaces mem nptr) (\<lambda>nptr.
       case atou64_prefix mem nptr of (base, nptr) \<Rightarrow>
         Option.bind (skip_nondigits mem nptr) (\<lambda>nptr.
           Some (fst (atou64_sum mem nptr base (strlen mem nptr)))))"

definition atou8 :: "memory \<Rightarrow> u64 \<Rightarrow> u8 option" where
  "atou8 mem nptr = map_option ucast (atou64 mem nptr)"

partial_function (option) strtoull_skip :: "memory \<Rightarrow> u64 \<Rightarrow> (int \<times> u64) option" where
  "strtoull_skip mem s =
     (if isspace (schar (mem s)) then strtoull_skip mem (s + 1) else Some (schar (mem s), s + 1))"

definition strtoull_sign :: "memory \<Rightarrow> int \<Rightarrow> u64 \<Rightarrow> bool \<times> int \<times> u64" where
  "strtoull_sign mem c s =
     (if c = 45 then (True, schar (mem s), s + 1)
      else if c = 43 then (False, schar (mem s), s + 1)
      else (False, c, s))"

definition strtoull_prefix :: "memory \<Rightarrow> int \<Rightarrow> int \<Rightarrow> u64 \<Rightarrow> int \<times> int \<times> u64" where
  "strtoull_prefix mem base c s =
     (let (base, c, s) =
        (if (base = 0 \<or> base = 16) \<and> c = 48 \<and> (mem s = 120 \<or> mem s = 88)
         then (16, schar (mem (s + 1)), s + 2) else (base, c, s))
      in (if base = 0 then (if c = 48 then 8 else 10) else base, c, s))"

definition strtoull_digit :: "int \<Rightarrow> int option" where
  "strtoull_digit c =
     (if isdigit c then Some (c - 48)
      else if isalpha c then Some (c - (if isupper c then 65 - 10 else 97 - 10))
      else None)"

partial_function (option) strtoull_loop ::
  "memory \<Rightarrow> int \<Rightarrow> u64 \<Rightarrow> int \<Rightarrow> u64 \<Rightarrow> int \<Rightarrow> int \<Rightarrow> u64 \<Rightarrow> (u64 \<times> int \<times> u64) option" where
  "strtoull_loop mem base cutoff cutlim acc anyd c s =
     (case strtoull_digit c of
        None \<Rightarrow> Some (acc, anyd, s)
      | Some d \<Rightarrow>
          if d \<ge> base then Some (acc, anyd, s)
          else if anyd < 0 \<or> acc > cutoff \<or> (acc = cutoff \<and> d > cutlim)
          then strtoull_loop mem base cutoff cutlim acc (-1) (schar (mem s)) (s + 1)
          else strtoull_loop mem base cutoff cutlim (acc * word_of_int base + word_of_int d) 1 (schar (mem s)) (s + 1))"

text \<open>The result is the number and the end pointer.\<close>

definition strtoull :: "memory \<Rightarrow> u64 \<Rightarrow> int \<Rightarrow> (u64 \<times> u64) option" where
  "strtoull mem nptr base =
     Option.bind (strtoull_skip mem nptr) (\<lambda>(c, s).
       let (neg, c, s) = strtoull_sign mem c s;
           (base, c, s) = strtoull_prefix mem base c s;
           cutoff = (-1 :: u64) div word_of_int base;
           cutlim = sint (ucast ((-1 :: u64) mod word_of_int base) :: 32 word)
       in Option.bind (strtoull_loop mem base cutoff cutlim 0 0 c s) (\<lambda>(acc, anyd, s).
            Some (if anyd < 0 then -1 else if neg then - acc else acc, if anyd \<noteq> 0 then s - 1 else nptr)))"

subsection \<open>Tokens\<close>

text \<open>
  The two nested loops of \<^verbatim>\<open>strtok\<close>: \<open>None\<close> for \<open>d\<close> is the head of the outer loop, \<open>Some d\<close> the head of the inner one.
  The \<^verbatim>\<open>continue\<close> stays in the inner loop. The static variable is threaded through.
\<close>

partial_function (option) strtok_loop :: "u64 \<Rightarrow> memory \<Rightarrow> u64 \<Rightarrow> u64 \<Rightarrow> u64 option \<Rightarrow> (memory \<times> u64 \<times> u64) option" where
  "strtok_loop delim mem lastToken tokenStart dp =
     (case dp of
        None \<Rightarrow>
          if mem lastToken \<noteq> 0 then strtok_loop delim mem lastToken tokenStart (Some delim)
          else Some (mem, lastToken, if tokenStart = lastToken then 0 else tokenStart)
      | Some d \<Rightarrow>
          if mem d \<noteq> 0 then
            if mem lastToken = mem d then
              if tokenStart = lastToken + 1 - 1
              then strtok_loop delim (mem(lastToken := 0)) (lastToken + 1) (lastToken + 1) (Some d)
              else Some (mem(lastToken := 0), lastToken + 1, tokenStart)
            else strtok_loop delim mem lastToken tokenStart (Some (d + 1))
          else strtok_loop delim mem (lastToken + 1) tokenStart None)"

definition strtok :: "u64 \<Rightarrow> memory \<Rightarrow> u64 \<Rightarrow> u64 \<Rightarrow> (memory \<times> u64 \<times> u64) option" where
  "strtok lastToken mem s delim =
     (if s \<noteq> 0 then strtok_loop delim mem s s None
      else if lastToken = 0 then Some (mem, lastToken, 0)
      else strtok_loop delim mem lastToken lastToken None)"

subsection \<open>Little-endian loads and stores\<close>

definition store32 :: "memory \<Rightarrow> u64 \<Rightarrow> 32 word \<Rightarrow> memory" where
  "store32 mem dest value =
     mem(dest := ucast value, dest + 1 := ucast (drop_bit 8 value), dest + 2 := ucast (drop_bit 8 (drop_bit 8 value)),
         dest + 3 := ucast (drop_bit 8 (drop_bit 8 (drop_bit 8 value))))"

definition store16 :: "memory \<Rightarrow> u64 \<Rightarrow> 16 word \<Rightarrow> memory" where
  "store16 mem dest value = mem(dest := ucast value, dest + 1 := ucast (drop_bit 8 value))"

text \<open>A byte is promoted to \<^verbatim>\<open>int\<close> before it is shifted, and the result is sign-extended to the type of the value.\<close>

definition int_shl :: "u8 \<Rightarrow> nat \<Rightarrow> 32 word" where
  "int_shl b k = push_bit k (ucast b)"

definition load64 :: "memory \<Rightarrow> u64 \<Rightarrow> u64" where
  "load64 mem src =
     ucast (mem src) OR scast (int_shl (mem (src + 1)) 8) OR scast (int_shl (mem (src + 2)) 16) OR
     scast (int_shl (mem (src + 3)) 24) OR push_bit 32 (ucast (mem (src + 4))) OR push_bit 40 (ucast (mem (src + 5))) OR
     push_bit 48 (ucast (mem (src + 6))) OR push_bit 56 (ucast (mem (src + 7)))"

definition load48 :: "memory \<Rightarrow> u64 \<Rightarrow> u64" where
  "load48 mem src =
     ucast (mem src) OR scast (int_shl (mem (src + 1)) 8) OR scast (int_shl (mem (src + 2)) 16) OR
     scast (int_shl (mem (src + 3)) 24) OR push_bit 32 (ucast (mem (src + 4))) OR push_bit 40 (ucast (mem (src + 5)))"

definition load32 :: "memory \<Rightarrow> u64 \<Rightarrow> 32 word" where
  "load32 mem src =
     ucast (mem src) OR int_shl (mem (src + 1)) 8 OR int_shl (mem (src + 2)) 16 OR int_shl (mem (src + 3)) 24"

definition load16 :: "memory \<Rightarrow> u64 \<Rightarrow> 16 word" where
  "load16 mem src = ucast (mem src) OR ucast (int_shl (mem (src + 1)) 8)"

subsection \<open>Strings in memory\<close>

fun cstr :: "memory \<Rightarrow> u64 \<Rightarrow> u8 list \<Rightarrow> bool" where
  "cstr mem p [] \<longleftrightarrow> mem p = 0"
| "cstr mem p (c # s) \<longleftrightarrow> mem p = c \<and> c \<noteq> 0 \<and> cstr mem (p + 1) s"

primrec region :: "u64 \<Rightarrow> nat \<Rightarrow> u64 set" where
  "region p 0 = {}"
| "region p (Suc n) = insert p (region (p + 1) n)"

primrec store_bytes :: "memory \<Rightarrow> u64 \<Rightarrow> u8 list \<Rightarrow> memory" where
  "store_bytes mem p [] = mem"
| "store_bytes mem p (b # bs) = store_bytes (mem(p := b)) (p + 1) bs"

lemma mem_region: "a \<in> region p n \<longleftrightarrow> (\<exists>i<n. a = p + word_of_nat i)"
proof (induction n arbitrary: p)
  case (Suc n)
  have "(\<exists>i<Suc n. a = p + word_of_nat i) \<longleftrightarrow> a = p \<or> (\<exists>i<n. a = p + 1 + word_of_nat i)"
    by (auto simp: less_Suc_eq_0_disj)
  with Suc show ?case by simp
qed simp

lemma region_first: "p \<in> region p n \<longleftrightarrow> 0 < n"
  by (cases n) simp_all

lemma region_next: "n < 2 ^ 64 \<Longrightarrow> p \<notin> region (p + 1) n"
proof
  assume n: "n < 2 ^ 64" and "p \<in> region (p + 1) n"
  then obtain i where i: "i < n" "p = p + 1 + word_of_nat i" by (auto simp: mem_region)
  then have "word_of_nat (Suc i) = (0 :: u64)" by (simp add: add.assoc)
  moreover have "unat (word_of_nat (Suc i) :: u64) = Suc i \<or> Suc i = 2 ^ 64"
    using n i(1) unat_of_nat_small [of "Suc i"] by linarith
  ultimately show False using i(1) n by auto
qed

lemma store_bytes_frame [simp]: "a \<notin> region p (length bs) \<Longrightarrow> store_bytes mem p bs a = mem a"
  by (induction bs arbitrary: mem p) auto

lemma cstr_cong: "(\<And>a. a \<in> region p (Suc (length s)) \<Longrightarrow> m' a = m a) \<Longrightarrow> cstr m' p s = cstr m p s"
proof (induction s arbitrary: p)
  case (Cons c s)
  have "m' a = m a" if "a \<in> region (p + 1) (Suc (length s))" for a using that by (intro Cons.prems) simp
  from Cons.IH [OF this] have "cstr m' (p + 1) s = cstr m (p + 1) s" .
  moreover have "m' p = m p" by (intro Cons.prems) simp
  ultimately show ?case by simp
qed simp

lemma cstr_frame: "a \<notin> region p (Suc (length s)) \<Longrightarrow> cstr (m(a := b)) p s = cstr m p s"
  by (rule cstr_cong) auto

lemma region_apart_step:
  "region d (Suc (length (c # s))) \<inter> region p (Suc (length (c # s))) = {} \<Longrightarrow>
    region (d + 1) (Suc (length s)) \<inter> region (p + 1) (Suc (length s)) = {} \<and> d \<notin> region (p + 1) (Suc (length s))"
  by (simp only: list.size(4) add_Suc_right add_0_right region.simps(2) [where n = "Suc _"]) blast

lemma cstr_stored:
  "length s < 2 ^ 64 \<Longrightarrow> 0 \<notin> set s \<Longrightarrow> cstr (store_bytes mem p (s @ [0])) p s"
proof (induction s arbitrary: mem p)
  case (Cons c s)
  have "p \<notin> region (p + 1) (length (s @ [0]))" using Cons.prems by (intro region_next) simp
  then show ?case using Cons by simp
qed simp

lemma cstr_append: "cstr mem p (s @ t) \<longleftrightarrow> (\<forall>i<length s. mem (p + word_of_nat i) = s ! i) \<and> 0 \<notin> set s \<and> cstr mem (p + word_of_nat (length s)) t"
proof (induction s arbitrary: p)
  case (Cons c s)
  have "(\<forall>i<length (c # s). mem (p + word_of_nat i) = (c # s) ! i) \<longleftrightarrow> mem p = c \<and> (\<forall>i<length s. mem (p + 1 + word_of_nat i) = s ! i)"
    by (simp add: All_less_Suc2 add.assoc)
  with Cons show ?case by (auto simp: add.assoc)
qed simp

lemma cstr_nz: "cstr mem p s \<Longrightarrow> 0 \<notin> set s"
  by (induction s arbitrary: p) auto

lemma cstr_nth: "cstr mem p s \<Longrightarrow> i < length s \<Longrightarrow> mem (p + word_of_nat i) = s ! i"
  using cstr_append [of mem p s "[]"] by simp

subsection \<open>Copies\<close>

lemma str_end_cstr: "cstr mem p s \<Longrightarrow> str_end mem p = Some (p + word_of_nat (length s))"
  by (induction s arbitrary: p) (subst str_end.simps, simp add: add.assoc)+

lemma strcat_copy_cstr:
  "cstr mem src s \<Longrightarrow> region dest (Suc (length s)) \<inter> region src (Suc (length s)) = {} \<Longrightarrow>
    strcat_copy mem dest src = Some (store_bytes mem dest (s @ [0]))"
proof (induction s arbitrary: mem dest src)
  case (Cons c s)
  note a = region_apart_step [OF Cons.prems(2)]
  have "cstr (mem(dest := c)) (src + 1) s" using Cons.prems(1) a by (simp add: cstr_frame)
  from Cons.IH [OF this] a have "strcat_copy (mem(dest := c)) (dest + 1) (src + 1) = Some (store_bytes (mem(dest := c)) (dest + 1) (s @ [0]))" by blast
  then show ?case using Cons.prems by (subst strcat_copy.simps) simp
qed (subst strcat_copy.simps, simp)

lemma strncat_copy_cstr:
  "cstr mem src s \<Longrightarrow> region dest (Suc (length s)) \<inter> region src (Suc (length s)) = {} \<Longrightarrow>
    strncat_copy mem dest src n = store_bytes mem dest (take (unat n) s @ [0])"
proof (induction s arbitrary: mem dest src n)
  case (Cons c s)
  show ?case
  proof (cases "n = 0")
    case False
    then have "unat n = Suc (unat (n - 1))" by (simp add: unat_minus_one unat_gt_0)
    moreover note a = region_apart_step [OF Cons.prems(2)]
    have "cstr (mem(dest := c)) (src + 1) s" using Cons.prems(1) a by (simp add: cstr_frame)
    from Cons.IH [OF this] a
    have "strncat_copy (mem(dest := c)) (dest + 1) (src + 1) (n - 1) = store_bytes (mem(dest := c)) (dest + 1) (take (unat (n - 1)) s @ [0])" by blast
    ultimately show ?thesis using Cons.prems False by (subst strncat_copy.simps) (simp add: word_gt_0)
  qed (subst strncat_copy.simps, simp)
qed (subst strncat_copy.simps, simp)

lemma strcpy_loop_cat: "strcpy_loop mem dest src i = strcat_copy mem (dest + i) (src + i)" if "cstr mem (src + i) s"
    "region (dest + i) (Suc (length s)) \<inter> region (src + i) (Suc (length s)) = {}"
  using that
proof (induction s arbitrary: mem i)
  case (Cons c s)
  note a = region_apart_step [OF Cons.prems(2), unfolded add.assoc]
  have "cstr (mem(dest + i := c)) (src + (i + 1)) s" using Cons.prems(1) a by (simp add: cstr_frame add.assoc)
  from Cons.IH [OF this] a
  have "strcpy_loop (mem(dest + i := c)) dest src (i + 1) = strcat_copy (mem(dest + i := c)) (dest + (i + 1)) (src + (i + 1))" by blast
  then show ?case using Cons.prems by (subst strcpy_loop.simps, subst strcat_copy.simps) (simp add: add.assoc)
qed (subst strcpy_loop.simps, subst strcat_copy.simps, simp)

lemma strlen_loop_cstr:
  "cstr mem p s \<Longrightarrow> unat len + length s \<le> 65536 \<Longrightarrow> strlen_loop mem p len = len + word_of_nat (length s)"
proof (induction s arbitrary: p len)
  case (Cons c s)
  then have l: "len < 65536" by (simp add: word_less_nat_alt)
  then have "unat (len + 1) = Suc (unat len)" by (rule word_plus_1_nat)
  then show ?case using Cons l by (subst strlen_loop.simps) (simp add: STR_MAX_SIZE_def add.assoc)
qed (subst strlen_loop.simps, simp)

lemma strlen_cstr: "cstr mem p s \<Longrightarrow> length s \<le> 65536 \<Longrightarrow> strlen mem p = word_of_nat (length s)"
  using strlen_loop_cstr [of mem p s 0] by (simp add: strlen_def)

lemma strlen_bound: "unat (strlen mem p) \<le> 65536"
proof -
  have "unat len \<le> 65536 \<Longrightarrow> unat (strlen_loop mem p len) \<le> 65536" for len
  proof (induction mem p len rule: strlen_loop.induct)
    case (1 mem p len)
    show ?case
    proof (cases "mem p \<noteq> 0 \<and> len < STR_MAX_SIZE")
      case True
      then have l: "len < 65536" by (simp add: STR_MAX_SIZE_def)
      then have "unat (len + 1) = Suc (unat len)" by (rule word_plus_1_nat)
      then show ?thesis using 1 True l by (subst strlen_loop.simps) (simp add: word_less_nat_alt)
    next
      case False
      then show ?thesis using 1(2) by (subst strlen_loop.simps) auto
    qed
  qed
  then show ?thesis by (simp add: strlen_def)
qed

lemma strncpy_loop_cstr:
  assumes "cstr mem (src + i) s" "region (dest + i) (Suc (length s)) \<inter> region (src + i) (Suc (length s)) = {}" "i \<le> n"
  shows "strncpy_loop mem dest src n i = store_bytes mem (dest + i) (take (unat n - unat i) s @ [0])"
  using assms
proof (induction s arbitrary: mem i)
  case (Cons c s)
  show ?case
  proof (cases "i < n")
    case True
    then have i: "unat (i + 1) = Suc (unat i)" by (rule word_plus_1_nat)
    then have n: "i + 1 \<le> n" "unat n - unat i = Suc (unat n - unat (i + 1))" using True by (simp_all add: word_le_nat_alt word_less_nat_alt)
    note a = region_apart_step [OF Cons.prems(2), unfolded add.assoc]
    have "cstr (mem(dest + i := c)) (src + (i + 1)) s" using Cons.prems(1) a by (simp add: cstr_frame add.assoc)
    from Cons.IH [OF this] a n(1)
    have "strncpy_loop (mem(dest + i := c)) dest src n (i + 1) =
        store_bytes (mem(dest + i := c)) (dest + (i + 1)) (take (unat n - unat (i + 1)) s @ [0])" by blast
    then show ?thesis using Cons.prems True n(2) by (subst strncpy_loop.simps) (simp add: add.assoc)
  next
    case False
    then have "unat n - unat i = 0" by (simp add: word_less_nat_alt)
    then show ?thesis using False by (subst strncpy_loop.simps) simp
  qed
qed (subst strncpy_loop.simps, simp)

lemma strncpy_cstr:
  assumes "cstr mem src s" "length s \<le> 65536" "region dest (Suc (length s)) \<inter> region src (Suc (length s)) = {}"
  shows "strncpy mem dest src n = store_bytes mem dest (take (unat n) s @ [0])"
proof -
  have l: "strlen mem src = word_of_nat (length s)" using assms(1,2) by (rule strlen_cstr)
  have u: "unat (word_of_nat (length s) :: u64) = length s" using assms(2) by (intro unat_of_nat_small) simp
  have "strncpy_loop mem dest src k 0 = store_bytes mem dest (take (unat k) s @ [0])" for k
    using strncpy_loop_cstr [of mem src 0 s dest k] assms by simp
  then show ?thesis using l u by (simp add: strncpy_def word_less_nat_alt)
qed

lemma cstr_stored_after:
  assumes d: "cstr mem p d" and n: "length d + length s < 2 ^ 64" and s: "0 \<notin> set s"
  shows "cstr (store_bytes mem (p + word_of_nat (length d)) (s @ [0])) p (d @ s)"
proof -
  let ?m = "store_bytes mem (p + word_of_nat (length d)) (s @ [0])"
  have "?m (p + word_of_nat i) = d ! i" if i: "i < length d" for i
  proof -
    have "p + word_of_nat i \<notin> region (p + word_of_nat (length d)) (length (s @ [0]))"
    proof
      assume "p + word_of_nat i \<in> region (p + word_of_nat (length d)) (length (s @ [0]))"
      then obtain k where "k < length (s @ [0])" "p + word_of_nat i = p + word_of_nat (length d) + word_of_nat k"
        unfolding mem_region by blast
      then have k: "k \<le> length s" "word_of_nat i = (word_of_nat (length d + k) :: u64)" by (simp_all add: add.assoc)
      then have "i = length d + k" using unat_of_nat_small [of i] unat_of_nat_small [of "length d + k"] n i by simp
      with i show False by simp
    qed
    then show ?thesis using cstr_nth [OF d i] by simp
  qed
  moreover have "cstr ?m (p + word_of_nat (length d)) s" using n s by (intro cstr_stored) simp_all
  ultimately show ?thesis using cstr_nz [OF d] by (simp add: cstr_append)
qed

lemma string_copies:
  assumes src: "cstr mem src s" and len: "length d + length s \<le> 65536"
    and apart: "region dest (Suc (length s)) \<inter> region src (Suc (length s)) = {}"
  shows "\<exists>m. strcpy mem dest src = Some (m, dest) \<and> cstr m dest s \<and> (\<forall>a. a \<notin> region dest (Suc (length s)) \<longrightarrow> m a = mem a)"
    and "cstr (strncpy mem dest src n) dest (take (unat n) s)"
proof -
  have z: "0 \<notin> set s" using cstr_nz [OF src] .
  let ?m = "store_bytes mem dest (s @ [0])"
  have "strcpy mem dest src = Some (?m, dest)"
    using strcpy_loop_cat [of mem src 0 s dest] strcat_copy_cstr [OF src apart] src apart by (simp add: strcpy_def)
  moreover have "cstr ?m dest s" using len z by (intro cstr_stored) simp_all
  ultimately show "\<exists>m. strcpy mem dest src = Some (m, dest) \<and> cstr m dest s \<and> (\<forall>a. a \<notin> region dest (Suc (length s)) \<longrightarrow> m a = mem a)"
    by (intro exI [of _ ?m]) simp
  have "0 \<notin> set (take (unat n) s)" using z by (auto dest: in_set_takeD)
  moreover have "length (take (unat n) s) < 2 ^ 64" using len by simp
  ultimately show "cstr (strncpy mem dest src n) dest (take (unat n) s)"
    using strncpy_cstr [OF src _ apart] len cstr_stored by simp
qed

subsection \<open>Searches and comparisons\<close>

lemma find_map_conv: "find P (map f xs) = map_option f (find (\<lambda>x. P (f x)) xs)"
  by (induction xs) auto

lemma find_upt_Suc: "find P [0..<Suc n] = (if P 0 then Some 0 else map_option Suc (find (\<lambda>i. P (Suc i)) [0..<n]))"
proof -
  have "[0..<Suc n] = 0 # map Suc [0..<n]" by (simp add: upt_conv_Cons map_Suc_upt del: upt_Suc)
  then show ?thesis by (simp only: find.simps find_map_conv)
qed

lemma schar_inj [simp]: "schar c = schar d \<longleftrightarrow> c = d"
  by (auto simp: signed_word_eqI)

lemma schar_0 [simp]: "schar c = 0 \<longleftrightarrow> c = 0"
  using schar_inj [of c 0] by (simp del: schar_inj)

lemma find_append_conv: "find P (xs @ ys) = (case find P xs of Some x \<Rightarrow> Some x | None \<Rightarrow> find P ys)"
  by (induction xs) auto

lemma find_rev_upt_Suc:
  "find P (rev [0..<Suc n]) = (case find (\<lambda>i. P (Suc i)) (rev [0..<n]) of Some i \<Rightarrow> Some (Suc i) | None \<Rightarrow> if P 0 then Some 0 else None)"
proof -
  have "[0..<Suc n] = 0 # map Suc [0..<n]" by (simp add: upt_conv_Cons map_Suc_upt del: upt_Suc)
  then have "rev [0..<Suc n] = map Suc (rev [0..<n]) @ [0]" by (simp add: rev_map)
  then show ?thesis by (simp only: find_append_conv find_map_conv) (simp split: option.split)
qed

text \<open>The searches for a character see the string with its terminator.\<close>

lemma strchr_cstr:
  "cstr mem p s \<Longrightarrow> strchr mem p ch =
    Some (case find (\<lambda>i. schar ((s @ [0]) ! i) = ch) [0..<Suc (length s)] of Some i \<Rightarrow> p + word_of_nat i | None \<Rightarrow> 0)"
proof (induction s arbitrary: p)
  case Nil
  then show ?case by (subst strchr.simps) simp
next
  case (Cons c s)
  then show ?case unfolding list.size(4) add_Suc_right add_0_right find_upt_Suc [of _ "Suc (length s)"]
    by (subst strchr.simps) (simp add: add.assoc del: upt_Suc split: option.split)
qed

lemma strrchr_loop_cstr:
  "cstr mem p s \<Longrightarrow> strrchr_loop mem p ch l =
    Some (case find (\<lambda>i. schar ((s @ [0]) ! i) = ch) (rev [0..<Suc (length s)]) of Some i \<Rightarrow> p + word_of_nat i | None \<Rightarrow> l)"
proof (induction s arbitrary: p l)
  case Nil
  then show ?case by (subst strrchr_loop.simps) simp
next
  case (Cons c s)
  then show ?case unfolding list.size(4) add_Suc_right add_0_right find_rev_upt_Suc [of _ "Suc (length s)"]
    by (subst strrchr_loop.simps) (simp add: add.assoc del: upt_Suc split: option.split)
qed

lemma strcspn_reject_cstr: "cstr mem r t \<Longrightarrow> c \<noteq> 0 \<Longrightarrow> strcspn_reject mem c r = Some (c \<in> set t)"
  by (induction t arbitrary: r) (subst strcspn_reject.simps, auto)+

lemma strcspn_loop_cstr:
  "cstr mem p s \<Longrightarrow> cstr mem r t \<Longrightarrow> strcspn_loop mem p r n = Some (n + word_of_nat (length (takeWhile (\<lambda>c. c \<notin> set t) s)))"
  by (induction s arbitrary: p n) (subst strcspn_loop.simps, simp add: strcspn_reject_cstr add.assoc)+

lemma strstr_match_cstr:
  "cstr mem h s \<Longrightarrow> cstr mem n t \<Longrightarrow> \<exists>n'. strstr_match mem h n = Some n' \<and> (mem n' = 0 \<longleftrightarrow> take (length t) s = t)"
proof (induction t arbitrary: s h n)
  case Nil
  then show ?case by (subst strstr_match.simps) simp
next
  case (Cons c t)
  show ?case
  proof (cases s)
    case Nil
    with Cons.prems show ?thesis by (subst strstr_match.simps) simp
  next
    case (Cons d s')
    with Cons.prems Cons.IH [of "h + 1" s' "n + 1"] show ?thesis by (subst strstr_match.simps) auto
  qed
qed

lemma strstr_cstr:
  "cstr mem p s \<Longrightarrow> cstr mem q t \<Longrightarrow> strstr mem p q =
    Some (case find (\<lambda>i. take (length t) (drop i s) = t) [0..<length s] of Some i \<Rightarrow> p + word_of_nat i | None \<Rightarrow> 0)"
proof (induction s arbitrary: p)
  case Nil
  then show ?case by (subst strstr.simps) simp
next
  case (Cons c s)
  from strstr_match_cstr [OF Cons.prems] obtain n' where
    "strstr_match mem p q = Some n'" "mem n' = 0 \<longleftrightarrow> take (length t) (c # s) = t" by blast
  then show ?case using Cons unfolding list.size(4) add_Suc_right add_0_right find_upt_Suc
    by (subst strstr.simps) (simp add: add.assoc split: option.split)
qed

lemma strcmp_cstr:
  "cstr mem p s \<Longrightarrow> cstr mem q t \<Longrightarrow> \<exists>r. strcmp mem p q = Some r \<and> (r = 0 \<longleftrightarrow> s = t) \<and>
    (r < 0 \<longleftrightarrow> (map schar (s @ [0]), map schar (t @ [0])) \<in> lexord {(x, y). x < y})"
proof (induction s arbitrary: p q t)
  case Nil
  then show ?case by (cases t) (subst strcmp.simps, auto dest: sym)+
next
  case (Cons c s)
  show ?case
  proof (cases t)
    case Nil
    with Cons.prems show ?thesis by (subst strcmp.simps) auto
  next
    case t: (Cons d t')
    show ?thesis
    proof (cases "c = d")
      case True
      with Cons.prems Cons.IH [of "p + 1" "q + 1" t'] t show ?thesis by (subst strcmp.simps) auto
    next
      case False
      with Cons.prems t show ?thesis by (subst strcmp.simps) (auto dest: sym)
    qed
  qed
qed

lemma cstr_end: "cstr mem p s \<Longrightarrow> mem p = 0 \<longleftrightarrow> s = []"
  by (cases s) simp_all

lemma cstr_unfold: "cstr mem p s \<Longrightarrow> mem p \<noteq> 0 \<Longrightarrow> \<exists>s'. s = mem p # s' \<and> cstr mem (p + 1) s'"
  by (cases s) simp_all

lemma strncmp_loop_cstr:
  "cstr mem p s \<Longrightarrow> cstr mem q t \<Longrightarrow> strncmp_loop mem p q n = 0 \<longleftrightarrow> take n s = take n t"
proof (induction n arbitrary: p q s t)
  case (Suc n)
  have d: "uint (x :: u8) - uint y \<noteq> 0" if "x \<noteq> y" for x y using that by (simp add: word_uint_eq_iff)
  show ?case
  proof (cases "mem p = mem q \<and> mem p \<noteq> 0")
    case True
    obtain s' where s: "s = mem p # s'" "cstr mem (p + 1) s'" using cstr_unfold [OF Suc.prems(1)] True by blast
    obtain t' where t: "t = mem q # t'" "cstr mem (q + 1) t'" using cstr_unfold [OF Suc.prems(2)] True by auto
    have "mem p = mem q" "mem q \<noteq> 0" using True by auto
    then have "strncmp_loop mem p q (Suc n) = strncmp_loop mem (p + 1) (q + 1) n" by simp
    also have "(\<dots> = 0) = (take n s' = take n t')" using s(2) t(2) by (rule Suc.IH)
    finally show ?thesis using True s(1) t(1) by simp
  next
    case False
    have eq: "strncmp_loop mem p q (Suc n) = 0 \<longleftrightarrow> mem p = mem q"
      using False d [of "mem p" "mem q"] by (cases "mem p = mem q") simp_all
    show ?thesis
    proof (cases "mem p = mem q")
      case True
      then have "s = []" "t = []" using False Suc.prems [THEN cstr_end] by simp_all
      then show ?thesis using eq True by simp
    next
      case neq: False
      have "take (Suc n) s \<noteq> take (Suc n) t"
      proof (cases s)
        case Nil
        then show ?thesis using neq Suc.prems [THEN cstr_end] by simp
      next
        case (Cons c s')
        then show ?thesis using neq Suc.prems by (cases t) simp_all
      qed
      then show ?thesis using eq neq by simp
    qed
  qed
qed simp

subsection \<open>Reading numbers\<close>

lemma skip_spaces_cstr:
  "cstr mem p (sp @ ds) \<Longrightarrow> (\<forall>c \<in> set sp. isspace (schar c)) \<Longrightarrow> \<not> isspace (schar (mem (p + word_of_nat (length sp)))) \<Longrightarrow>
    skip_spaces mem p = Some (p + word_of_nat (length sp))"
  by (induction sp arbitrary: p) (subst skip_spaces.simps, simp add: add.assoc)+

lemma strtoull_skip_cstr:
  "cstr mem p (sp @ ds) \<Longrightarrow> (\<forall>c \<in> set sp. isspace (schar c)) \<Longrightarrow> \<not> isspace (schar (mem (p + word_of_nat (length sp)))) \<Longrightarrow>
    strtoull_skip mem p = Some (schar (mem (p + word_of_nat (length sp))), p + word_of_nat (length sp) + 1)"
  by (induction sp arbitrary: p) (subst strtoull_skip.simps, simp add: add.assoc)+

definition decimal :: "u8 list \<Rightarrow> nat" where
  "decimal ds = foldl (\<lambda>v c. v * 10 + nat (schar c - 48)) 0 ds"

lemma decimal_snoc [simp]: "decimal [] = 0" "decimal (ds @ [c]) = decimal ds * 10 + nat (schar c - 48)"
  by (simp_all add: decimal_def)

lemma decimal_Cons: "decimal (c # ds) = nat (schar c - 48) * 10 ^ length ds + decimal ds"
proof (induction ds rule: rev_induct)
  case Nil
  then show ?case by (simp add: decimal_def)
next
  case (snoc d ds)
  have "decimal (c # ds @ [d]) = decimal (c # ds) * 10 + nat (schar d - 48)" using decimal_snoc(2) [of "c # ds" d] by simp
  then show ?case using snoc by (simp add: algebra_simps)
qed

lemma word_of_nat_digit: "isdigit c \<Longrightarrow> atou64_digit c = word_of_nat (nat (c - 48))"
  by (simp add: atou64_digit_def isdigit_def)

lemma atou64_sum_digits:
  assumes s: "cstr mem p ds" and d: "\<forall>c \<in> set ds. isdigit (schar c)" and len: "length ds < 2 ^ 64"
  shows "atou64_sum mem p 10 (word_of_nat (length ds)) = (word_of_nat (decimal ds), 10 ^ length ds)"
proof -
  let ?n = "length ds"
  let ?f = "\<lambda>i (result, multiplier). (result + atou64_digit (schar (mem (p + (word_of_nat ?n - word_of_nat i - 1)))) * multiplier, multiplier * 10)"
  have "k \<le> ?n \<Longrightarrow> fold ?f [0..<k] (0, 1) = (word_of_nat (decimal (drop (?n - k) ds)), 10 ^ k)" for k
  proof (induction k)
    case (Suc k)
    then have k: "?n - Suc k < ?n" "?n - k = Suc (?n - Suc k)" by simp_all
    have e: "drop (?n - Suc k) ds = ds ! (?n - Suc k) # drop (?n - k) ds" using k by (simp add: Cons_nth_drop_Suc)
    have w: "(word_of_nat ?n - word_of_nat k - 1 :: u64) = word_of_nat (?n - Suc k)"
      using Suc.prems by (simp add: of_nat_diff algebra_simps)
    have "isdigit (schar (ds ! (?n - Suc k)))" using d k(1) by simp
    then have "atou64_digit (schar (mem (p + (word_of_nat ?n - word_of_nat k - 1)))) = word_of_nat (nat (schar (ds ! (?n - Suc k)) - 48))"
      using cstr_nth [OF s k(1)] w by (simp add: word_of_nat_digit)
    moreover have "?n - (?n - k) = k" using Suc.prems by simp
    ultimately show ?case using Suc unfolding e decimal_Cons by (simp add: algebra_simps)
  qed simp
  from this [of ?n] show ?thesis using unat_of_nat_small [OF len] by (simp add: atou64_sum_def)
qed

lemma isdigit_char:
  assumes "isdigit (schar c)"
  shows "\<not> isspace (schar c)" and "c \<noteq> 120" "c \<noteq> 98" "c \<noteq> 88" and "schar c \<noteq> 45" "schar c \<noteq> 43"
  using assms by (auto simp: isdigit_def isspace_def)

lemma atou64_decimal_ok:
  assumes s: "cstr mem p (sp @ ds)" and sp: "\<forall>c \<in> set sp. isspace (schar c)" and d: "\<forall>c \<in> set ds. isdigit (schar c)"
    and ne: "ds \<noteq> []" and len: "length ds \<le> 65536"
  shows "atou64 mem p = Some (word_of_nat (decimal ds))"
proof -
  let ?q = "p + word_of_nat (length sp)"
  have q: "cstr mem ?q ds" using s by (simp add: cstr_append)
  obtain c t where ct: "ds = c # t" using ne by (cases ds) auto
  then have c: "mem ?q = c" "isdigit (schar c)" "cstr mem (?q + 1) t" using q d by auto
  have n: "mem (?q + 1) \<noteq> 120" "mem (?q + 1) \<noteq> 98"
    using c(3) d ct isdigit_char(2,3) [of "mem (?q + 1)"] by (cases t; force)+
  have "skip_spaces mem p = Some ?q" using skip_spaces_cstr [OF s sp] c isdigit_char(1) by simp
  moreover have "atou64_prefix mem ?q = (10, ?q)" using n by (simp add: atou64_prefix_def)
  moreover have "skip_nondigits mem ?q = Some ?q" using c by (subst skip_nondigits.simps) simp
  moreover have "strlen mem ?q = word_of_nat (length ds)" using strlen_cstr [OF q len] .
  moreover have "atou64_sum mem ?q 10 (word_of_nat (length ds)) = (word_of_nat (decimal ds), 10 ^ length ds)"
    using atou64_sum_digits [OF q d] len by simp
  ultimately show ?thesis by (simp add: atou64_def)
qed

definition digits_in :: "int \<Rightarrow> u8 list \<Rightarrow> bool" where
  "digits_in b ds \<longleftrightarrow> list_all (\<lambda>c. case strtoull_digit (schar c) of None \<Rightarrow> False | Some d \<Rightarrow> d < b) ds"

definition value_in :: "int \<Rightarrow> nat \<Rightarrow> u8 list \<Rightarrow> nat" where
  "value_in b v ds = foldl (\<lambda>v c. v * nat b + nat (the (strtoull_digit (schar c)))) v ds"

lemma strtoull_digit_ge_0: "strtoull_digit c = Some d \<Longrightarrow> 0 \<le> d \<and> d < 36"
  by (auto simp: strtoull_digit_def isdigit_def isalpha_def isupper_def islower_def split: if_splits)

lemma cutoff_iff:
  fixes M b v d :: nat
  assumes "d < b"
  shows "M div b < v \<or> (v = M div b \<and> M mod b < d) \<longleftrightarrow> M < v * b + d"
proof -
  have m: "M = M div b * b + M mod b" "M mod b < b" using assms by simp_all
  consider "v < M div b" | "v = M div b" | "M div b < v" by linarith
  then show ?thesis
  proof cases
    case 1
    then have "Suc v * b \<le> M div b * b" by (intro mult_le_mono1) simp
    also have "\<dots> \<le> M" by simp
    finally have "v * b + b \<le> M" by simp
    then show ?thesis using 1 assms by simp
  next
    case 2
    then have "v * b + M mod b = M" by simp
    then have "M mod b < d \<longleftrightarrow> M < v * b + d" by linarith
    then show ?thesis using 2 by auto
  next
    case 3
    then have "Suc (M div b) * b \<le> v * b" by (intro mult_le_mono1) simp
    then have "M div b * b + b \<le> v * b" by simp
    then have "M < v * b" using m by linarith
    then show ?thesis using 3 by simp
  qed
qed

definition sum_so_far :: "nat \<Rightarrow> u64 \<Rightarrow> int \<Rightarrow> bool" where
  "sum_so_far v acc anyd \<longleftrightarrow> (if v < 2 ^ 64 then acc = word_of_nat v \<and> 0 \<le> anyd else anyd = -1)"

lemma cutoffs:
  fixes b :: int
  assumes "2 \<le> b" "b \<le> 36"
  shows "unat ((-1 :: u64) div word_of_int b) = (2 ^ 64 - 1) div nat b"
    and "sint (ucast ((-1 :: u64) mod word_of_int b) :: 32 word) = int ((2 ^ 64 - 1) mod nat b)"
proof -
  have u: "unat (word_of_int b :: u64) = nat b" using assms by (simp add: unat_eq_nat_uint uint_word_of_int)
  have m: "unat (-1 :: u64) = 2 ^ 64 - 1" by (simp add: unsigned_minus_1_eq_mask mask_eq_exp_minus_1)
  show "unat ((-1 :: u64) div word_of_int b) = (2 ^ 64 - 1) div nat b" by (simp only: unat_div u m)
  let ?r = "(-1 :: u64) mod word_of_int b"
  have r: "unat ?r = (2 ^ 64 - 1) mod nat b" by (simp only: unat_mod u m)
  moreover have "(2 ^ 64 - 1) mod nat b < nat b" using assms by (intro mod_less_divisor) simp
  ultimately have l: "unat ?r < 36" using assms by linarith
  then have v: "unat (ucast ?r :: 32 word) = unat ?r" by (simp add: unsigned_ucast_eq take_bit_nat_eq_self)
  then have "sint (ucast ?r :: 32 word) = int (unat ?r)" 
  proof -
    have "signed_take_bit 31 (int n) = int n" if "n < 36" for n using that by (intro signed_take_bit_int_eq_self) simp_all
    then have "signed_take_bit 31 (int (unat ?r)) = int (unat ?r)" using l by blast
    moreover have "sint (ucast ?r :: 32 word) = signed_take_bit 31 (int (unat (ucast ?r :: 32 word)))" by (simp add: sint_uint)
    ultimately show ?thesis using v by simp
  qed
  then show "sint (ucast ?r :: 32 word) = int ((2 ^ 64 - 1) mod nat b)" using r by simp
qed

lemma sum_so_far_step:
  fixes b d :: int
  assumes b: "2 \<le> b" "b \<le> 36" and d: "0 \<le> d" "d < b" and st: "sum_so_far v acc anyd"
  defines "over \<equiv> anyd < 0 \<or> acc > (-1 :: u64) div word_of_int b \<or>
    (acc = -1 div word_of_int b \<and> d > sint (ucast ((-1 :: u64) mod word_of_int b) :: 32 word))"
  shows "sum_so_far (v * nat b + nat d) (if over then acc else acc * word_of_int b + word_of_int d) (if over then -1 else 1)"
proof (cases "v < 2 ^ 64")
  case True
  then have acc: "acc = word_of_nat v" "0 \<le> anyd" using st by (simp_all add: sum_so_far_def)
  have v: "unat acc = v" using True acc(1) by (simp add: unat_of_nat_small)
  have "over \<longleftrightarrow> (2 ^ 64 - 1) div nat b < v \<or> (v = (2 ^ 64 - 1) div nat b \<and> (2 ^ 64 - 1) mod nat b < nat d)"
    unfolding over_def word_less_nat_alt word_unat_eq_iff cutoffs [OF b] v using acc(2) d(1) by auto
  also have "\<dots> \<longleftrightarrow> 2 ^ 64 - 1 < v * nat b + nat d" using d by (intro cutoff_iff) simp
  finally have over: "over \<longleftrightarrow> \<not> v * nat b + nat d < 2 ^ 64" by auto
  have "acc * word_of_int b + word_of_int d = word_of_nat (v * nat b + nat d)"
    using acc(1) b(1) d(1) by (simp add: of_nat_nat)
  then show ?thesis using over by (simp add: sum_so_far_def)
next
  case False
  then have "v \<le> v * nat b" using b by simp
  then have "\<not> v * nat b + nat d < 2 ^ 64" using False by linarith
  moreover have over using False st by (simp add: sum_so_far_def over_def)
  ultimately show ?thesis by (simp add: sum_so_far_def)
qed

lemma strtoull_loop_digits:
  fixes b :: int
  assumes b: "2 \<le> b" "b \<le> 36" and "cstr mem p cs" "digits_in b cs" "sum_so_far v acc anyd"
  shows "\<exists>acc' anyd'. strtoull_loop mem b ((-1 :: u64) div word_of_int b) (sint (ucast ((-1 :: u64) mod word_of_int b) :: 32 word))
      acc anyd (schar (mem p)) (p + 1) = Some (acc', anyd', p + word_of_nat (length cs) + 1) \<and>
    sum_so_far (value_in b v cs) acc' anyd' \<and> (cs \<noteq> [] \<or> anyd \<noteq> 0 \<longrightarrow> anyd' \<noteq> 0)"
  using assms(3-5)
proof (induction cs arbitrary: p v acc anyd)
  case Nil
  then show ?case by (subst strtoull_loop.simps) (simp add: strtoull_digit_def isdigit_def isalpha_def isupper_def islower_def value_in_def)
next
  case (Cons c cs)
  let ?co = "(-1 :: u64) div word_of_int b" and ?cl = "sint (ucast ((-1 :: u64) mod word_of_int b) :: 32 word)"
  obtain d where d: "strtoull_digit (schar c) = Some d" "d < b" using Cons.prems(2) by (auto simp: digits_in_def split: option.splits)
  have d0: "0 \<le> d" using strtoull_digit_ge_0 [OF d(1)] by simp
  define over where "over \<longleftrightarrow> anyd < 0 \<or> acc > ?co \<or> (acc = ?co \<and> d > ?cl)"
  let ?acc = "if over then acc else acc * word_of_int b + word_of_int d" and ?any = "if over then -1 else 1 :: int"
  have st: "sum_so_far (v * nat b + nat d) ?acc ?any"
    using sum_so_far_step [OF b d0 d(2) Cons.prems(3)] by (simp add: over_def)
  have "strtoull_loop mem b ?co ?cl acc anyd (schar (mem p)) (p + 1) =
      strtoull_loop mem b ?co ?cl ?acc ?any (schar (mem (p + 1))) (p + 1 + 1)"
    using Cons.prems(1) d by (subst strtoull_loop.simps) (simp add: over_def)
  moreover have "cstr mem (p + 1) cs" "digits_in b cs" using Cons.prems by (simp_all add: digits_in_def)
  from Cons.IH [OF this st] obtain acc' anyd' where
    "strtoull_loop mem b ?co ?cl ?acc ?any (schar (mem (p + 1))) (p + 1 + 1) = Some (acc', anyd', p + 1 + word_of_nat (length cs) + 1)"
    "sum_so_far (value_in b (v * nat b + nat d) cs) acc' anyd'" "anyd' \<noteq> 0" by (auto split: if_splits)
  moreover have "value_in b v (c # cs) = value_in b (v * nat b + nat d) cs" using d by (simp add: value_in_def)
  ultimately show ?case by (intro exI [of _ acc'] exI [of _ anyd']) (simp add: add.assoc)
qed

lemma digit_char:
  assumes "strtoull_digit (schar c) = Some d"
  shows "\<not> isspace (schar c)" "schar c \<noteq> 45" "schar c \<noteq> 43" "c = 120 \<or> c = 88 \<Longrightarrow> d = 33"
  using assms by (auto simp: strtoull_digit_def isspace_def isdigit_def isalpha_def isupper_def islower_def split: if_splits)

lemma strtoull_digits_ok:
  fixes b :: int
  assumes b: "2 \<le> b" "b \<le> 36" and s: "cstr mem p (sp @ ds)" and sp: "\<forall>c \<in> set sp. isspace (schar c)"
    and d: "digits_in b ds" and ne: "ds \<noteq> []"
  shows "strtoull mem p b = Some (word_of_nat (min (value_in b 0 ds) (2 ^ 64 - 1)), p + word_of_nat (length sp + length ds))"
proof -
  let ?q = "p + word_of_nat (length sp)"
  have q: "cstr mem ?q ds" using s by (simp add: cstr_append)
  obtain c t where ct: "ds = c # t" using ne by (cases ds) auto
  obtain v where v: "strtoull_digit (schar c) = Some v" using d ct by (auto simp: digits_in_def split: option.splits)
  have c: "mem ?q = c" using q ct by simp
  have skip: "strtoull_skip mem p = Some (schar c, ?q + 1)"
    using strtoull_skip_cstr [OF s sp] c digit_char(1) [OF v] by simp
  have sign: "strtoull_sign mem (schar c) (?q + 1) = (False, schar c, ?q + 1)"
    using digit_char(2,3) [OF v] by (simp add: strtoull_sign_def)
  have "mem (?q + 1) \<noteq> 120 \<and> mem (?q + 1) \<noteq> 88" if "b = 16"
  proof (cases t)
    case Nil
    then show ?thesis using q ct by simp
  next
    case (Cons e u)
    then obtain w where w: "strtoull_digit (schar e) = Some w" "w < b" using d ct by (auto simp: digits_in_def split: option.splits)
    then have "e \<noteq> 120" "e \<noteq> 88" using digit_char(4) [OF w(1)] that by auto
    then show ?thesis using q ct Cons by simp
  qed
  then have prefix: "strtoull_prefix mem b (schar c) (?q + 1) = (b, schar c, ?q + 1)" using b by (auto simp: strtoull_prefix_def)
  have "sum_so_far 0 0 0" by (simp add: sum_so_far_def)
  from strtoull_loop_digits [OF b q d this] ne c obtain acc anyd where
    loop: "strtoull_loop mem b ((-1 :: u64) div word_of_int b) (sint (ucast ((-1 :: u64) mod word_of_int b) :: 32 word))
      0 0 (schar c) (?q + 1) = Some (acc, anyd, ?q + word_of_nat (length ds) + 1)"
    and st: "sum_so_far (value_in b 0 ds) acc anyd" "anyd \<noteq> 0" by auto
  have "(if anyd < 0 then -1 else acc) = word_of_nat (min (value_in b 0 ds) (2 ^ 64 - 1))"
    using st(1) by (cases "value_in b 0 ds < 2 ^ 64") (simp_all add: sum_so_far_def min_def)
  then show ?thesis using skip sign prefix loop st(2) by (simp add: strtoull_def add.assoc split: if_splits)
qed

subsection \<open>Loads and stores\<close>

lemma byte_bit: "bit (b :: u8) m \<Longrightarrow> m < 8"
  using bit_imp_le_length [of b m] by simp

lemma byte_no_bit: "8 \<le> m \<Longrightarrow> \<not> bit (b :: u8) m"
  using byte_bit [of b m] by auto

lemma bit_scast_int_shl: "bit (scast (int_shl b k) :: u64) n \<longleftrightarrow> n < 64 \<and> k \<le> min 31 n \<and> bit b (min 31 n - k)"
  by (auto simp: int_shl_def bit_simps)

lemma scast_int_shl:
  assumes "k \<le> 16"
  shows "(scast (int_shl b k) :: u64) = push_bit k (ucast b)"
proof (rule bit_word_eqI)
  fix n
  assume "n < LENGTH(64)"
  then show "bit (scast (int_shl b k) :: u64) n = bit (push_bit k (ucast b) :: u64) n"
    using assms byte_no_bit [of "31 - k" b] byte_no_bit [of "n - k" b]
    by (cases "n \<le> 31") (auto simp: bit_scast_int_shl bit_push_bit_iff bit_or_iff bit_mask_iff unsigned_or_eq bit_unsigned_iff)
qed

lemma scast_int_shl_24:
  "(scast (int_shl b 24) :: u64) = push_bit 24 (ucast b) OR (if bit b 7 then push_bit 32 (mask 32) else 0)"
proof (rule bit_word_eqI)
  fix n
  assume "n < LENGTH(64)"
  then show "bit (scast (int_shl b 24) :: u64) n = bit (push_bit 24 (ucast b) OR (if bit b 7 then push_bit 32 (mask 32) else 0) :: u64) n"
    using byte_no_bit [of "n - 24" b]
    by (cases "n \<le> 31") (auto simp: bit_scast_int_shl bit_push_bit_iff bit_or_iff bit_mask_iff unsigned_or_eq bit_unsigned_iff)
qed

lemma load32_store32: "load32 (store32 mem dest v) dest = v"
proof (rule bit_word_eqI)
  fix n
  assume "n < LENGTH(32)"
  then have "n < 32" by simp
  then consider "n < 8" | "8 \<le> n" "n < 16" | "16 \<le> n" "n < 24" | "24 \<le> n" "n < 32" by linarith
  then show "bit (load32 (store32 mem dest v) dest) n = bit v n"
    by cases (auto simp: load32_def store32_def int_shl_def bit_simps)
qed

lemma load16_store16: "load16 (store16 mem dest v) dest = v"
proof (rule bit_word_eqI)
  fix n
  assume "n < LENGTH(16)"
  then have "n < 16" by simp
  then consider "n < 8" | "8 \<le> n" "n < 16" by linarith
  then show "bit (load16 (store16 mem dest v) dest) n = bit v n"
    by cases (auto simp: load16_def store16_def int_shl_def bit_simps)
qed

definition le_value :: "(u64 \<Rightarrow> u8) \<Rightarrow> u64 \<Rightarrow> nat \<Rightarrow> u64" where
  "le_value mem p k = foldr (\<lambda>i v. push_bit (8 * i) (ucast (mem (p + word_of_nat i))) OR v) [0..<k] 0"

definition sign_fill :: "u8 \<Rightarrow> u64" where
  "sign_fill b = (if bit b 7 then push_bit 32 (mask 32) else 0)"

text \<open>The sum over the digits starts behind the first decimal digit, so leading hexadecimal letters are lost: 0xA5 reads as 5.\<close>

lemma atou64_drops_hex_letters:
  assumes "cstr mem p [48, 120, 65, 53]"
  shows "atou64 mem p = Some 5"
proof -
  have c: "mem p = 48" "mem (p + 1) = 120" "mem (p + 2) = 65" "mem (p + 3) = 53" "mem (p + 4) = 0"
    using assms by (simp_all add: add.assoc)
  have "skip_spaces mem p = Some p" using c by (subst skip_spaces.simps) (simp add: isspace_def)
  moreover have "atou64_prefix mem p = (16, p + 2)" using c by (simp add: atou64_prefix_def)
  moreover have "skip_nondigits mem (p + 2) = Some (p + 3)"
    using c by (subst skip_nondigits.simps, subst skip_nondigits.simps) (simp add: isdigit_def add.assoc)
  moreover have "strlen mem (p + 3) = 1" using strlen_cstr [of mem "p + 3" "[53]"] c by (simp add: add.assoc)
  moreover have "atou64_sum mem (p + 3) 16 1 = (5, 16)" using c by (simp add: atou64_sum_def atou64_digit_def isdigit_def)
  ultimately show ?thesis by (simp add: atou64_def)
qed

text \<open>On a string of one delimiter \<^verbatim>\<open>strtok\<close> walks past the terminator and returns what follows it as a token.\<close>

lemma strtok_past_terminator:
  assumes "cstr mem p [44]" "mem (p + 2) \<noteq> 0" "mem (p + 3) = 0" "mem (p + 2) \<noteq> 44" "cstr mem d [44]"
    and "d \<notin> region p 4" "d + 1 \<notin> region p 4" "p \<noteq> 0"
  shows "\<exists>m. strtok l mem p d = Some (m, p + 3, p + 1)"
proof -
  have ne: "d \<noteq> p" "d + 1 \<noteq> p" "d \<noteq> p + 1" "d + 1 \<noteq> p + 1" using assms(6,7) by (auto simp: numeral_eq_Suc)
  have c: "mem p = 44" "mem (p + 1) = 0" "mem d = 44" "mem (d + 1) = 0" using assms by auto
  let ?m = "mem(p := 0)"
  have n: "p + 1 \<noteq> p" "p + 2 \<noteq> p" "p + 3 \<noteq> p" "p + 1 \<noteq> p + 3" by simp_all
  have "strtok_loop d mem p p None = strtok_loop d mem p p (Some d)" using c by (subst strtok_loop.simps) simp
  also have "\<dots> = strtok_loop d ?m (p + 1) (p + 1) (Some d)" using c by (subst strtok_loop.simps) simp
  also have "\<dots> = strtok_loop d ?m (p + 1) (p + 1) (Some (d + 1))" using c n ne by (subst strtok_loop.simps) simp
  also have "\<dots> = strtok_loop d ?m (p + 2) (p + 1) None" using c n ne by (subst strtok_loop.simps) (simp add: add.assoc)
  also have "\<dots> = strtok_loop d ?m (p + 2) (p + 1) (Some d)" using assms c n ne by (subst strtok_loop.simps) simp
  also have "\<dots> = strtok_loop d ?m (p + 2) (p + 1) (Some (d + 1))" using assms c n ne by (subst strtok_loop.simps) simp
  also have "\<dots> = strtok_loop d ?m (p + 3) (p + 1) None" using assms c n ne by (subst strtok_loop.simps) (simp add: add.assoc)
  also have "\<dots> = Some (?m, p + 3, p + 1)" using assms n by (subst strtok_loop.simps) simp
  finally show ?thesis using assms(8) by (simp add: strtok_def)
qed

definition demo_text :: memory where
  "demo_text = store_bytes (store_bytes (\<lambda>_. 0) 256 [97, 98, 99]) 512 [98, 99]"

lemma demo_text_strings: "cstr demo_text 256 [97, 98, 99]" "cstr demo_text 512 [98, 99]"
  by (simp_all add: demo_text_def)

subsection \<open>Properties\<close>

text \<open>C37: for two terminated strings, where the area appended to and the second string do not overlap, \<^verbatim>\<open>strcat\<close> returns the destination,
  which then holds the concatenation; \<^verbatim>\<open>strncat\<close> appends the first n characters, or all when there are fewer. Neither changes any byte
  but the appended ones and the terminator.\<close>

theorem string_concatenation:
  assumes d: "cstr mem dest d" and src: "cstr mem src s" and len: "length d + length s < 2 ^ 64"
    and apart: "region (dest + word_of_nat (length d)) (Suc (length s)) \<inter> region src (Suc (length s)) = {}"
  shows "(\<exists>m. strcat mem dest src = Some (m, dest) \<and> cstr m dest (d @ s) \<and>
      (\<forall>a. a \<notin> region (dest + word_of_nat (length d)) (Suc (length s)) \<longrightarrow> m a = mem a)) \<and>
    (\<exists>m. strncat mem dest src n = Some (m, dest) \<and> cstr m dest (d @ take (unat n) s) \<and>
      (\<forall>a. a \<notin> region (dest + word_of_nat (length d)) (Suc (min (unat n) (length s))) \<longrightarrow> m a = mem a))"
proof (intro conjI)
  have z: "0 \<notin> set s" using cstr_nz [OF src] .
  let ?e = "dest + word_of_nat (length d)"
  let ?m = "store_bytes mem ?e (s @ [0])" and ?n = "store_bytes mem ?e (take (unat n) s @ [0])"
  have "strcat mem dest src = Some (?m, dest)"
    using str_end_cstr [OF d] strcat_copy_cstr [OF src apart] by (simp add: strcat_def)
  moreover have "cstr ?m dest (d @ s)" using d len z by (rule cstr_stored_after)
  ultimately show "\<exists>m. strcat mem dest src = Some (m, dest) \<and> cstr m dest (d @ s) \<and>
      (\<forall>a. a \<notin> region ?e (Suc (length s)) \<longrightarrow> m a = mem a)"
    by (intro exI [of _ ?m]) simp
  have "cstr ?n dest (d @ take (unat n) s)"
    using len z by (intro cstr_stored_after [OF d]) (auto dest: in_set_takeD)
  moreover have "strncat mem dest src n = Some (?n, dest)"
    using str_end_cstr [OF d] strncat_copy_cstr [OF src apart] by (simp add: strncat_def)
  moreover have "length (take (unat n) s @ [0]) = Suc (min (unat n) (length s))" by (simp add: min.commute)
  ultimately show "\<exists>m. strncat mem dest src n = Some (m, dest) \<and> cstr m dest (d @ take (unat n) s) \<and>
      (\<forall>a. a \<notin> region ?e (Suc (min (unat n) (length s))) \<longrightarrow> m a = mem a)"
    using store_bytes_frame [of _ ?e "take (unat n) s @ [0]" mem] by (intro exI [of _ ?n]) metis
qed

theorem string_concatenation_witness:
  "(\<exists>m. strcat demo_text 256 512 = Some (m, 256) \<and> cstr m 256 [97, 98, 99, 98, 99]) \<and>
   (\<exists>m. strncat demo_text 256 512 1 = Some (m, 256) \<and> cstr m 256 [97, 98, 99, 98] \<and> m 512 = 98)"
proof -
  have "region (256 + word_of_nat (length [97, 98, 99 :: u8])) (Suc (length [98, 99 :: u8])) \<inter> region 512 (Suc (length [98, 99 :: u8])) = {}" by simp
  note c = string_concatenation [OF demo_text_strings _ this, of 1]
  have "demo_text 512 = 98" using demo_text_strings(2) by simp
  then show ?thesis using c by auto
qed

text \<open>C38: on any terminated string, the empty one included, \<^verbatim>\<open>strchr\<close> returns the first and \<^verbatim>\<open>strrchr\<close> the last position whose
  character, sign extended, equals the value looked for, the terminator being one of the positions, and null when there is none;
  \<^verbatim>\<open>strcspn\<close> counts the characters before the first rejected one; \<^verbatim>\<open>strstr\<close> returns the first position before the terminator at
  which the needle occurs, or null (so it returns null for an empty needle in an empty string).\<close>

theorem string_search:
  assumes "cstr mem p s" and "cstr mem q t"
  shows "strchr mem p ch = Some (case find (\<lambda>i. schar ((s @ [0]) ! i) = ch) [0..<Suc (length s)] of
      Some i \<Rightarrow> p + word_of_nat i | None \<Rightarrow> 0) \<and>
    strrchr mem p ch = Some (case find (\<lambda>i. schar ((s @ [0]) ! i) = ch) (rev [0..<Suc (length s)]) of
      Some i \<Rightarrow> p + word_of_nat i | None \<Rightarrow> 0) \<and>
    strcspn mem p q = Some (word_of_nat (length (takeWhile (\<lambda>x. x \<notin> set t) s))) \<and>
    strstr mem p q = Some (case find (\<lambda>i. take (length t) (drop i s) = t) [0..<length s] of
      Some i \<Rightarrow> p + word_of_nat i | None \<Rightarrow> 0)"
  using strchr_cstr [OF assms(1)] strrchr_loop_cstr [OF assms(1)] strcspn_loop_cstr [OF assms] strstr_cstr [OF assms]
  by (simp add: strrchr_def strcspn_def)

theorem string_search_witness:
  "strstr demo_text 256 512 = Some 257 \<and> strcspn demo_text 256 512 = Some 1 \<and> strchr demo_text 256 98 = Some 257 \<and>
   strchr demo_text 256 0 = Some 259 \<and> strrchr demo_text 256 0 = Some 259"
  using string_search [OF demo_text_strings, of 98] string_search [OF demo_text_strings, of 0] by (simp add: upt_rec)

text \<open>C39: \<^verbatim>\<open>strcmp\<close> returns, its result is 0 exactly for equal strings and negative exactly when the first is smaller in the lexicographic order of signed characters, terminator included; \<^verbatim>\<open>strncmp\<close> returns 0 exactly when the first n characters agree.\<close>

theorem string_comparison:
  assumes "cstr mem p s" and "cstr mem q t"
  shows "(\<exists>r. strcmp mem p q = Some r \<and> (r = 0 \<longleftrightarrow> s = t) \<and>
      (r < 0 \<longleftrightarrow> (map schar (s @ [0]), map schar (t @ [0])) \<in> lexord {(x, y). x < y})) \<and>
    (strncmp mem p q n = 0 \<longleftrightarrow> take (unat n) s = take (unat n) t)"
  using strcmp_cstr [OF assms] strncmp_loop_cstr [OF assms] by (intro conjI) (simp_all add: strncmp_def)

theorem string_comparison_witness:
  "(\<exists>r. strcmp demo_text 256 512 = Some r \<and> r < 0) \<and> strncmp demo_text 256 512 1 \<noteq> 0"
  using string_comparison [OF demo_text_strings, of 1] by auto

text \<open>C26: on spaces followed by digits of a base from 2 to 36, \<^verbatim>\<open>strtoull\<close> returns the number they denote, or the largest 64-bit value when the number does not fit, and the end pointer behind the last digit.\<close>

theorem strtoull_saturates:
  fixes b :: int
  assumes "2 \<le> b" "b \<le> 36" and "cstr mem p (sp @ ds)" and "\<forall>c \<in> set sp. isspace (schar c)"
    and "digits_in b ds" and "ds \<noteq> []"
  shows "strtoull mem p b = Some (word_of_nat (min (value_in b 0 ds) (2 ^ 64 - 1)), p + word_of_nat (length sp + length ds))"
  using assms by (rule strtoull_digits_ok)

theorem strtoull_saturates_witness: "strtoull (store_bytes (\<lambda>_. 0) 256 [32, 55, 102]) 256 16 = Some (127, 259)"
proof -
  have "cstr (store_bytes (\<lambda>_. 0) 256 [32, 55, 102]) 256 ([32] @ [55, 102])" by simp
  moreover have "digits_in 16 [55, 102]" and v: "value_in 16 0 [55, 102] = 127" and "\<forall>c \<in> set [32 :: u8]. isspace (schar c)"
    by (simp_all add: digits_in_def value_in_def strtoull_digit_def isdigit_def isalpha_def isupper_def islower_def isspace_def)
  ultimately show ?thesis using strtoull_saturates [of 16 "store_bytes (\<lambda>_. 0) 256 [32, 55, 102]" 256 "[32]" "[55, 102]"] by simp
qed

text \<open>C40: what \<^verbatim>\<open>store16\<close> and \<^verbatim>\<open>store32\<close> write is read back by \<^verbatim>\<open>load16\<close> and \<^verbatim>\<open>load32\<close>; \<^verbatim>\<open>load48\<close> and \<^verbatim>\<open>load64\<close> read the little-endian value of their 6 and 8 bytes with bits 32 to 63 forced to 1 when the fourth byte is 128 or more, because that byte is shifted as an \<^verbatim>\<open>int\<close>.\<close>

theorem loads:
  "load16 (store16 mem dest v16) dest = v16 \<and>
   load32 (store32 mem dest v32) dest = v32 \<and>
   load48 mem src = le_value mem src 6 OR sign_fill (mem (src + 3)) \<and>
   load64 mem src = le_value mem src 8 OR sign_fill (mem (src + 3))"
proof (intro conjI)
  show "load48 mem src = le_value mem src 6 OR sign_fill (mem (src + 3))"
    by (simp add: load48_def le_value_def sign_fill_def scast_int_shl scast_int_shl_24 upt_rec ac_simps)
  show "load64 mem src = le_value mem src 8 OR sign_fill (mem (src + 3))"
    by (simp add: load64_def le_value_def sign_fill_def scast_int_shl scast_int_shl_24 upt_rec ac_simps)
qed (rule load16_store16 load32_store32)+

end
