(* ===== verification/Hashmap.thy ===== *)
theory Hashmap
  imports Md5 Strings
begin

section \<open>The hash map\<close>

text \<open>
  \<^verbatim>\<open>util/hashmap.c\<close>: an open-addressing table of 24-byte items. The insertion index comes from the MD5 digest of the
  item's data, the lookup index from the key, and both walk the table cyclically from there.
  The memory that the data pointers refer to and the addresses that \<^verbatim>\<open>kmalloc\<close> returns are arguments. The lemmas show that each walk is a search over one round of the table,
  so it ends; that an inserted key is found again; and when an insertion is refused.
\<close>

subsection \<open>State\<close>

record hashmap_item =
  hi_pointer :: u64
  hi_size :: u64
  hi_key :: u64

record hashmap =
  hm_pointer :: u64
  hm_items :: u64
  hm_table :: "hashmap_item list"

definition HASHMAP_MAX_ITEMS :: u64 where
  "HASHMAP_MAX_ITEMS = 65536"

definition zero_item :: hashmap_item where
  "zero_item = \<lparr>hi_pointer = 0, hi_size = 0, hi_key = 0\<rparr>"

subsection \<open>Operations\<close>

text \<open>
  The table is a zeroed block at the address \<open>p\<close> that \<^verbatim>\<open>kmalloc\<close> returns, null for a request of no bytes.
  Its \<^verbatim>\<open>memset\<close> makes the \<^verbatim>\<open>zerocheck\<close> that follows succeed.
\<close>

definition create_hashmap :: "u64 \<Rightarrow> u64 \<Rightarrow> hashmap option" where
  "create_hashmap p items =
     (if items > HASHMAP_MAX_ITEMS then None
      else if p = 0 then None
      else Some \<lparr>hm_pointer = p, hm_items = items, hm_table = replicate (unat items) zero_item\<rparr>)"

text \<open>The addresses that \<^verbatim>\<open>delete_hashmap\<close> passes to \<^verbatim>\<open>kfree\<close>: one per item in use, then the map itself.\<close>

definition delete_hashmap :: "u64 \<Rightarrow> hashmap \<Rightarrow> u64 list" where
  "delete_hashmap self hm =
     map (\<lambda>i. hm_pointer hm + word_of_nat i * 24) (filter (\<lambda>i. hi_key (hm_table hm ! i) \<noteq> 0) [0..<unat (hm_items hm)]) @ [self]"

definition memory_range :: "memory \<Rightarrow> u64 \<Rightarrow> u64 \<Rightarrow> u8 list" where
  "memory_range mem p n = map (\<lambda>i. mem (p + word_of_nat i)) [0..<unat n]"

text \<open>
  \<open>p\<close> is the address that \<^verbatim>\<open>kmalloc\<close> returns for the digest and \<open>ctx\<close> the uninitialised context on the stack. The results are the
  memory with the digest in it, the addresses passed to \<^verbatim>\<open>kfree\<close>, and the hash.
\<close>

definition calculate_hash :: "md5_ctx \<Rightarrow> u64 \<Rightarrow> memory \<Rightarrow> u64 \<Rightarrow> u64 \<Rightarrow> (memory \<times> u64 list \<times> u64) res" where
  "calculate_hash ctx p mem address sz =
     bind_res (MD5_Digest ctx (memory_range mem address sz) sz) (\<lambda>hash.
       let mem = store_bytes mem p hash;
           hash_value = fold (\<lambda>i hash_value. hash_value + ucast (mem (p + word_of_nat i))) [0..<16] 0
       in ret (mem, [p], hash_value))"

definition debug_get_hash :: "md5_ctx \<Rightarrow> u64 \<Rightarrow> memory \<Rightarrow> hashmap_item \<Rightarrow> (memory \<times> u64 list \<times> u64) res" where
  "debug_get_hash ctx p mem data = calculate_hash ctx p mem (hi_pointer data) (hi_size data)"

text \<open>
  The probing loop of \<^verbatim>\<open>insert\<close> and \<^verbatim>\<open>retrieve\<close>: from an index on, cyclically, until an item that \<open>stop\<close>
  accepts or until the walk is back at its start.
\<close>

definition next_index :: "u64 \<Rightarrow> u64 \<Rightarrow> u64" where
  "next_index items index = (if index + 1 \<ge> items then 0 else index + 1)"

definition item_at :: "hashmap_item list \<Rightarrow> u64 \<Rightarrow> hashmap_item res" where
  "item_at tab index = (if unat index < length tab then ret (tab ! unat index) else fault)"

partial_function (option) probe :: "(hashmap_item \<Rightarrow> bool) \<Rightarrow> hashmap_item list \<Rightarrow> u64 \<Rightarrow> u64 \<Rightarrow> u64 \<Rightarrow> u64 option res" where
  "probe stop tab items original_index index =
     bind_res (item_at tab index) (\<lambda>item.
       if stop item then ret (Some index)
       else if next_index items index = original_index then ret None
       else probe stop tab items original_index (next_index items index))"

text \<open>The loop of \<^verbatim>\<open>retrieve\<close>, which looks for its key; that of \<^verbatim>\<open>insert\<close> looks for the key 0 of a free item.\<close>

definition retrieve_probe :: "u64 \<Rightarrow> hashmap_item list \<Rightarrow> u64 \<Rightarrow> u64 \<Rightarrow> u64 \<Rightarrow> u64 option res" where
  "retrieve_probe key = probe (\<lambda>item. hi_key item = key)"

definition start_index :: "u64 \<Rightarrow> u64 \<Rightarrow> u64 res" where
  "start_index hash items = (if items = 0 then fault else ret (hash mod items))"

definition insert_item ::
  "md5_ctx \<Rightarrow> u64 \<Rightarrow> memory \<Rightarrow> hashmap_item \<Rightarrow> hashmap \<Rightarrow> (hashmap \<times> memory \<times> u64 list \<times> u64) res" where
  "insert_item ctx p mem data hm =
     (if hi_key data = 0 \<or> hi_pointer data = 0 \<or> hi_size data = 0 then ret (hm, mem, [], 0)
      else bind_res (calculate_hash ctx p mem (hi_pointer data) (hi_size data)) (\<lambda>(mem, fr, hash).
           bind_res (start_index hash (hm_items hm)) (\<lambda>index.
           bind_res (probe (\<lambda>item. hi_key item = 0) (hm_table hm) (hm_items hm) index index) (\<lambda>r.
             case r of
               None \<Rightarrow> ret (hm, mem, fr, 0)
             | Some i \<Rightarrow> ret (hm\<lparr>hm_table := (hm_table hm)[unat i := data]\<rparr>, mem, fr, hash)))))"

definition retrieve :: "hashmap \<Rightarrow> u64 \<Rightarrow> (u64 \<times> u64) option res" where
  "retrieve hm key =
     bind_res (start_index key (hm_items hm)) (\<lambda>index.
     bind_res (retrieve_probe key (hm_table hm) (hm_items hm) index index) (\<lambda>r.
       case r of
         None \<Rightarrow> ret None
       | Some i \<Rightarrow> bind_res (item_at (hm_table hm) i) (\<lambda>item. ret (Some (hi_pointer item, hi_size item)))))"

subsection \<open>The probing loop\<close>

definition hm_inv :: "hashmap \<Rightarrow> bool" where
  "hm_inv hm \<longleftrightarrow> 0 < hm_items hm \<and> length (hm_table hm) = unat (hm_items hm)"

lemma next_index_nat: "unat index < unat items \<Longrightarrow> unat (next_index items index) = Suc (unat index) mod unat items"
proof -
  assume i: "unat index < unat items"
  then have s: "unat (index + 1) = Suc (unat index)" by (intro word_plus_1_nat [of _ items]) (simp add: word_less_nat_alt)
  then show ?thesis using i by (cases "Suc (unat index) = unat items") (simp_all add: next_index_def word_le_nat_alt)
qed

text \<open>After \<open>k\<close> steps the walk is at \<open>(original + k) mod items\<close>; the rest of its round is still to visit.\<close>

lemma probe_walk:
  assumes len: "length tab = unat items" "0 < unat items" and start: "unat orig < unat items"
    and idx: "unat index = (unat orig + (unat items - Suc k)) mod unat items" and k: "k < unat items"
  shows "probe stop tab items orig index =
    ret (map_option word_of_nat (find (\<lambda>j. stop (tab ! j)) (map (\<lambda>j. (unat orig + (unat items - Suc k + j)) mod unat items) [0..<Suc k])))"
  using idx k
proof (induction k arbitrary: index)
  case 0
  have i: "unat index < length tab" using 0 len by simp
  have "Suc (unat index) mod unat items = unat orig"
  proof -
    have "Suc (unat index) mod unat items = Suc (unat orig + (unat items - 1)) mod unat items" using 0(1) by (simp add: mod_simps)
    also have "Suc (unat orig + (unat items - 1)) = unat orig + unat items" using len(2) by simp
    finally show ?thesis using start by simp
  qed
  then have "next_index items index = orig" using next_index_nat [of index items] i len by (simp add: word_unat_eq_iff)
  then show ?case using i by (subst probe.simps) (simp add: item_at_def 0(1) [symmetric])
next
  case (Suc k)
  let ?n = "unat items" and ?o = "unat orig"
  have i: "unat index < length tab" using Suc.prems len by simp
  have nx: "unat (next_index items index) = (?o + (?n - Suc k)) mod ?n"
  proof -
    have "Suc (?o + (?n - Suc (Suc k))) = ?o + (?n - Suc k)" using Suc.prems(2) by simp
    moreover have "unat (next_index items index) = Suc ((?o + (?n - Suc (Suc k))) mod ?n) mod ?n"
      using next_index_nat [of index items] i len Suc.prems(1) by simp
    ultimately show ?thesis by (simp only: mod_Suc_eq)
  qed
  have "next_index items index \<noteq> orig"
  proof
    assume "next_index items index = orig"
    then have "(?o + (?n - Suc k)) mod ?n = ?o mod ?n" using nx start by simp
    then have "?n dvd ?n - Suc k" by (metis add.right_neutral mod_add_cong mod_add_left_eq nat_mod_eq_iff dvd_eq_mod_eq_0 add_diff_cancel_left' mod_eq_dvd_iff_nat le_add1)
    moreover have "0 < ?n - Suc k" "?n - Suc k < ?n" using Suc.prems(2) by simp_all
    ultimately show False by (auto dest: dvd_imp_le)
  qed
  moreover have "map (\<lambda>j. (?o + (?n - Suc (Suc k) + j)) mod ?n) [0..<Suc (Suc k)] =
      unat index # map (\<lambda>j. (?o + (?n - Suc k + j)) mod ?n) [0..<Suc k]"
  proof -
    have "?n - Suc (Suc k) + Suc j = ?n - Suc k + j" for j using Suc.prems(2) by simp
    then show ?thesis using Suc.prems(1) by (simp add: upt_conv_Cons map_Suc_upt [symmetric] comp_def del: upt_Suc)
  qed
  ultimately show ?case using Suc.IH [OF nx] Suc.prems(2) i by (subst probe.simps) (simp add: item_at_def del: upt_Suc)
qed

definition cycle :: "nat \<Rightarrow> nat \<Rightarrow> nat list" where
  "cycle n start = map (\<lambda>j. (start + j) mod n) [0..<n]"

lemma set_cycle: "0 < n \<Longrightarrow> set (cycle n start) = {0..<n}"
proof -
  assume n: "0 < n"
  have "\<exists>j < n. i = (start + j) mod n" if "i < n" for i
  proof (intro exI conjI)
    have "start \<le> n * start" using n by simp
    then have "start + (i + n * start - start) = i + n * start" by linarith
    then show "i = (start + (i + n * start - start) mod n) mod n" using that by (simp add: mod_simps)
  qed (use n in simp)
  then have "\<exists>j \<in> {0..<n}. i = (start + j) mod n" if "i < n" for i using that by (auto simp: Bex_def)
  then show ?thesis using n by (auto simp: cycle_def image_iff)
qed

lemma probe_find:
  assumes "hm_inv hm" and "unat orig < unat (hm_items hm)"
  shows "probe stop (hm_table hm) (hm_items hm) orig orig =
    ret (map_option word_of_nat (find (\<lambda>j. stop (hm_table hm ! j)) (cycle (unat (hm_items hm)) (unat orig))))"
proof -
  let ?n = "unat (hm_items hm)"
  have n: "0 < ?n" "length (hm_table hm) = ?n" using assms(1) by (auto simp: hm_inv_def word_less_nat_alt)
  have "unat orig = (unat orig + (?n - Suc (?n - 1))) mod ?n" using n assms(2) by simp
  from probe_walk [OF n(2,1) assms(2) this, of stop] n(1) show ?thesis by (simp add: cycle_def del: upt_Suc)
qed

lemma start_index_ok: "hm_inv hm \<Longrightarrow> \<exists>i. start_index h (hm_items hm) = ret i \<and> unat i < unat (hm_items hm)"
  by (auto simp: start_index_def hm_inv_def word_less_nat_alt unat_mod)

text \<open>The hash is the sum of the bytes of the digest, and only the bytes of the digest buffer change.\<close>

lemma region_past: "n + k < 2 ^ 64 \<Longrightarrow> 0 < k \<Longrightarrow> p \<notin> region (p + word_of_nat k) n"
proof (induction n arbitrary: k)
  case (Suc n)
  have "word_of_nat k \<noteq> (0 :: u64)" using Suc.prems unat_of_nat_small [of k] by (auto simp: word_unat_eq_iff)
  moreover have "p \<notin> region (p + word_of_nat (Suc k)) n" using Suc.IH [of "Suc k"] Suc.prems by simp
  ultimately show ?case by (simp add: add.assoc add.commute [of 1])
qed simp

lemma store_bytes_nth: "i < length bs \<Longrightarrow> length bs < 2 ^ 64 \<Longrightarrow> store_bytes mem p bs (p + word_of_nat i) = bs ! i"
proof (induction bs arbitrary: i p mem)
  case (Cons b bs)
  show ?case
  proof (cases i)
    case 0
    have "p \<notin> region (p + 1) (length bs)" using region_past [of "length bs" 1 p] Cons.prems(2) by simp
    with 0 show ?thesis by simp
  next
    case (Suc j)
    then show ?thesis using Cons.IH [of j "mem(p := b)" "p + 1"] Cons.prems by (simp add: add.assoc del: fun_upd_apply)
  qed
qed simp

lemma calculate_hash_ok:
  assumes "length (md5_buffer ctx) = 64" and "unat sz < 2 ^ 63"
  shows "calculate_hash ctx p mem a sz = ret (store_bytes mem p (md5_ref (memory_range mem a sz)), [p],
    fold (\<lambda>b hash_value. hash_value + ucast b) (md5_ref (memory_range mem a sz)) 0)"
proof -
  let ?d = "md5_ref (memory_range mem a sz)"
  define f where "f = (\<lambda>i. store_bytes mem p ?d (p + word_of_nat i))"
  have fi: "f i = store_bytes mem p ?d (p + word_of_nat i)" for i by (simp add: f_def)
  have "map f [0..<16] = map (\<lambda>i. ?d ! i) [0..<length ?d]"
    by (intro map_cong) (auto simp: f_def store_bytes_nth simp del: upt_Suc)
  also have "\<dots> = ?d" by (rule map_nth)
  finally have d: "map f [0..<16] = ?d" .
  have "fold (\<lambda>b hash_value. hash_value + ucast b) (map f [0..<16]) (0 :: u64) =
      fold (\<lambda>i hash_value. hash_value + ucast (f i)) [0..<16] 0" by (simp only: fold_map comp_def)
  then have "fold (\<lambda>b hash_value. hash_value + ucast b) ?d 0 =
      (fold (\<lambda>i hash_value. hash_value + ucast (store_bytes mem p ?d (p + word_of_nat i))) [0..<16] 0 :: u64)"
    by (simp only: d fi)
  then show ?thesis using MD5_Digest_ref [of ctx "memory_range mem a sz"] assms by (simp add: calculate_hash_def memory_range_def Let_def)
qed

lemma index_word: "j < unat (items :: u64) \<Longrightarrow> unat (word_of_nat j :: u64) = j"
  by (rule unat_of_nat_small, erule order.strict_trans) simp

lemma find_in: "find P xs = Some x \<Longrightarrow> P x \<and> x \<in> set xs"
  by (auto simp: find_Some_iff)

lemma retrieve_find:
  assumes "hm_inv hm"
  shows "retrieve hm k = ret (map_option (\<lambda>j. (hi_pointer (hm_table hm ! j), hi_size (hm_table hm ! j)))
    (find (\<lambda>j. hi_key (hm_table hm ! j) = k) (cycle (unat (hm_items hm)) (unat (k mod hm_items hm)))))"
proof -
  obtain i where i: "start_index k (hm_items hm) = ret i" "unat i < unat (hm_items hm)" using start_index_ok [OF assms] by blast
  then have e: "i = k mod hm_items hm" by (simp add: start_index_def split: if_splits)
  have n: "0 < unat (hm_items hm)" using i(2) by simp
  show ?thesis
  proof (cases "find (\<lambda>j. hi_key (hm_table hm ! j) = k) (cycle (unat (hm_items hm)) (unat i))")
    case None
    then show ?thesis using probe_find [OF assms i(2), of "\<lambda>item. hi_key item = k"] i(1) e by (simp add: retrieve_def retrieve_probe_def)
  next
    case (Some j)
    then have "j < unat (hm_items hm)" using find_in [OF Some] set_cycle [OF n] by auto
    then have "item_at (hm_table hm) (word_of_nat j) = ret (hm_table hm ! j)"
      using assms index_word [of j "hm_items hm"] by (simp add: item_at_def hm_inv_def)
    with Some show ?thesis using probe_find [OF assms i(2), of "\<lambda>item. hi_key item = k"] i(1) e by (simp add: retrieve_def retrieve_probe_def)
  qed
qed

definition hm_keys :: "hashmap \<Rightarrow> u64 set" where
  "hm_keys hm = hi_key ` set (hm_table hm)"

definition insertable :: "md5_ctx \<Rightarrow> hashmap_item \<Rightarrow> bool" where
  "insertable ctx data \<longleftrightarrow> hi_key data \<noteq> 0 \<and> hi_pointer data \<noteq> 0 \<and> hi_size data \<noteq> 0 \<and> unat (hi_size data) < 2 ^ 63 \<and>
     length (md5_buffer ctx) = 64"

lemma insert_find:
  assumes "hm_inv hm" and "insertable ctx data"
  shows "\<exists>m h s. calculate_hash ctx p mem (hi_pointer data) (hi_size data) = ret (m, [p], h) \<and> (\<forall>a. a \<notin> region p 16 \<longrightarrow> m a = mem a) \<and>
    insert_item ctx p mem data hm = ret (case find (\<lambda>j. hi_key (hm_table hm ! j) = 0) (cycle (unat (hm_items hm)) s) of
      None \<Rightarrow> (hm, m, [p], 0) | Some j \<Rightarrow> (hm\<lparr>hm_table := (hm_table hm)[j := data]\<rparr>, m, [p], h))"
proof -
  define d where "d = md5_ref (memory_range mem (hi_pointer data) (hi_size data))"
  obtain h where h: "calculate_hash ctx p mem (hi_pointer data) (hi_size data) = ret (store_bytes mem p d, [p], h)"
    using calculate_hash_ok [of ctx "hi_size data" p mem "hi_pointer data"] assms(2) by (auto simp: insertable_def d_def)
  have "length d = 16" by (simp add: d_def)
  then have fr: "\<forall>a. a \<notin> region p 16 \<longrightarrow> store_bytes mem p d a = mem a" by (metis store_bytes_frame)
  obtain i where i: "start_index h (hm_items hm) = ret i" "unat i < unat (hm_items hm)" using start_index_ok [OF assms(1)] by blast
  let ?f = "find (\<lambda>j. hi_key (hm_table hm ! j) = 0) (cycle (unat (hm_items hm)) (unat i))"
  have "j < unat (hm_items hm)" if "?f = Some j" for j using find_in [OF that] set_cycle i(2) by (auto dest: gr_implies_not0)
  then have "insert_item ctx p mem data hm = ret (case ?f of None \<Rightarrow> (hm, store_bytes mem p d, [p], 0)
      | Some j \<Rightarrow> (hm\<lparr>hm_table := (hm_table hm)[j := data]\<rparr>, store_bytes mem p d, [p], h))"
    using assms h i(1) probe_find [OF assms(1) i(2), of "\<lambda>item. hi_key item = 0"] index_word
    by (auto simp: insert_item_def insertable_def split: option.splits)
  with h fr show ?thesis by blast
qed

lemma create_hashmap_inv: "create_hashmap p items = Some hm \<Longrightarrow> items \<noteq> 0 \<Longrightarrow> hm_inv hm \<and> hm_keys hm = {0}"
  by (auto simp: create_hashmap_def hm_inv_def hm_keys_def zero_item_def word_gt_0 set_replicate_conv_if unat_eq_0 split: if_splits)

definition demo_table :: hashmap where
  "demo_table = \<lparr>hm_pointer = 4096, hm_items = 2, hm_table = [\<lparr>hi_pointer = 256, hi_size = 8, hi_key = 7\<rparr>, zero_item]\<rparr>"

definition demo_item :: hashmap_item where
  "demo_item = \<lparr>hi_pointer = 512, hi_size = 3, hi_key = 9\<rparr>"

subsection \<open>Properties\<close>

text \<open>C20: inserting an item with a new key into a table with a free slot succeeds with the hash of its data; it frees the buffer it
  allocated for the digest and changes no memory but that buffer's; \<^verbatim>\<open>retrieve\<close> then returns the item for its key, although it starts from another index than \<^verbatim>\<open>insert\<close> did, and answers every other key as before.\<close>

theorem hashmap_insert_retrieve:
  assumes inv: "hm_inv hm" and data: "insertable ctx data" and new: "hi_key data \<notin> hm_keys hm" and free: "0 \<in> hm_keys hm"
  shows "\<exists>hm' m h. calculate_hash ctx p mem (hi_pointer data) (hi_size data) = ret (m, [p], h) \<and>
    insert_item ctx p mem data hm = ret (hm', m, [p], h) \<and> (\<forall>a. a \<notin> region p 16 \<longrightarrow> m a = mem a) \<and>
    hm_inv hm' \<and> retrieve hm' (hi_key data) = ret (Some (hi_pointer data, hi_size data)) \<and>
    (\<forall>k. k \<noteq> 0 \<longrightarrow> k \<noteq> hi_key data \<longrightarrow> retrieve hm' k = retrieve hm k)"
proof -
  let ?n = "unat (hm_items hm)" and ?t = "hm_table hm"
  have n: "0 < ?n" "length ?t = ?n" using inv by (auto simp: hm_inv_def word_less_nat_alt)
  from insert_find [OF inv data, of p mem] obtain m h s where h: "calculate_hash ctx p mem (hi_pointer data) (hi_size data) = ret (m, [p], h)"
    and fr: "\<forall>a. a \<notin> region p 16 \<longrightarrow> m a = mem a"
    and r: "insert_item ctx p mem data hm = ret (case find (\<lambda>j. hi_key (?t ! j) = 0) (cycle ?n s) of
      None \<Rightarrow> (hm, m, [p], 0) | Some j \<Rightarrow> (hm\<lparr>hm_table := ?t[j := data]\<rparr>, m, [p], h))" by blast
  from free obtain i where "i < ?n" "hi_key (?t ! i) = 0" using n(2) by (auto simp: hm_keys_def in_set_conv_nth)
  then obtain j where f: "find (\<lambda>j. hi_key (?t ! j) = 0) (cycle ?n s) = Some j"
    using set_cycle [OF n(1), of s] by (cases "find (\<lambda>j. hi_key (?t ! j) = 0) (cycle ?n s)") (auto simp: find_None_iff)
  then have j: "j < ?n" "hi_key (?t ! j) = 0" using find_in [OF f] set_cycle [OF n(1)] by auto
  let ?hm = "hm\<lparr>hm_table := ?t[j := data]\<rparr>"
  have inv': "hm_inv ?hm" using inv by (simp add: hm_inv_def)
  have "find (\<lambda>i. hi_key (?t[j := data] ! i) = hi_key data) (cycle ?n c) = Some j" for c
  proof -
    have "(hi_key (?t[j := data] ! i) = hi_key data) = (i = j)" if "i < ?n" for i
    proof -
      have "hi_key (?t ! i) \<noteq> hi_key data" using that new n(2) nth_mem [of i ?t] by (metis hm_keys_def imageI)
      then show ?thesis using that n(2) j by (cases "i = j") auto
    qed
    then have "find (\<lambda>i. hi_key (?t[j := data] ! i) = hi_key data) (cycle ?n c) = find (\<lambda>i. i = j) (cycle ?n c)"
      by (intro find_cong) (auto simp: set_cycle [OF n(1)])
    moreover have "find (\<lambda>i. i = j) (cycle ?n c) = Some j"
      using set_cycle [OF n(1), of c] j(1) by (cases "find (\<lambda>i. i = j) (cycle ?n c)") (auto simp: find_None_iff dest: find_in)
    ultimately show ?thesis by simp
  qed
  then have "retrieve ?hm (hi_key data) = ret (Some (hi_pointer data, hi_size data))"
    using retrieve_find [OF inv'] n(2) j(1) by simp
  moreover have "retrieve ?hm k = retrieve hm k" if "k \<noteq> 0" "k \<noteq> hi_key data" for k
  proof -
    have "(hi_key (?t[j := data] ! i) = k) = (hi_key (?t ! i) = k)" for i
      using that j n(2) by (cases "i = j") auto
    moreover have "?t[j := data] ! i = ?t ! i" if "hi_key (?t ! i) = k" for i
      using that \<open>k \<noteq> 0\<close> j(2) by (cases "i = j") auto
    ultimately show ?thesis unfolding retrieve_find [OF inv'] retrieve_find [OF inv]
      by (auto simp: map_option_case split: option.splits dest: find_in)
  qed
  ultimately show ?thesis using h r f inv' fr by auto
qed

theorem hashmap_insert_retrieve_witness:
  "\<exists>hm' m h. insert_item demo_ctx 1024 (\<lambda>_. 0) demo_item demo_table = ret (hm', m, [1024], h) \<and> retrieve hm' 9 = ret (Some (512, 3)) \<and>
     retrieve hm' 7 = retrieve demo_table 7"
proof -
  have "hm_inv demo_table" "insertable demo_ctx demo_item" "hi_key demo_item \<notin> hm_keys demo_table" "0 \<in> hm_keys demo_table"
    by (simp_all add: demo_table_def demo_item_def hm_inv_def insertable_def hm_keys_def zero_item_def demo_ctx_def)
  from hashmap_insert_retrieve [OF this, of 1024 "\<lambda>_. 0"] show ?thesis by (auto simp: demo_item_def)
qed

text \<open>\<^verbatim>\<open>insert\<close> returns 0 and leaves the table as it is when the key, pointer or size is 0 or the table is full.\<close>

lemma hashmap_insert_rejects:
  assumes "hm_inv hm" and "length (md5_buffer ctx) = 64" and "unat (hi_size data) < 2 ^ 63"
    and "hi_key data = 0 \<or> hi_pointer data = 0 \<or> hi_size data = 0 \<or> 0 \<notin> hm_keys hm"
  shows "\<exists>m fr. insert_item ctx p mem data hm = ret (hm, m, fr, 0)"
proof (cases "hi_key data = 0 \<or> hi_pointer data = 0 \<or> hi_size data = 0")
  case True
  then show ?thesis by (simp add: insert_item_def)
next
  case False
  then have d: "insertable ctx data" and full: "0 \<notin> hm_keys hm" using assms by (simp_all add: insertable_def)
  have n: "0 < unat (hm_items hm)" "length (hm_table hm) = unat (hm_items hm)" using assms(1) by (auto simp: hm_inv_def word_less_nat_alt)
  have "find (\<lambda>j. hi_key (hm_table hm ! j) = 0) (cycle (unat (hm_items hm)) s) = None" for s
    using full n set_cycle [OF n(1), of s] nth_mem [of _ "hm_table hm"] by (auto simp: find_None_iff hm_keys_def image_iff)
  then show ?thesis using insert_find [OF assms(1) d, of p mem] by auto
qed

lemma hashmap_insert_rejects_example:
  "\<exists>m fr. insert_item demo_ctx 1024 (\<lambda>_. 0) demo_item (demo_table\<lparr>hm_items := 1, hm_table := [hm_table demo_table ! 0]\<rparr>) =
     ret (demo_table\<lparr>hm_items := 1, hm_table := [hm_table demo_table ! 0]\<rparr>, m, fr, 0)"
  by (rule hashmap_insert_rejects) (simp_all add: demo_table_def demo_item_def hm_inv_def hm_keys_def demo_ctx_def)

text \<open>C29: the walk of \<^verbatim>\<open>retrieve\<close> always ends; it reports that there is no item exactly when no slot has the key, and what it returns is stored in the table under that key.\<close>

theorem hashmap_retrieve_terminates:
  assumes "hm_inv hm"
  shows "\<exists>r. retrieve hm k = ret r \<and> (r = None \<longleftrightarrow> k \<notin> hm_keys hm) \<and>
    (\<forall>p s. r = Some (p, s) \<longrightarrow> \<lparr>hi_pointer = p, hi_size = s, hi_key = k\<rparr> \<in> set (hm_table hm))"
proof -
  let ?c = "cycle (unat (hm_items hm)) (unat (k mod hm_items hm))"
  have n: "0 < unat (hm_items hm)" "length (hm_table hm) = unat (hm_items hm)" using assms by (auto simp: hm_inv_def word_less_nat_alt)
  show ?thesis
  proof (cases "find (\<lambda>j. hi_key (hm_table hm ! j) = k) ?c")
    case None
    then have "k \<notin> hm_keys hm" using set_cycle [OF n(1)] n(2) by (auto simp: find_None_iff hm_keys_def in_set_conv_nth)
    then show ?thesis using None retrieve_find [OF assms, of k] by simp
  next
    case (Some j)
    then have j: "hi_key (hm_table hm ! j) = k" "j < length (hm_table hm)" using find_in [OF Some] set_cycle [OF n(1)] n(2) by auto
    then have "k \<in> hm_keys hm" using nth_mem [OF j(2)] by (auto simp: hm_keys_def)
    moreover have "\<lparr>hi_pointer = hi_pointer (hm_table hm ! j), hi_size = hi_size (hm_table hm ! j), hi_key = k\<rparr> \<in> set (hm_table hm)"
      using nth_mem [OF j(2)] j(1) by (metis hashmap_item.surjective unit_eq)
    ultimately show ?thesis using Some retrieve_find [OF assms, of k] by simp
  qed
qed

theorem hashmap_retrieve_terminates_witness: "\<exists>r. retrieve demo_table 9 = ret r \<and> r = None"
proof -
  have "hm_inv demo_table" by (simp add: demo_table_def hm_inv_def)
  from hashmap_retrieve_terminates [OF this, of 9] show ?thesis by (auto simp: demo_table_def hm_keys_def zero_item_def)
qed

end
