(* ===== verification/Crc.thy ===== *)
theory Crc
  imports Kernel_Prelude
begin

section \<open>Checksums (\<^verbatim>\<open>src/src/net/crc.c\<close>)\<close>

text \<open>
  The CRC-32 of the network code: the constant lookup table, the function that would generate it, and
  the checksum over a memory range. The lemmas relate both to the bitwise shift register.
\<close>

subsection \<open>The table and its generator\<close>

text \<open>The constant table \<^verbatim>\<open>poly8_lookup\<close>, as written in the source.\<close>

definition poly8_lookup :: "u32 list" where
  "poly8_lookup = [
    0, 0x77073096, 0xEE0E612C, 0x990951BA,
    0x076DC419, 0x706AF48F, 0xE963A535, 0x9E6495A3,
    0x0EDB8832, 0x79DCB8A4, 0xE0D5E91E, 0x97D2D988,
    0x09B64C2B, 0x7EB17CBD, 0xE7B82D07, 0x90BF1D91,
    0x1DB71064, 0x6AB020F2, 0xF3B97148, 0x84BE41DE,
    0x1ADAD47D, 0x6DDDE4EB, 0xF4D4B551, 0x83D385C7,
    0x136C9856, 0x646BA8C0, 0xFD62F97A, 0x8A65C9EC,
    0x14015C4F, 0x63066CD9, 0xFA0F3D63, 0x8D080DF5,
    0x3B6E20C8, 0x4C69105E, 0xD56041E4, 0xA2677172,
    0x3C03E4D1, 0x4B04D447, 0xD20D85FD, 0xA50AB56B,
    0x35B5A8FA, 0x42B2986C, 0xDBBBC9D6, 0xACBCF940,
    0x32D86CE3, 0x45DF5C75, 0xDCD60DCF, 0xABD13D59,
    0x26D930AC, 0x51DE003A, 0xC8D75180, 0xBFD06116,
    0x21B4F4B5, 0x56B3C423, 0xCFBA9599, 0xB8BDA50F,
    0x2802B89E, 0x5F058808, 0xC60CD9B2, 0xB10BE924,
    0x2F6F7C87, 0x58684C11, 0xC1611DAB, 0xB6662D3D,
    0x76DC4190, 0x01DB7106, 0x98D220BC, 0xEFD5102A,
    0x71B18589, 0x06B6B51F, 0x9FBFE4A5, 0xE8B8D433,
    0x7807C9A2, 0x0F00F934, 0x9609A88E, 0xE10E9818,
    0x7F6A0DBB, 0x086D3D2D, 0x91646C97, 0xE6635C01,
    0x6B6B51F4, 0x1C6C6162, 0x856530D8, 0xF262004E,
    0x6C0695ED, 0x1B01A57B, 0x8208F4C1, 0xF50FC457,
    0x65B0D9C6, 0x12B7E950, 0x8BBEB8EA, 0xFCB9887C,
    0x62DD1DDF, 0x15DA2D49, 0x8CD37CF3, 0xFBD44C65,
    0x4DB26158, 0x3AB551CE, 0xA3BC0074, 0xD4BB30E2,
    0x4ADFA541, 0x3DD895D7, 0xA4D1C46D, 0xD3D6F4FB,
    0x4369E96A, 0x346ED9FC, 0xAD678846, 0xDA60B8D0,
    0x44042D73, 0x33031DE5, 0xAA0A4C5F, 0xDD0D7CC9,
    0x5005713C, 0x270241AA, 0xBE0B1010, 0xC90C2086,
    0x5768B525, 0x206F85B3, 0xB966D409, 0xCE61E49F,
    0x5EDEF90E, 0x29D9C998, 0xB0D09822, 0xC7D7A8B4,
    0x59B33D17, 0x2EB40D81, 0xB7BD5C3B, 0xC0BA6CAD,
    0xEDB88320, 0x9ABFB3B6, 0x03B6E20C, 0x74B1D29A,
    0xEAD54739, 0x9DD277AF, 0x04DB2615, 0x73DC1683,
    0xE3630B12, 0x94643B84, 0x0D6D6A3E, 0x7A6A5AA8,
    0xE40ECF0B, 0x9309FF9D, 0x0A00AE27, 0x7D079EB1,
    0xF00F9344, 0x8708A3D2, 0x1E01F268, 0x6906C2FE,
    0xF762575D, 0x806567CB, 0x196C3671, 0x6E6B06E7,
    0xFED41B76, 0x89D32BE0, 0x10DA7A5A, 0x67DD4ACC,
    0xF9B9DF6F, 0x8EBEEFF9, 0x17B7BE43, 0x60B08ED5,
    0xD6D6A3E8, 0xA1D1937E, 0x38D8C2C4, 0x4FDFF252,
    0xD1BB67F1, 0xA6BC5767, 0x3FB506DD, 0x48B2364B,
    0xD80D2BDA, 0xAF0A1B4C, 0x36034AF6, 0x41047A60,
    0xDF60EFC3, 0xA867DF55, 0x316E8EEF, 0x4669BE79,
    0xCB61B38C, 0xBC66831A, 0x256FD2A0, 0x5268E236,
    0xCC0C7795, 0xBB0B4703, 0x220216B9, 0x5505262F,
    0xC5BA3BBE, 0xB2BD0B28, 0x2BB45A92, 0x5CB36A04,
    0xC2D7FFA7, 0xB5D0CF31, 0x2CD99E8B, 0x5BDEAE1D,
    0x9B64C2B0, 0xEC63F226, 0x756AA39C, 0x026D930A,
    0x9C0906A9, 0xEB0E363F, 0x72076785, 0x05005713,
    0x95BF4A82, 0xE2B87A14, 0x7BB12BAE, 0x0CB61B38,
    0x92D28E9B, 0xE5D5BE0D, 0x7CDCEFB7, 0x0BDBDF21,
    0x86D3D2D4, 0xF1D4E242, 0x68DDB3F8, 0x1FDA836E,
    0x81BE16CD, 0xF6B9265B, 0x6FB077E1, 0x18B74777,
    0x88085AE6, 0xFF0F6A70, 0x66063BCA, 0x11010B5C,
    0x8F659EFF, 0xF862AE69, 0x616BFFD3, 0x166CCF45,
    0xA00AE278, 0xD70DD2EE, 0x4E048354, 0x3903B3C2,
    0xA7672661, 0xD06016F7, 0x4969474D, 0x3E6E77DB,
    0xAED16A4A, 0xD9D65ADC, 0x40DF0B66, 0x37D83BF0,
    0xA9BCAE53, 0xDEBB9EC5, 0x47B2CF7F, 0x30B5FFE9,
    0xBDBDF21C, 0xCABAC28A, 0x53B39330, 0x24B4A3A6,
    0xBAD03605, 0xCDD70693, 0x54DE5729, 0x23D967BF,
    0xB3667A2E, 0xC4614AB8, 0x5D681B02, 0x2A6F2B94,
    0xB40BBE37, 0xC30C8EA1, 0x5A05DF1B, 0x2D02EF8D]"

text \<open>One round of the inner loop of \<^verbatim>\<open>crc32_fill\<close>, its eight rounds, and the loop over the table.\<close>

definition crc_shift :: "u32 \<Rightarrow> u32" where
  "crc_shift x = (if x AND 1 \<noteq> 0 then drop_bit 1 x XOR 0xEDB88320 else drop_bit 1 x)"

definition crc32_entry :: "u32 \<Rightarrow> u32" where
  "crc32_entry index = (crc_shift ^^ 8) index"

definition crc32_fill :: "u32 list \<Rightarrow> u32 list" where
  "crc32_fill table = fold (\<lambda>index t. t[index := crc32_entry (word_of_nat index)]) [0..<256] table"

subsection \<open>The checksum\<close>

definition crc_step :: "u8 \<Rightarrow> u32 \<Rightarrow> u32" where
  "crc_step b crc = poly8_lookup ! unat (ucast crc XOR b) XOR drop_bit 8 crc"

text \<open>\<^verbatim>\<open>while (bytelength-- != 0)\<close> over the memory at \<open>p\<close>.\<close>

primrec crc_loop :: "(u64 \<Rightarrow> u8) \<Rightarrow> u64 \<Rightarrow> nat \<Rightarrow> u32 \<Rightarrow> u32" where
  "crc_loop mem p 0 crc = crc"
| "crc_loop mem p (Suc n) crc = crc_loop mem (p + 1) n (crc_step (mem p) crc)"

definition crc32_byte :: "(u64 \<Rightarrow> u8) \<Rightarrow> u64 \<Rightarrow> u32 \<Rightarrow> u32" where
  "crc32_byte mem p bytelength = crc_loop mem p (unat bytelength) 0xffffffff XOR 0xffffffff"

subsection \<open>The table is the one the generator fills\<close>

lemma entry_unfold: "crc32_entry x = crc_shift (crc_shift (crc_shift (crc_shift (crc_shift (crc_shift (crc_shift (crc_shift x)))))))"
  by (simp add: crc32_entry_def eval_nat_numeral)

lemma fold_update:
  "n \<le> length t \<Longrightarrow> fold (\<lambda>i t. t[i := f i]) [0..<n] t = map f [0..<n] @ drop n t"
  by (induction n) (auto simp: list_update_append Cons_nth_drop_Suc [symmetric])

definition bytes256 :: "u32 list" where
  "bytes256 = [0, 1, 2, 3, 4, 5, 6, 7, 8, 9, 10, 11, 12, 13, 14, 15, 16, 17, 18, 19, 20, 21, 22, 23, 24, 25, 26, 27, 28, 29, 30, 31,
    32, 33, 34, 35, 36, 37, 38, 39, 40, 41, 42, 43, 44, 45, 46, 47, 48, 49, 50, 51, 52, 53, 54, 55, 56, 57, 58, 59, 60, 61,
    62, 63, 64, 65, 66, 67, 68, 69, 70, 71, 72, 73, 74, 75, 76, 77, 78, 79, 80, 81, 82, 83, 84, 85, 86, 87, 88, 89, 90, 91,
    92, 93, 94, 95, 96, 97, 98, 99, 100, 101, 102, 103, 104, 105, 106, 107, 108, 109, 110, 111, 112, 113, 114, 115, 116,
    117, 118, 119, 120, 121, 122, 123, 124, 125, 126, 127, 128, 129, 130, 131, 132, 133, 134, 135, 136, 137, 138, 139, 140,
    141, 142, 143, 144, 145, 146, 147, 148, 149, 150, 151, 152, 153, 154, 155, 156, 157, 158, 159, 160, 161, 162, 163, 164,
    165, 166, 167, 168, 169, 170, 171, 172, 173, 174, 175, 176, 177, 178, 179, 180, 181, 182, 183, 184, 185, 186, 187, 188,
    189, 190, 191, 192, 193, 194, 195, 196, 197, 198, 199, 200, 201, 202, 203, 204, 205, 206, 207, 208, 209, 210, 211, 212,
    213, 214, 215, 216, 217, 218, 219, 220, 221, 222, 223, 224, 225, 226, 227, 228, 229, 230, 231, 232, 233, 234, 235, 236,
    237, 238, 239, 240, 241, 242, 243, 244, 245, 246, 247, 248, 249, 250, 251, 252, 253, 254, 255]"

lemma bytes256_upt: "map word_of_nat [0..<256] = bytes256"
  unfolding bytes256_def by (simp add: upt_rec_numeral upt_conv_Cons)

lemma table_entries: "map crc32_entry bytes256 = poly8_lookup"
  unfolding poly8_lookup_def bytes256_def by (simp add: entry_unfold crc_shift_def)

lemma fill_table: "length table = 256 \<Longrightarrow> crc32_fill table = poly8_lookup"
  using table_entries fold_update [of 256 table "\<lambda>i. crc32_entry (word_of_nat i)"]
  by (simp add: crc32_fill_def bytes256_upt [symmetric] comp_def)

lemma table_nth: "poly8_lookup ! unat i = crc32_entry (ucast (i :: u8))"
proof -
  have t: "map (\<lambda>i. crc32_entry (word_of_nat i)) [0..<256] = poly8_lookup"
    using table_entries by (simp add: bytes256_upt [symmetric] comp_def)
  have "unat i < 256" using unsigned_less [of i] by simp
  then have "map (\<lambda>i. crc32_entry (word_of_nat i)) [0..<256] ! unat i = crc32_entry (ucast i)" by simp
  then show ?thesis unfolding t .
qed

subsection \<open>The shift register\<close>

lemma crc_shift_bits: "crc_shift x = drop_bit 1 x XOR (if bit x 0 then 0xEDB88320 else 0)"
  by (simp add: crc_shift_def bit_0 even_iff_mod_2_eq_zero and_one_eq odd_iff_mod_2_eq_one)

lemma crc_shift_xor: "crc_shift (x XOR y) = crc_shift x XOR crc_shift y"
  by (auto simp: crc_shift_bits bit_xor_iff xor.assoc xor.left_commute intro!: bit_eqI)

lemma funpow_shift_xor: "(crc_shift ^^ n) (x XOR y) = (crc_shift ^^ n) x XOR (crc_shift ^^ n) y"
  by (induction n) (simp_all add: crc_shift_xor)

lemma funpow_shift_high:
  assumes "\<And>i. i < n \<Longrightarrow> \<not> bit x i"
  shows "(crc_shift ^^ n) x = drop_bit n x"
  using assms by (induction n) (auto simp: crc_shift_bits bit_drop_bit_eq)

text \<open>The reference: each byte is added to the low end and shifted out bit by bit.\<close>

definition crc_bitwise :: "u8 \<Rightarrow> u32 \<Rightarrow> u32" where
  "crc_bitwise b crc = (crc_shift ^^ 8) (crc XOR ucast b)"

lemma crc_step_bitwise: "crc_step b crc = crc_bitwise b crc"
proof -
  let ?z = "crc XOR ucast b" and ?i = "ucast crc XOR b :: u8"
  have split: "?z = ucast ?i XOR (?z AND NOT (mask 8))"
    by (rule bit_eqI) (auto simp: bit_simps dest: bit_imp_le_length)
  have "(crc_shift ^^ 8) (?z AND NOT (mask 8)) = drop_bit 8 (?z AND NOT (mask 8))"
    by (rule funpow_shift_high) (auto simp: bit_simps)
  also have "\<dots> = drop_bit 8 crc" by (rule bit_eqI) (auto simp: bit_simps dest: bit_imp_le_length)
  finally have "crc_bitwise b crc = crc32_entry (ucast ?i) XOR drop_bit 8 crc"
    unfolding crc_bitwise_def by (subst split) (simp add: funpow_shift_xor crc32_entry_def)
  then show ?thesis by (simp add: crc_step_def table_nth)
qed

lemma crc_shift_inj: "crc_shift x = crc_shift y \<Longrightarrow> x = y"
proof (rule bit_eqI)
  fix n assume e: "crc_shift x = crc_shift y"
  have b: "bit (crc_shift z) k = (bit z (Suc k) \<noteq> (bit z 0 \<and> bit (0xEDB88320 :: u32) k))" for z k
    by (auto simp: crc_shift_bits bit_xor_iff bit_drop_bit_eq)
  have "bit (crc_shift z) 31 = bit z 0" for z
    unfolding b using bit_imp_le_length [of z 32] by auto
  then have "bit x 0 = bit y 0" using e by metis
  then show "bit x n = bit y n" using b [of x] b [of y] e by (cases n) auto
qed

lemma funpow_shift_inj: "(crc_shift ^^ n) x = (crc_shift ^^ n) y \<Longrightarrow> x = y"
  by (induction n) (auto dest: crc_shift_inj)

lemma xor_cancel: "x XOR y = x XOR z \<Longrightarrow> y = (z :: u32)"
  by (rule bit_eqI) (auto simp: bit_eq_iff bit_xor_iff)

lemma crc_step_inj: "crc_step b x = crc_step b y \<Longrightarrow> x = y"
  unfolding crc_step_bitwise crc_bitwise_def
  by (drule funpow_shift_inj) (simp add: xor.commute [of _ "ucast b"] xor_cancel)

lemma crc_step_byte_inj: "crc_step b x = crc_step c x \<Longrightarrow> b = c"
proof -
  assume "crc_step b x = crc_step c x"
  then have "x XOR ucast b = x XOR ucast c"
    unfolding crc_step_bitwise crc_bitwise_def by (rule funpow_shift_inj)
  then have "ucast b = (ucast c :: u32)" by (rule xor_cancel)
  then have e: "bit (ucast b :: u32) n = bit (ucast c :: u32) n" for n by simp
  show "b = c"
  proof (rule bit_eqI)
    fix n assume "possible_bit TYPE(u8) n"
    then show "bit b n = bit c n" using e [of n] by (simp add: bit_simps)
  qed
qed

subsection \<open>Checksums of messages\<close>

lemma crc_loop_fold: "crc_loop mem p n crc = fold (\<lambda>i. crc_step (mem (p + word_of_nat i))) [0..<n] crc"
proof (induction n arbitrary: p crc)
  case (Suc n)
  have "[0..<Suc n] = 0 # map Suc [0..<n]" by (simp add: map_Suc_upt upt_conv_Cons del: upt_Suc)
  then show ?case using Suc by (simp add: fold_map comp_def add.assoc del: upt_Suc)
qed simp

lemma fold_crc_inj: "fold (\<lambda>i. crc_step (f i)) xs x = fold (\<lambda>i. crc_step (f i)) xs y \<Longrightarrow> x = y"
  by (induction xs arbitrary: x y) (auto dest: crc_step_inj)

subsection \<open>Properties\<close>

text \<open>\<^verbatim>\<open>crc32_fill\<close> generates exactly the constant table \<^verbatim>\<open>poly8_lookup\<close>.\<close>

lemma crc32_fill_is_table:
  assumes "length table = 256"
  shows "crc32_fill table = poly8_lookup"
  by (rule fill_table [OF assms])

lemma crc32_fill_is_table_example: "crc32_fill (replicate 256 0) = poly8_lookup"
  by (rule crc32_fill_is_table) simp

text \<open>C25: the table-driven \<^verbatim>\<open>crc32_byte\<close> equals the bitwise checksum: every byte is added to the low end of the
  register, which is then shifted eight times with the reflected polynomial.\<close>

theorem crc32_byte_bitwise:
  "crc32_byte mem p n = NOT (fold (\<lambda>i. crc_bitwise (mem (p + word_of_nat i))) [0..<unat n] 0xffffffff)"
proof -
  have "(0xffffffff :: u32) = - 1" by simp
  then have "x XOR 0xffffffff = NOT x" for x :: u32
    by (simp only:) (rule bit_eqI, simp add: bit_simps)
  then show ?thesis unfolding crc32_byte_def crc_loop_fold crc_step_bitwise by simp
qed

text \<open>C24: changing exactly one byte of a message changes its checksum.\<close>

theorem crc32_detects_byte:
  assumes "i < unat n" and "mem (p + word_of_nat i) \<noteq> mem' (p + word_of_nat i)"
    and "\<forall>j < unat n. j \<noteq> i \<longrightarrow> mem' (p + word_of_nat j) = mem (p + word_of_nat j)"
  shows "crc32_byte mem p n \<noteq> crc32_byte mem' p n"
proof
  let ?f = "\<lambda>m i. crc_step (m (p + word_of_nat i))"
  assume "crc32_byte mem p n = crc32_byte mem' p n"
  then have e: "fold (?f mem) [0..<unat n] 0xffffffff = fold (?f mem') [0..<unat n] 0xffffffff"
    unfolding crc32_byte_def crc_loop_fold by (simp add: xor.commute [of _ "0xffffffff"] xor_cancel)
  have split: "[0..<unat n] = [0..<i] @ i # [Suc i..<unat n]"
    using assms(1) upt_add_eq_append [of 0 i "unat n - i"] by (simp add: upt_conv_Cons)
  have same: "fold (?f mem') xs x = fold (?f mem) xs x" if "set xs \<subseteq> {0..<unat n} - {i}" for xs x
    by (rule fold_cong) (use that assms(3) in \<open>auto simp: subset_iff\<close>)
  let ?x = "fold (?f mem) [0..<i] 0xffffffff"
  have "fold (?f mem) [Suc i..<unat n] (?f mem i ?x) = fold (?f mem) [Suc i..<unat n] (?f mem' i ?x)"
    using e same [of "[0..<i]"] same [of "[Suc i..<unat n]"] assms(1) unfolding split by (simp add: subset_iff)
  then have "?f mem i ?x = ?f mem' i ?x" by (rule fold_crc_inj)
  then show False using crc_step_byte_inj assms(2) by blast
qed

theorem crc32_detects_byte_witness: "crc32_byte (\<lambda>_. 0) 0 4 \<noteq> crc32_byte ((\<lambda>_. 0)(2 := 1)) 0 4"
proof (rule crc32_detects_byte [where i = 2])
  show "\<forall>j < unat (4 :: u32). j \<noteq> 2 \<longrightarrow> ((\<lambda>_. 0)(2 := 1)) (0 + word_of_nat j :: u64) = (0 :: u8)"
  proof (intro allI impI)
    fix j :: nat assume "j < unat (4 :: u32)" "j \<noteq> 2"
    then have "j = 0 \<or> j = 1 \<or> j = 3" by simp arith
    then show "((\<lambda>_. 0)(2 := 1)) (0 + word_of_nat j :: u64) = (0 :: u8)" by auto
  qed
qed simp_all

end
