(* ===== verification/Timer.thy ===== *)
theory Timer
  imports Kernel_Prelude
begin

section \<open>The timer\<close>

text \<open>
  \<^verbatim>\<open>sched/pit.c\<close>: the tick counter, unit conversions, the preemption and wake-up tests. Port writes are returned as a list.
  A busy wait reads the counter through a parameter, since the ticks happen outside the call.
  The lemmas give the period of the preemption test, the rounding of the conversions and when a wait returns.
\<close>

subsection \<open>State\<close>

record pit =
  boot_epoch :: u64
  hertz :: u64
  timer_ticks :: u64
  preemption_ticks :: u64
  preemption_enabled :: bool
  wakeup_handler :: u64
  wakeup_ticks :: u64

subsection \<open>Operations\<close>

text \<open>The three bytes \<^verbatim>\<open>timer_phase\<close> sends to the ports 0x43, 0x40 and 0x40.\<close>

definition timer_phase :: "int \<Rightarrow> (u64 \<times> u8) list res" where
  "timer_phase hz =
     (if hz = 0 then fault
      else let divisor = word_of_int (sgn hz * ((7159090 + 3) div (6 * \<bar>hz\<bar>))) :: u32 in
        ret [(0x43, 0x36), (0x40, ucast (divisor AND 0xFF)), (0x40, ucast (drop_bit 8 divisor AND 0xFF))])"

definition init_pit :: "u64 \<Rightarrow> int \<Rightarrow> pit \<times> (u64 \<times> u8) list res" where
  "init_pit boot_time hz =
     (\<lparr>boot_epoch = boot_time, hertz = word_of_int hz, timer_ticks = 0, preemption_ticks = 0, preemption_enabled = False,
       wakeup_handler = 0, wakeup_ticks = 0\<rparr>, timer_phase hz)"

definition tick :: "pit \<Rightarrow> pit" where
  "tick p = p\<lparr>timer_ticks := timer_ticks p + 1\<rparr>"

text \<open>The handler that \<^verbatim>\<open>wakeup\<close> calls, if any.\<close>

definition wakeup :: "pit \<Rightarrow> u64 option" where
  "wakeup p = (if wakeup_handler p \<noteq> 0 \<and> wakeup_ticks p \<noteq> 0 then Some (wakeup_handler p) else None)"

definition requires_wakeup :: "pit \<Rightarrow> bool" where
  "requires_wakeup p \<longleftrightarrow> wakeup_handler p \<noteq> 0 \<and> wakeup_ticks p \<noteq> 0 \<and> timer_ticks p mod wakeup_ticks p = 0"

definition seconds_to_ticks :: "pit \<Rightarrow> u64 \<Rightarrow> u64" where
  "seconds_to_ticks p seconds = seconds * hertz p"

definition ticks_to_seconds :: "pit \<Rightarrow> u64 \<Rightarrow> u64" where
  "ticks_to_seconds p ticks =
     (if hertz p = 0 then 0 else if ticks = 0 then 0 else if ticks < hertz p then 1 else ticks div hertz p)"

definition ticks_to_ms :: "pit \<Rightarrow> u64 \<Rightarrow> u64" where
  "ticks_to_ms p ticks =
     (if hertz p = 0 then 0 else if ticks = 0 then 0 else if ticks * 1000 < hertz p then 1000 else ticks * 1000 div hertz p)"

definition ms_to_ticks :: "pit \<Rightarrow> u64 \<Rightarrow> u64" where
  "ms_to_ticks p ms = (let cuak = ms * hertz p in if cuak < 1000 then 1 else cuak div 1000)"

definition set_wakeup_call :: "u64 \<Rightarrow> u64 \<Rightarrow> pit \<Rightarrow> pit" where
  "set_wakeup_call handler ticks p =
     (if handler = 0 then p\<lparr>wakeup_handler := 0, wakeup_ticks := 0\<rparr>
      else p\<lparr>wakeup_handler := handler, wakeup_ticks := ticks\<rparr>)"

definition set_preeption_ticks :: "u64 \<Rightarrow> pit \<Rightarrow> pit" where
  "set_preeption_ticks ticks p = p\<lparr>preemption_ticks := ticks\<rparr>"

definition preempt_toggle :: "pit \<Rightarrow> pit" where
  "preempt_toggle p = p\<lparr>preemption_enabled := \<not> preemption_enabled p\<rparr>"

definition requires_preemption :: "pit \<Rightarrow> bool" where
  "requires_preemption p \<longleftrightarrow>
     (if \<not> preemption_enabled p \<or> preemption_ticks p = 0 then False else timer_ticks p mod preemption_ticks p = 0)"

definition enable_preemption :: "pit \<Rightarrow> pit" where
  "enable_preemption p = p\<lparr>preemption_enabled := True\<rparr>"

text \<open>\<open>clock i\<close> is the counter at the i-th test of the loop; the value is the number of yields.\<close>

partial_function (option) sleep_wait :: "(nat \<Rightarrow> u64) \<Rightarrow> u64 \<Rightarrow> u64 \<Rightarrow> nat \<Rightarrow> nat option" where
  "sleep_wait clock start_time ticks i = (if clock i - start_time < ticks then sleep_wait clock start_time ticks (Suc i) else Some i)"

definition sleep_ticks :: "(nat \<Rightarrow> u64) \<Rightarrow> pit \<Rightarrow> u64 \<Rightarrow> nat option" where
  "sleep_ticks clock p ticks = sleep_wait clock (timer_ticks p) ticks 0"

definition sleep :: "(nat \<Rightarrow> u64) \<Rightarrow> pit \<Rightarrow> u64 \<Rightarrow> nat option" where
  "sleep clock p seconds = sleep_ticks clock p (seconds_to_ticks p seconds)"

definition msleep :: "(nat \<Rightarrow> u64) \<Rightarrow> pit \<Rightarrow> u64 \<Rightarrow> nat option" where
  "msleep clock p ms = sleep_ticks clock p (ms_to_ticks p ms)"

definition get_ticks_since_boot :: "pit \<Rightarrow> u64" where
  "get_ticks_since_boot p = timer_ticks p"

definition get_epoch :: "pit \<Rightarrow> u64" where
  "get_epoch p = boot_epoch p + ticks_to_seconds p (timer_ticks p)"

subsection \<open>Conversions and preemption\<close>

text \<open>The preemption test succeeds on every period-th tick and on no other.\<close>

lemma requires_preemption_period:
  assumes "preemption_enabled p" and "0 < unat (preemption_ticks p)" and "unat (timer_ticks p) + n < 2 ^ 64"
  shows "requires_preemption ((tick ^^ n) p) \<longleftrightarrow> unat (preemption_ticks p) dvd unat (timer_ticks p) + n"
proof -
  have t: "(tick ^^ n) p = p\<lparr>timer_ticks := timer_ticks p + word_of_nat n\<rparr>"
    by (induction n) (simp_all add: tick_def add.assoc)
  have "n < 2 ^ 64" using assms(3) by linarith
  then have "unat (timer_ticks p + word_of_nat n) = unat (timer_ticks p) + n"
    using assms(3) by (subst unat_add_small) (simp_all add: unat_of_nat_small)
  then show ?thesis using assms(1,2) t by (simp add: requires_preemption_def word_unat_eq_iff unat_mod dvd_eq_mod_eq_0)
qed

text \<open>Without overflow the conversion to ticks rounds down, but never to 0.\<close>

lemma ms_to_ticks_bounds:
  assumes "unat ms * unat (hertz p) < 2 ^ 64"
  shows "unat (ms_to_ticks p ms) = max 1 (unat ms * unat (hertz p) div 1000)"
proof -
  have m: "unat (ms * hertz p) = unat ms * unat (hertz p)" using assms unat_mult_lem [of ms "hertz p"] by simp
  show ?thesis
  proof (cases "unat ms * unat (hertz p) < 1000")
    case True
    then show ?thesis using m by (simp add: ms_to_ticks_def Let_def word_less_nat_alt)
  next
    case False
    then have "1 \<le> unat ms * unat (hertz p) div 1000" by (simp add: div_greater_zero_iff Suc_le_eq)
    then show ?thesis using False m by (simp add: ms_to_ticks_def Let_def word_less_nat_alt unat_div)
  qed
qed

text \<open>Fewer ticks than a millisecond convert to 1000 milliseconds, more than the next larger count.\<close>

lemma ticks_to_ms_not_monotone:
  assumes "hertz p = 2000"
  shows "ticks_to_ms p 1 = 1000" and "ticks_to_ms p 2 = 1"
  using assms by (simp_all add: ticks_to_ms_def)

lemma sleep_ticks_returns:
  assumes "\<And>j. j < n \<Longrightarrow> clock j - timer_ticks p < ticks" and "\<not> clock n - timer_ticks p < ticks"
  shows "sleep_ticks clock p ticks = Some n"
proof -
  have "sleep_wait clock (timer_ticks p) ticks 0 = Some n" if "0 \<le> n"
    using that
  proof (induction rule: inc_induct)
    case base
    then show ?case using assms(2) by (subst sleep_wait.simps) simp
  next
    case (step m)
    then show ?case using assms(1) by (subst sleep_wait.simps) simp
  qed
  then show ?thesis by (simp add: sleep_ticks_def)
qed

end
