(* ===== verification/Scheduler.thy ===== *)
theory Scheduler
  imports Paging Concurrency Strings Timer
begin

section \<open>The scheduler\<close>

text \<open>
  \<^verbatim>\<open>sched/scheduler.c\<close> with the structures of \<^verbatim>\<open>proc/process.h\<close> and \<^verbatim>\<open>cpus/cpus.h\<close>: the choice of the next task, yielding and blocking,
  the task list, signals, the initial stack and the creation of tasks. Tasks, contexts and signals are stores from addresses to records,
  and the address an allocation returns is an argument. The context switch itself is assembly: \<open>yield\<close> and \<open>go\<close> return the two
  tasks it exchanges, and a signal handler's call is returned in the same way. Messages are omitted.

  The lemmas show that a scheduling decision is a search over one round of the list, so it ends; that it is fair; that the operations keep the
  list and the executing mark consistent; that signals are delivered in their order of arrival; and what the yield inside
  \<^verbatim>\<open>block_task\<close> and the alignment of the initial stack do.
\<close>

subsection \<open>State\<close>

definition KERNEL_TASK :: u8 where "KERNEL_TASK = 0"

definition USER_TASK :: u8 where "USER_TASK = 1"

definition TASK_EXECUTING :: int where "TASK_EXECUTING = 0"

definition TASK_READY :: int where "TASK_READY = 1"

definition TASK_STOPPED :: int where "TASK_STOPPED = 2"

definition TASK_UNINTERRUPTIBLE :: int where "TASK_UNINTERRUPTIBLE = 3"

definition TASK_INTERRUPTIBLE :: int where "TASK_INTERRUPTIBLE = 4"

definition TASK_ZOMBIE :: int where "TASK_ZOMBIE = 5"

definition TASK_CREATED :: int where "TASK_CREATED = 6"

definition TASK_FREE :: int where "TASK_FREE = 7"

definition TASK_IDLE :: int where "TASK_IDLE = 8"

definition SIGKILL :: int where "SIGKILL = 9"

definition TASK_SIGNAL_MAX :: nat where "TASK_SIGNAL_MAX = 32"

definition KERNEL_STACK_SIZE :: u64 where "KERNEL_STACK_SIZE = 0x4000"

definition USER_STACK_SIZE :: u64 where "USER_STACK_SIZE = 0x4000"

lemmas task_states = TASK_EXECUTING_def TASK_READY_def TASK_STOPPED_def TASK_UNINTERRUPTIBLE_def TASK_INTERRUPTIBLE_def
  TASK_ZOMBIE_def TASK_CREATED_def TASK_FREE_def TASK_IDLE_def

record task_signal =
  sg_signal :: int
  sg_data :: u64
  sg_data_size :: u64
  sg_next :: u64

record cpu_context_info =
  ci_stack :: u64
  ci_cs :: u64
  ci_ss :: u64
  ci_thread :: u64

text \<open>The general registers are a list, in the order of the structure: rax, rbx, rcx, rdx, rsi, rdi, rbp, r8 to r15.\<close>

record cpu_context =
  cx_cr3 :: u64
  cx_info :: cpu_context_info
  cx_regs :: "u64 list"
  cx_interrupt_number :: u64
  cx_error_code :: u64
  cx_rip :: u64
  cx_cs :: u64
  cx_rflags :: u64
  cx_rsp :: u64
  cx_ss :: u64

datatype tty_ptr = Regular_tty | Io_tty

record task =
  t_context :: u64
  t_stack_base :: u64
  t_stack_top :: u64
  t_pd :: u64
  t_flags :: u64
  t_cs :: u64
  t_ds :: u64
  t_processor :: int
  t_state :: int
  t_privilege :: u8
  t_sigpending :: int
  t_signal_queue :: u64
  t_signal_handlers :: "u64 list"
  t_alt_stack_base :: u64
  t_alt_stack_top :: u64
  t_nice :: int
  t_mm :: u64
  t_frame :: u64
  t_heap :: u64
  t_sleep_time :: u64
  t_cpu_time :: u64
  t_last_scheduled :: u64
  t_exit_code :: int
  t_exit_signal :: int
  t_pdeath_signal :: int
  t_pid :: "16 word"
  t_ppid :: "16 word"
  t_parent :: u64
  t_uid :: int
  t_gid :: int
  t_regular_tty :: "u8 list"
  t_io_tty :: "u8 list"
  t_tty :: tty_ptr
  t_locks :: int
  t_open_files :: "int list"
  t_entry :: u64
  t_descriptors :: u64
  t_next :: u64
  t_prev :: u64

text \<open>
  The scheduler's globals, the stores its pointers go into, and the registers it loads. \<^verbatim>\<open>sigfree\<close> gives a node back to its
  heap and leaves its bytes, so a freed node stays readable and its address goes to \<open>freed\<close>.
\<close>

record sched =
  irq_disable_counter :: int
  scheduler_ready :: bool
  task_head :: u64
  current_task :: u64
  boot_task :: u64
  tasks :: "u64 \<rightharpoonup> task"
  contexts :: "u64 \<rightharpoonup> cpu_context"
  signals :: "u64 \<rightharpoonup> task_signal"
  freed :: "u64 list"
  sc_mem :: memory
  sc_rflags :: u64
  kernel_gs :: u64
  user_gs :: u64
  tss_rsp :: "u64 list"

definition lock_scheduler :: "sched \<Rightarrow> sched" where
  "lock_scheduler s = s\<lparr>irq_disable_counter := irq_disable_counter s + 1\<rparr>"

definition unlock_scheduler :: "sched \<Rightarrow> sched" where
  "unlock_scheduler s = s\<lparr>irq_disable_counter := irq_disable_counter s - 1\<rparr>"

definition set_task :: "u64 \<Rightarrow> (task \<Rightarrow> task) \<Rightarrow> sched \<Rightarrow> sched res" where
  "set_task p f s = bind_res (modify p f (tasks s)) (\<lambda>ts. ret (s\<lparr>tasks := ts\<rparr>))"

subsection \<open>Choosing the next task\<close>

definition runnable :: "task \<Rightarrow> bool" where
  "runnable t \<longleftrightarrow> t_state t = TASK_READY \<or> t_state t = TASK_EXECUTING"

partial_function (option) schedule_loop :: "(u64 \<rightharpoonup> task) \<Rightarrow> u64 \<Rightarrow> u64 \<Rightarrow> u64 \<Rightarrow> u64 res" where
  "schedule_loop ts head original current =
     bind_res (deref ts current) (\<lambda>c.
       let current = (if t_next c = 0 then head else t_next c) in
       bind_res (deref ts current) (\<lambda>n.
         if runnable n then ret current
         else if current = original then ret 0
         else schedule_loop ts head original current))"

definition schedule :: "sched \<Rightarrow> (sched \<times> u64) res" where
  "schedule s =
     bind_res (schedule_loop (tasks s) (task_head s) (current_task s) (current_task s)) (\<lambda>next_task.
     bind_res (if next_task = 0
       then bind_res (deref (tasks s) (task_head s)) (\<lambda>t.
              if t_state t \<noteq> TASK_IDLE then panic ''Idle task is not valid or at head'' else ret (task_head s))
       else ret next_task) (\<lambda>next_task.
     if next_task = 0 then panic ''No tasks found, not even idle!!!''
     else let prev_task = current_task s in
       bind_res (set_task prev_task (\<lambda>t. if t_state t = TASK_EXECUTING then t\<lparr>t_state := TASK_READY\<rparr> else t) s) (\<lambda>s.
       bind_res (set_task next_task (\<lambda>t. if t_state t = TASK_READY then t\<lparr>t_state := TASK_EXECUTING\<rparr> else t) s) (\<lambda>s.
         ret (s\<lparr>current_task := next_task\<rparr>, prev_task)))))"

subsection \<open>Signals\<close>

text \<open>A handler call: the handler's address and its three arguments.\<close>

type_synonym handler_call = "u64 \<times> int \<times> u64 \<times> u64"

definition sig_free :: "u64 \<Rightarrow> sched \<Rightarrow> sched" where
  "sig_free p s = s\<lparr>freed := freed s @ [p]\<rparr>"

definition handler_of :: "task \<Rightarrow> int \<Rightarrow> u64 res" where
  "handler_of t sig =
     (if 0 \<le> sig \<and> nat sig < length (t_signal_handlers t) then ret (t_signal_handlers t ! nat sig) else fault)"

definition process_signals :: "sched \<Rightarrow> (sched \<times> handler_call option) res" where
  "process_signals s =
     bind_res (deref (tasks s) (current_task s)) (\<lambda>t.
       if t_signal_queue t = 0 then ret (s, None)
       else let current = t_signal_queue t in
         bind_res (deref (signals s) current) (\<lambda>g.
         bind_res (set_task (current_task s) (\<lambda>t. t\<lparr>t_signal_queue := if sg_next g \<noteq> 0 then sg_next g else 0\<rparr>) s) (\<lambda>s.
         bind_res (handler_of t (sg_signal g)) (\<lambda>handler.
           let s = sig_free current s in
           bind_res (deref (signals s) current) (\<lambda>g.
             ret (s, if handler \<noteq> 0 then Some (handler, sg_signal g, sg_data g, sg_data_size g) else None))))))"

definition tss_set_stack :: "u64 \<Rightarrow> nat \<Rightarrow> sched \<Rightarrow> sched" where
  "tss_set_stack stack dpl s = s\<lparr>tss_rsp := (tss_rsp s)[(if dpl = 0 then 0 else dpl - 1) := stack]\<rparr>"

definition enter_task :: "task \<Rightarrow> sched \<Rightarrow> sched" where
  "enter_task t s =
     (if t_privilege t = KERNEL_TASK
      then tss_set_stack (t_alt_stack_top t) 3 (tss_set_stack (t_stack_top t) 0 (s\<lparr>kernel_gs := t_context t\<rparr>))
      else tss_set_stack (t_alt_stack_top t) 0 (tss_set_stack (t_stack_top t) 3 (s\<lparr>user_gs := t_context t\<rparr>)))"

text \<open>
  \<^verbatim>\<open>yield\<close> returns the pair of tasks it switches between, when it does, and the handler call its signal asks for.
  The pending-interrupt register and the tick counter are arguments.
\<close>

definition yield :: "u64 \<Rightarrow> u64 \<Rightarrow> sched \<Rightarrow> (sched \<times> (u64 \<times> u64) option \<times> handler_call option) res" where
  "yield eoi now s =
     (let s = s\<lparr>sc_rflags := cli (sc_rflags s)\<rparr> in
      if irq_disable_counter s \<noteq> 0 \<or> \<not> scheduler_ready s
      then ret (s\<lparr>sc_rflags := sti (sc_rflags s)\<rparr>, None, None)
      else if eoi \<noteq> 0 then panic ''EOI pending''
      else bind_res (set_task (current_task s)
          (\<lambda>t. if t_last_scheduled t \<noteq> 0 then t\<lparr>t_cpu_time := t_cpu_time t + (now - t_last_scheduled t)\<rparr> else t) s) (\<lambda>s.
        bind_res (schedule s) (\<lambda>(s, prev).
        bind_res (set_task (current_task s) (\<lambda>t. t\<lparr>t_last_scheduled := now\<rparr>) s) (\<lambda>s.
        bind_res (process_signals s) (\<lambda>(s, call).
        bind_res (deref (tasks s) (current_task s)) (\<lambda>t.
          ret (enter_task t s, Some (prev, current_task s), call)))))))"

definition block_task :: "u64 \<Rightarrow> u64 \<Rightarrow> int \<Rightarrow> sched \<Rightarrow> (sched \<times> (u64 \<times> u64) option \<times> handler_call option) res" where
  "block_task eoi now reason s =
     bind_res (set_task (current_task s) (\<lambda>t. t\<lparr>t_state := reason\<rparr>) (lock_scheduler s)) (\<lambda>s.
     bind_res (yield eoi now s) (\<lambda>(s, r). ret (unlock_scheduler s, r)))"

definition unblock_task :: "u64 \<Rightarrow> u64 \<Rightarrow> u64 \<Rightarrow> sched \<Rightarrow> (sched \<times> (u64 \<times> u64) option \<times> handler_call option) res" where
  "unblock_task eoi now task s =
     bind_res (set_task task (\<lambda>t. t\<lparr>t_state := TASK_READY\<rparr>) (lock_scheduler s)) (\<lambda>s.
     bind_res (yield eoi now s) (\<lambda>(s, r). ret (unlock_scheduler s, r)))"

subsection \<open>The task list\<close>

definition add_task :: "u64 \<Rightarrow> sched \<Rightarrow> sched res" where
  "add_task task s =
     (let s = lock_scheduler s in
      if task_head s = 0 then ret (unlock_scheduler (s\<lparr>task_head := task\<rparr>))
      else bind_res (seek_last t_next (tasks s) (task_head s)) (\<lambda>current.
        bind_res (set_task current (\<lambda>t. t\<lparr>t_next := task\<rparr>) s) (\<lambda>s.
        bind_res (set_task task (\<lambda>t. t\<lparr>t_prev := current\<rparr>) s) (\<lambda>s.
          ret (unlock_scheduler s)))))"

definition remove_task :: "u64 \<Rightarrow> sched \<Rightarrow> sched res" where
  "remove_task task s =
     (let s = lock_scheduler s in
      bind_res (deref (tasks s) task) (\<lambda>t.
        if t_prev t = 0 then
          let s = s\<lparr>task_head := t_next t\<rparr> in
          if task_head s \<noteq> 0
          then bind_res (set_task (task_head s) (\<lambda>t. t\<lparr>t_prev := 0\<rparr>) s) (\<lambda>s. ret (unlock_scheduler s))
          else ret (unlock_scheduler s)
        else
          bind_res (set_task (t_prev t) (\<lambda>p. p\<lparr>t_next := t_next t\<rparr>) s) (\<lambda>s.
            if t_next t \<noteq> 0
            then bind_res (set_task (t_next t) (\<lambda>n. n\<lparr>t_prev := t_prev t\<rparr>) s) (\<lambda>s. ret (unlock_scheduler s))
            else ret (unlock_scheduler s))))"

partial_function (option) find_next :: "(task \<Rightarrow> bool) \<Rightarrow> (u64 \<rightharpoonup> task) \<Rightarrow> u64 \<Rightarrow> u64 res" where
  "find_next P ts current =
     bind_res (deref ts current) (\<lambda>c.
       if t_next c \<noteq> 0 then bind_res (deref ts (t_next c)) (\<lambda>n.
         if P n then ret (t_next c) else find_next P ts (t_next c))
       else ret 0)"

definition find_task :: "(task \<Rightarrow> bool) \<Rightarrow> sched \<Rightarrow> (sched \<times> u64) res" where
  "find_task P s =
     (let s = lock_scheduler s; current = task_head s in
      if current = 0 then ret (unlock_scheduler s, 0)
      else bind_res (deref (tasks s) current) (\<lambda>t.
        if P t then ret (unlock_scheduler s, current)
        else bind_res (find_next P (tasks s) current) (\<lambda>r. ret (unlock_scheduler s, r))))"

definition get_task :: "16 word \<Rightarrow> sched \<Rightarrow> (sched \<times> u64) res" where
  "get_task pid = find_task (\<lambda>t. t_pid t = pid)"

definition get_status :: "int \<Rightarrow> sched \<Rightarrow> (sched \<times> u64) res" where
  "get_status state = find_task (\<lambda>t. t_state t = state)"

partial_function (option) free_pid_loop :: "16 word \<Rightarrow> sched \<Rightarrow> (sched \<times> 16 word) res" where
  "free_pid_loop pid s =
     bind_res (get_task pid s) (\<lambda>(s, t). if t \<noteq> 0 then free_pid_loop (pid + 1) s else ret (s, pid))"

definition get_free_pid :: "sched \<Rightarrow> (sched \<times> 16 word) res" where
  "get_free_pid s = bind_res (free_pid_loop 1 (lock_scheduler s)) (\<lambda>(s, pid). ret (unlock_scheduler s, pid))"

definition get_current_task :: "sched \<Rightarrow> u64" where
  "get_current_task s = current_task s"

definition exit_task :: "sched \<Rightarrow> sched res" where
  "exit_task s =
     bind_res (set_task (current_task s) (\<lambda>t. t\<lparr>t_exit_code := 0, t_state := TASK_ZOMBIE\<rparr>) (lock_scheduler s)) (\<lambda>s.
       ret (unlock_scheduler s))"

definition kill_task :: "16 word \<Rightarrow> sched \<Rightarrow> sched res" where
  "kill_task pid s =
     bind_res (get_task pid (lock_scheduler s)) (\<lambda>(s, task).
       if task = 0 then ret (unlock_scheduler s)
       else bind_res (set_task task (\<lambda>t. t\<lparr>t_exit_code := 0, t_exit_signal := SIGKILL, t_state := TASK_ZOMBIE\<rparr>) s) (\<lambda>s.
         ret (unlock_scheduler s)))"

definition pause_task :: "u64 \<Rightarrow> sched \<Rightarrow> sched res" where
  "pause_task task s =
     bind_res (set_task task (\<lambda>t. t\<lparr>t_state := TASK_UNINTERRUPTIBLE\<rparr>) (lock_scheduler s)) (\<lambda>s. ret (unlock_scheduler s))"

definition resume_task :: "u64 \<Rightarrow> sched \<Rightarrow> sched res" where
  "resume_task task s =
     bind_res (set_task task (\<lambda>t. t\<lparr>t_state := TASK_READY\<rparr>) (lock_scheduler s)) (\<lambda>s. ret (unlock_scheduler s))"

definition subscribe_signal :: "int \<Rightarrow> u64 \<Rightarrow> sched \<Rightarrow> sched res" where
  "subscribe_signal sig handler s =
     bind_res (deref (tasks s) (current_task s)) (\<lambda>t.
       if 0 \<le> sig \<and> nat sig < length (t_signal_handlers t)
       then bind_res (set_task (current_task s)
           (\<lambda>t. t\<lparr>t_signal_handlers := (t_signal_handlers t)[nat sig := handler]\<rparr>) (lock_scheduler s)) (\<lambda>s.
         ret (unlock_scheduler s))
       else fault)"

text \<open>\<open>p\<close> is the address that \<^verbatim>\<open>sigmalloc\<close> returns.\<close>

definition add_signal :: "u64 \<Rightarrow> 16 word \<Rightarrow> int \<Rightarrow> u64 \<Rightarrow> u64 \<Rightarrow> sched \<Rightarrow> sched res" where
  "add_signal p pid sig data sz s =
     bind_res (get_task pid (lock_scheduler s)) (\<lambda>(s, task).
       if task = 0 then ret (unlock_scheduler s)
       else let s = s\<lparr>signals := (signals s)(p \<mapsto> \<lparr>sg_signal = sig, sg_data = data, sg_data_size = sz, sg_next = 0\<rparr>)\<rparr> in
         bind_res (deref (tasks s) task) (\<lambda>t.
           if t_signal_queue t = 0
           then bind_res (set_task task (\<lambda>t. t\<lparr>t_signal_queue := p\<rparr>) s) (\<lambda>s. ret (unlock_scheduler s))
           else bind_res (seek_last sg_next (signals s) (t_signal_queue t)) (\<lambda>current.
             bind_res (modify current (\<lambda>g. g\<lparr>sg_next := p\<rparr>) (signals s)) (\<lambda>sgs.
               ret (unlock_scheduler (s\<lparr>signals := sgs\<rparr>))))))"

subsection \<open>The initial stack\<close>

definition write_u64 :: "memory \<Rightarrow> u64 \<Rightarrow> u64 \<Rightarrow> memory" where
  "write_u64 mem p v = fold (\<lambda>i m. m(p + word_of_nat i := ucast (drop_bit (8 * i) v))) [0..<8] mem"

definition push_u64 :: "u64 \<Rightarrow> memory \<times> u64 \<Rightarrow> memory \<times> u64" where
  "push_u64 v = (\<lambda>(mem, stack). (write_u64 mem (stack - 8) v, stack - 8))"

definition push_str :: "u64 \<Rightarrow> memory \<times> u64 \<Rightarrow> memory \<times> u64" where
  "push_str str = (\<lambda>(mem, stack).
     let len = strlen mem str in (memcpy mem (stack - len) str len, stack - len))"

lemma mod16_step: "unat ((a :: u64) + 1) mod 16 = Suc (unat a mod 16) mod 16"
proof -
  have "unat (a + 1) = (unat a + 1) mod 2 ^ 64" by (simp add: unat_word_ariths)
  moreover have "(16 :: nat) dvd 2 ^ 64" by simp
  ultimately have "unat (a + 1) mod 16 = (unat a + 1) mod 16" by (simp only: mod_mod_cancel)
  then show ?thesis by (simp add: mod_Suc_eq)
qed

function align_stack :: "memory \<Rightarrow> u64 \<Rightarrow> memory \<times> u64" where
  "align_stack mem stack = (if stack mod 16 \<noteq> 0 then align_stack (mem(stack := 0)) (stack + 1) else (mem, stack))"
  by pat_completeness auto

termination
proof (relation "measure (\<lambda>(mem, stack). (16 - unat stack mod 16) mod 16)")
  fix mem :: memory and stack :: u64
  assume "stack mod 16 \<noteq> 0"
  then have n: "unat stack mod 16 \<noteq> 0" by (simp add: word_unat_eq_iff unat_mod)
  have l: "unat stack mod 16 < 16" by simp
  have "(16 - unat (stack + 1) mod 16) mod 16 < (16 - unat stack mod 16) mod 16"
    using n l by (simp only: mod16_step) (cases "unat stack mod 16 = 15"; simp)
  then show "((mem(stack := 0), stack + 1), mem, stack) \<in> measure (\<lambda>(mem, stack). (16 - unat stack mod 16) mod 16)" by simp
qed simp

declare align_stack.simps [simp del]

text \<open>\<open>envp\<close> and \<open>auxv\<close> are \<open>None\<close> for a null pointer; \<open>envp\<close> lists the pointers before the terminating null.\<close>

definition initialize_stack ::
  "memory \<Rightarrow> u64 \<Rightarrow> int \<Rightarrow> u64 list \<Rightarrow> u64 list option \<Rightarrow> (u64 \<times> u64) list option \<Rightarrow> (memory \<times> u64) res" where
  "initialize_stack mem stack argc argv envp auxv =
     bind_res (case auxv of
         None \<Rightarrow> ret (mem, stack)
       | Some av \<Rightarrow> iter_res (\<lambda>i st. if i < length av then ret (push_u64 (snd (av ! i)) (push_u64 (fst (av ! i)) st)) else fault)
           [0..<5] (mem, stack)) (\<lambda>st.
     let st = fold push_str (rev (case envp of None \<Rightarrow> [] | Some es \<Rightarrow> es)) st;
         st = align_stack (fst st) (snd st)
     in bind_res (iter_res (\<lambda>i st. if i < length argv then ret (push_str (argv ! i) st) else fault) (rev [0..<nat argc]) st) (\<lambda>st.
       ret (push_u64 (word_of_int argc) (align_stack (fst st) (snd st)))))"

subsection \<open>Creating tasks\<close>

text \<open>
  What the calls out of \<^verbatim>\<open>create_task\<close> return: the addresses of the allocations, with the bytes the new structure happens to hold,
  the duplicated page tables, the descriptor of the terminal, the segment selectors, and the assembly routine that lays out the first frame.
\<close>

record task_env =
  te_task :: u64
  te_garbage :: task
  te_context :: u64
  te_syscall_stack :: u64
  te_kstack :: u64
  te_ustack :: u64
  te_alt_stack :: u64
  te_pml4 :: u64
  te_kernel_pml4 :: u64
  te_heap :: u64
  te_tty_device :: bool
  te_tty_fd :: int
  te_kernel_cs :: u64
  te_kernel_ds :: u64
  te_user_cs :: u64
  te_user_ds :: u64
  te_io_tty :: "u8 list"
  te_ctxcreat :: "memory \<Rightarrow> u64 \<Rightarrow> u64 \<Rightarrow> memory \<times> u64"
  te_uctxcreat :: "memory \<Rightarrow> u64 \<Rightarrow> u64 \<Rightarrow> memory \<times> u64"

definition initialize_context ::
  "task_env \<Rightarrow> u64 \<Rightarrow> u64 \<Rightarrow> int \<Rightarrow> u64 list \<Rightarrow> u64 list option \<Rightarrow> (u64 \<times> u64) list option \<Rightarrow> sched \<Rightarrow> sched res" where
  "initialize_context env task init_function argc argv envp auxv s =
     bind_res (deref (tasks s) task) (\<lambda>t.
     bind_res (initialize_stack (sc_mem s) (t_stack_top t) argc argv envp auxv) (\<lambda>(mem, top).
       let (mem, top) = (if t_privilege t = KERNEL_TASK then te_ctxcreat env mem top init_function else te_uctxcreat env mem top init_function);
           info = \<lparr>ci_stack = te_syscall_stack env + KERNEL_STACK_SIZE, ci_cs = t_cs t, ci_ss = t_ds t, ci_thread = 0\<rparr>;
           ctx = \<lparr>cx_cr3 = t_pd t, cx_info = info, cx_regs = [2, 3, 4, 5, 6, 7, 8, 9, 10, 11, 12, 13, 14, 15, 16],
             cx_interrupt_number = 0, cx_error_code = 0, cx_rip = init_function, cx_cs = t_cs t, cx_rflags = 0x202,
             cx_rsp = top, cx_ss = t_ds t\<rparr>
       in set_task task (\<lambda>t. t\<lparr>t_stack_top := top, t_context := te_context env\<rparr>)
            (s\<lparr>sc_mem := mem, contexts := (contexts s)(te_context env \<mapsto> ctx)\<rparr>)))"

definition get_new_pd :: "u64 \<Rightarrow> u64 \<Rightarrow> u8 \<Rightarrow> u64" where
  "get_new_pd pml4 kernel_pml4 privilege = (if privilege = KERNEL_TASK then FROM_KERNEL_MAP pml4 else FROM_KERNEL_MAP kernel_pml4)"

text \<open>\<^verbatim>\<open>strncpy\<close> of a whole string into a field of 32 bytes; a longer one would overwrite the fields behind it.\<close>

definition copy_tty :: "u8 list \<Rightarrow> u8 list \<Rightarrow> u8 list res" where
  "copy_tty name field = (if length name < 32 then ret (name @ 0 # drop (Suc (length name)) field) else fault)"

definition open_tty :: "task_env \<Rightarrow> u8 list option \<Rightarrow> int list" where
  "open_tty env tty =
     (let files = replicate 32 (-1) in
      if tty \<noteq> None \<and> te_tty_device env
      then let files = files[0 := te_tty_fd env] in
        if te_tty_fd env = -1 then files else files[1 := te_tty_fd env, 2 := te_tty_fd env]
      else files)"

definition new_task :: "task_env \<Rightarrow> u8 \<Rightarrow> task" where
  "new_task env privilege = (te_garbage env)\<lparr>t_state := TASK_READY, t_flags := 0, t_sigpending := 0, t_nice := 0,
     t_privilege := privilege, t_mm := 0, t_frame := 0, t_processor := 0, t_cpu_time := 0, t_last_scheduled := 0,
     t_sleep_time := 0, t_exit_code := 0, t_exit_signal := 0, t_pdeath_signal := 0, t_signal_queue := 0,
     t_signal_handlers := replicate TASK_SIGNAL_MAX 0\<rparr>"

definition task_stacks :: "task_env \<Rightarrow> u64 \<Rightarrow> task \<Rightarrow> task" where
  "task_stacks env startup_pd t =
     (if t_privilege t = KERNEL_TASK
      then t\<lparr>t_pd := (if startup_pd = 0 then FROM_KERNEL_MAP (te_pml4 env) else startup_pd),
             t_stack_base := te_kstack env, t_stack_top := te_kstack env + KERNEL_STACK_SIZE,
             t_cs := te_kernel_cs env, t_ds := te_kernel_ds env\<rparr>
      else t\<lparr>t_pd := (if startup_pd = 0 then FROM_KERNEL_MAP (te_kernel_pml4 env) else startup_pd),
             t_heap := te_heap env,
             t_stack_base := te_ustack env, t_stack_top := te_ustack env + USER_STACK_SIZE,
             t_alt_stack_base := te_alt_stack env, t_alt_stack_top := te_alt_stack env + KERNEL_STACK_SIZE,
             t_cs := te_user_cs env, t_ds := te_user_ds env\<rparr>)"

definition create_task ::
  "task_env \<Rightarrow> u64 \<Rightarrow> u8 list option \<Rightarrow> u8 \<Rightarrow> int \<Rightarrow> u64 list \<Rightarrow> u64 list option \<Rightarrow> (u64 \<times> u64) list option \<Rightarrow> u64 \<Rightarrow> sched \<Rightarrow>
   (sched \<times> u64) res" where
  "create_task env init_func tty privilege argc argv envp auxv startup_pd s =
     (let task = te_task env; s = lock_scheduler s; parent = get_current_task s in
      bind_res (if parent = 0 then ret (task, 0) else bind_res (deref (tasks s) parent) (\<lambda>p. ret (parent, t_pid p))) (\<lambda>(parent, ppid).
      bind_res (get_free_pid s) (\<lambda>(s, pid).
        let t = (new_task env privilege)\<lparr>t_ppid := ppid, t_parent := parent, t_pid := pid, t_uid := 0, t_gid := 0, t_locks := 0,
              t_open_files := open_tty env tty, t_entry := init_func, t_heap := 0\<rparr>;
            s = s\<lparr>tasks := (tasks s)(task \<mapsto> task_stacks env startup_pd t)\<rparr>
        in bind_res (initialize_context env task init_func argc argv envp auxv s) (\<lambda>s.
           bind_res (case tty of None \<Rightarrow> fault | Some name \<Rightarrow> copy_tty name (t_regular_tty t)) (\<lambda>regular.
           bind_res (copy_tty (te_io_tty env) (t_io_tty t)) (\<lambda>io.
           bind_res (set_task task (\<lambda>t. t\<lparr>t_regular_tty := regular, t_io_tty := io, t_tty := Regular_tty, t_descriptors := 0,
             t_next := 0, t_prev := 0\<rparr>) s) (\<lambda>s.
             ret (unlock_scheduler s, task))))))))"

definition default_tty :: "u8 list" where
  "default_tty = [100, 101, 102, 97, 117, 108, 116]"

definition init_scheduler :: "task_env \<Rightarrow> u64 \<Rightarrow> sched \<Rightarrow> sched res" where
  "init_scheduler env idle s =
     bind_res (create_task env idle (Some default_tty) KERNEL_TASK 0 [] None None 0 (lock_scheduler s)) (\<lambda>(s, idle_task).
     bind_res (set_task idle_task (\<lambda>t. t\<lparr>t_pid := 0, t_state := TASK_IDLE\<rparr>) s) (\<lambda>s.
     bind_res (add_task idle_task s) (\<lambda>s.
       ret (unlock_scheduler (s\<lparr>current_task := task_head s\<rparr>)))))"

text \<open>\<open>boot\<close> and \<open>ctx\<close> are the addresses of the zeroed structures of the boot task.\<close>

definition zero_context :: cpu_context where
  "zero_context = \<lparr>cx_cr3 = 0, cx_info = \<lparr>ci_stack = 0, ci_cs = 0, ci_ss = 0, ci_thread = 0\<rparr>, cx_regs = replicate 15 0,
     cx_interrupt_number = 0, cx_error_code = 0, cx_rip = 0, cx_cs = 0, cx_rflags = 0, cx_rsp = 0, cx_ss = 0\<rparr>"

definition go :: "u64 \<Rightarrow> u64 \<Rightarrow> u32 \<Rightarrow> pit \<Rightarrow> sched \<Rightarrow> (sched \<times> pit \<times> u64 \<times> u64) res" where
  "go boot ctx preempt p s =
     (if scheduler_ready s then panic ''Scheduler already running''
      else let s = s\<lparr>boot_task := boot, contexts := (contexts s)(ctx \<mapsto> zero_context)\<rparr>;
               p = (if preempt \<noteq> 0 then enable_preemption (set_preeption_ticks (ucast preempt) p) else p)
        in bind_res (schedule s) (\<lambda>(s, _).
           bind_res (deref (tasks s) (current_task s)) (\<lambda>t.
             let s = enter_task t (s\<lparr>kernel_gs := ctx\<rparr>) in
             ret (s\<lparr>scheduler_ready := True\<rparr>, p, boot, current_task s))))"

definition get_current_tty :: "sched \<Rightarrow> u8 list res" where
  "get_current_tty s =
     (if current_task s = 0 then ret default_tty
      else bind_res (deref (tasks s) (current_task s)) (\<lambda>t.
        ret (case t_tty t of Regular_tty \<Rightarrow> t_regular_tty t | Io_tty \<Rightarrow> t_io_tty t)))"

definition set_current_tty :: "u8 list \<Rightarrow> sched \<Rightarrow> sched res" where
  "set_current_tty tty s =
     (let s = lock_scheduler s in
      if current_task s = 0 then ret (unlock_scheduler s)
      else bind_res (copy_tty tty (replicate 32 0)) (\<lambda>field.
        bind_res (set_task (current_task s) (\<lambda>t. t\<lparr>t_regular_tty := field[length tty := 0]\<rparr>) s) (\<lambda>s.
          ret (unlock_scheduler s))))"

definition reset_current_tty :: "sched \<Rightarrow> sched res" where
  "reset_current_tty s =
     (let s = lock_scheduler s in
      if current_task s = 0 then ret (unlock_scheduler s)
      else bind_res (copy_tty default_tty (replicate 32 0)) (\<lambda>field.
        bind_res (set_task (current_task s) (\<lambda>t. t\<lparr>t_regular_tty := field\<rparr>) s) (\<lambda>s.
          ret (unlock_scheduler s))))"

definition returnoexit :: "'a res" where
  "returnoexit = panic ''Returned from a process!''"

definition invstack :: "'a res" where
  "invstack = panic ''Kernel task doesnt have ustack!''"

subsection \<open>The task list as a list\<close>

text \<open>The two linked structures of the scheduler, as instances of the chain interface.\<close>

interpretation task_link: linked_node t_next "\<lambda>p t. t\<lparr>t_next := p\<rparr>"
  by unfold_locales simp

interpretation signal_link: linked_node sg_next "\<lambda>p g. g\<lparr>sg_next := p\<rparr>"
  by unfold_locales simp

fun prevs :: "(u64 \<rightharpoonup> task) \<Rightarrow> u64 \<Rightarrow> u64 list \<Rightarrow> bool" where
  "prevs ts p [] \<longleftrightarrow> True"
| "prevs ts p (a # as) \<longleftrightarrow> map_option t_prev (ts a) = Some p \<and> prevs ts a as"

definition task_list :: "sched \<Rightarrow> u64 list \<Rightarrow> bool" where
  "task_list s as \<longleftrightarrow> chain t_next (tasks s) (task_head s) as \<and> prevs (tasks s) 0 as"

abbreviation task_at :: "sched \<Rightarrow> u64 \<Rightarrow> task" where
  "task_at s a \<equiv> the (tasks s a)"

definition loop_at :: "(u64 \<rightharpoonup> task) \<Rightarrow> u64 \<Rightarrow> u64 \<Rightarrow> u64 \<Rightarrow> u64 res" where
  "loop_at ts head original y = bind_res (deref ts y) (\<lambda>n.
     if runnable n then ret y else if y = original then ret 0 else schedule_loop ts head original y)"

definition first_runnable :: "(u64 \<rightharpoonup> task) \<Rightarrow> u64 list \<Rightarrow> u64 option" where
  "first_runnable ts as = find (\<lambda>a. runnable (the (ts a))) as"

lemma schedule_loop_at:
  "ts x = Some c \<Longrightarrow> schedule_loop ts head original x = loop_at ts head original (if t_next c = 0 then head else t_next c)"
  by (subst schedule_loop.simps) (simp add: loop_at_def Let_def)

lemma loop_at_front:
  assumes "path t_next ts y bs original" "original \<notin> set bs" "original \<noteq> 0" "ts original \<noteq> None"
  shows "loop_at ts head original y = ret (case first_runnable ts (bs @ [original]) of Some a \<Rightarrow> a | None \<Rightarrow> 0)"
  using assms
proof (induction bs arbitrary: y)
  case Nil
  then show ?case by (auto simp: loop_at_def first_runnable_def)
next
  case (Cons b bs)
  then obtain n where n: "y = b" "ts b = Some n" "path t_next ts (t_next n) bs original" "b \<noteq> original" by auto
  have nz: "t_next n \<noteq> 0" using n(3) Cons.prems(3) by (cases bs) auto
  show ?case
  proof (cases "runnable n")
    case True
    then show ?thesis using n by (simp add: loop_at_def first_runnable_def)
  next
    case False
    have "loop_at ts head original y = schedule_loop ts head original b" using n False by (simp add: loop_at_def)
    also have "\<dots> = loop_at ts head original (t_next n)" using schedule_loop_at [of ts b n] n(2) nz by simp
    also have "\<dots> = ret (case first_runnable ts (bs @ [original]) of Some a \<Rightarrow> a | None \<Rightarrow> 0)"
      using n(3) Cons.prems by (intro Cons.IH) auto
    finally show ?thesis using n False by (simp add: first_runnable_def)
  qed
qed

lemma schedule_loop_back:
  assumes "ts x = Some c" "chain t_next ts (t_next c) xs" "original \<notin> set xs"
  shows "schedule_loop ts head original x =
    (case first_runnable ts xs of Some a \<Rightarrow> ret a | None \<Rightarrow> loop_at ts head original head)"
  using assms
proof (induction xs arbitrary: x c)
  case Nil
  then show ?case using schedule_loop_at [of ts x c] Nil by (simp add: first_runnable_def)
next
  case (Cons a xs)
  then obtain n where n: "t_next c = a" "a \<noteq> 0" "ts a = Some n" "chain t_next ts (t_next n) xs" by auto
  have "schedule_loop ts head original x = loop_at ts head original a" using schedule_loop_at [of ts x c] Cons.prems(1) n by simp
  then show ?case using n Cons.IH [OF n(3,4)] Cons.prems(3) by (auto simp: loop_at_def first_runnable_def)
qed

lemma first_runnable_append:
  "first_runnable ts (xs @ ys) = (case first_runnable ts xs of None \<Rightarrow> first_runnable ts ys | Some a \<Rightarrow> Some a)"
  by (induction xs) (simp_all add: first_runnable_def)

lemma schedule_loop_ok:
  assumes "chain t_next ts head (bs @ cur # cs)"
  shows "schedule_loop ts head cur cur = ret (case first_runnable ts (cs @ bs @ [cur]) of Some a \<Rightarrow> a | None \<Rightarrow> 0)"
proof -
  from assms obtain c where c: "path t_next ts head bs cur" "ts cur = Some c" "chain t_next ts (t_next c) cs" "cur \<noteq> 0"
    by (auto simp: path_append)
  have d: "cur \<notin> set bs" "cur \<notin> set cs" using chain_distinct [OF assms] by auto
  show ?thesis
    using schedule_loop_back [OF c(2,3) d(2), of head] loop_at_front [OF c(1) d(1) c(4), of head] c(2)
    by (auto simp: first_runnable_append split: option.splits)
qed

subsection \<open>A scheduling decision\<close>

definition state_after :: "u64 \<Rightarrow> u64 \<Rightarrow> u64 \<Rightarrow> int \<Rightarrow> int" where
  "state_after cur nxt a st =
     (let st = (if a = cur \<and> st = TASK_EXECUTING then TASK_READY else st) in
      if a = nxt \<and> st = TASK_READY then TASK_EXECUTING else st)"

definition tasks_after :: "u64 \<Rightarrow> u64 \<Rightarrow> (u64 \<rightharpoonup> task) \<Rightarrow> (u64 \<rightharpoonup> task)" where
  "tasks_after cur nxt ts = (\<lambda>a. map_option (\<lambda>t. t\<lparr>t_state := state_after cur nxt a (t_state t)\<rparr>) (ts a))"

definition next_of :: "sched \<Rightarrow> u64 list \<Rightarrow> u64" where
  "next_of s order = (case first_runnable (tasks s) order of Some a \<Rightarrow> a | None \<Rightarrow> task_head s)"

lemma first_runnable_in: "first_runnable ts as = Some a \<Longrightarrow> a \<in> set as \<and> runnable (the (ts a))"
  by (auto simp: first_runnable_def find_Some_iff)

lemma schedule_ok:
  assumes chain: "chain t_next (tasks s) (task_head s) (bs @ current_task s # cs)"
    and idle: "t_state (task_at s (task_head s)) = TASK_IDLE"
  shows "schedule s = ret (s\<lparr>tasks := tasks_after (current_task s) (next_of s (cs @ bs @ [current_task s])) (tasks s),
    current_task := next_of s (cs @ bs @ [current_task s])\<rparr>, current_task s)"
proof -
  let ?cur = "current_task s" and ?o = "cs @ bs @ [current_task s]" and ?as = "bs @ current_task s # cs"
  let ?n = "next_of s ?o"
  have dom: "set ?as \<subseteq> dom (tasks s)" using path_dom [OF chain] .
  have head: "task_head s \<in> set ?as" "task_head s \<noteq> 0" using chain by (cases bs; auto)+
  have o: "set ?o = set ?as" by auto
  have n: "?n \<in> set ?as" using head(1) first_runnable_in [of "tasks s" ?o]
    unfolding next_of_def o by (cases "first_runnable (tasks s) ?o") simp_all
  have nz: "?n \<noteq> 0" using path_not_0 [OF chain n] .
  from n dom obtain tn where tn: "tasks s ?n = Some tn" by auto
  from dom obtain tc where tc: "tasks s ?cur = Some tc" by auto
  from dom head obtain th where th: "tasks s (task_head s) = Some th" by auto
  let ?f = "\<lambda>t. if t_state t = TASK_EXECUTING then t\<lparr>t_state := TASK_READY\<rparr> else t"
  let ?g = "\<lambda>t. if t_state t = TASK_READY then t\<lparr>t_state := TASK_EXECUTING\<rparr> else t"
  have "schedule s = bind_res (set_task ?cur ?f s) (\<lambda>s'. bind_res (set_task ?n ?g s') (\<lambda>s''. ret (s''\<lparr>current_task := ?n\<rparr>, ?cur)))"
    using schedule_loop_ok [OF chain] idle th nz head(2) path_not_0 [OF chain] first_runnable_in [of "tasks s" ?o]
    by (auto simp: schedule_def next_of_def Let_def split: option.splits)
  also have "\<dots> = ret (s\<lparr>tasks := tasks_after ?cur ?n (tasks s), current_task := ?n\<rparr>, ?cur)"
  proof -
    have "tasks_after ?cur ?n (tasks s) = (let ts = (tasks s)(?cur \<mapsto> ?f tc) in ts(?n \<mapsto> ?g (the (ts ?n))))"
      using tn tc by (auto simp: tasks_after_def state_after_def Let_def fun_eq_iff task_states map_option_case split: option.splits)
    then show ?thesis using tn tc by (cases "?n = ?cur") (simp_all add: set_task_def Let_def)
  qed
  finally show ?thesis .
qed

lemma prevs_append: "prevs ts p (xs @ ys) \<longleftrightarrow> prevs ts p xs \<and> prevs ts (last (p # xs)) ys"
  by (induction xs arbitrary: p) auto

lemma prevs_cong: "(\<And>a. a \<in> set as \<Longrightarrow> map_option t_prev (ts' a) = map_option t_prev (ts a)) \<Longrightarrow> prevs ts' p as = prevs ts p as"
  by (induction as arbitrary: p) auto

lemma prevs_other [simp]: "a \<notin> set as \<Longrightarrow> prevs (ts(a := v)) p as = prevs ts p as"
  by (rule prevs_cong) auto

lemma task_list_cong:
  assumes "task_head s' = task_head s"
    and "\<And>a. a \<in> set as \<Longrightarrow> map_option t_next (tasks s' a) = map_option t_next (tasks s a) \<and> map_option t_prev (tasks s' a) = map_option t_prev (tasks s a)"
  shows "task_list s' as = task_list s as"
  unfolding task_list_def using assms path_cong [of as t_next "tasks s'" "tasks s" "task_head s" 0] prevs_cong [of as "tasks s'" "tasks s" 0]
  by simp

text \<open>
  Well-formed scheduler states: the tasks form a doubly linked list that starts with the idle task and contains the current task,
  and no other task is marked as executing.
\<close>

definition sched_wf :: "sched \<Rightarrow> u64 list \<Rightarrow> bool" where
  "sched_wf s as \<longleftrightarrow> task_list s as \<and> current_task s \<in> set as \<and> t_state (task_at s (task_head s)) = TASK_IDLE \<and>
     (\<forall>a \<in> set as. t_state (task_at s a) = TASK_EXECUTING \<longrightarrow> a = current_task s)"

lemma wf_chain: "sched_wf s as \<Longrightarrow> chain t_next (tasks s) (task_head s) as"
  by (simp add: sched_wf_def task_list_def)

lemma wf_head: "sched_wf s as \<Longrightarrow> task_head s \<in> set as \<and> task_head s \<noteq> 0 \<and> task_head s = hd as \<and> as \<noteq> []"
  by (cases as) (auto simp: sched_wf_def task_list_def)

lemma wf_dom: "sched_wf s as \<Longrightarrow> a \<in> set as \<Longrightarrow> \<exists>t. tasks s a = Some t"
  using path_dom [OF wf_chain] by blast

lemma lock_wf [simp]: "sched_wf (lock_scheduler s) as = sched_wf s as" "sched_wf (unlock_scheduler s) as = sched_wf s as"
  by (simp_all add: sched_wf_def task_list_def lock_scheduler_def unlock_scheduler_def)

lemma lock_simps [simp]:
  "tasks (lock_scheduler s) = tasks s" "task_head (lock_scheduler s) = task_head s" "current_task (lock_scheduler s) = current_task s"
  "signals (lock_scheduler s) = signals s"
  "tasks (unlock_scheduler s) = tasks s" "task_head (unlock_scheduler s) = task_head s" "current_task (unlock_scheduler s) = current_task s"
  "signals (unlock_scheduler s) = signals s"
  "unlock_scheduler (lock_scheduler s) = s"
  by (simp_all add: lock_scheduler_def unlock_scheduler_def)

lemma unlock_update [simp]:
  "unlock_scheduler ((lock_scheduler s)\<lparr>tasks := ts\<rparr>) = s\<lparr>tasks := ts\<rparr>"
  "unlock_scheduler ((lock_scheduler s)\<lparr>signals := gs\<rparr>) = s\<lparr>signals := gs\<rparr>"
  "unlock_scheduler ((lock_scheduler s)\<lparr>signals := gs, tasks := ts\<rparr>) = s\<lparr>signals := gs, tasks := ts\<rparr>"
  by (simp_all add: lock_scheduler_def unlock_scheduler_def)

lemma tasks_after_wf:
  assumes wf: "sched_wf s as" and n: "nxt \<in> set as"
  shows "sched_wf (s\<lparr>tasks := tasks_after (current_task s) nxt (tasks s), current_task := nxt\<rparr>) as"
proof -
  let ?s = "s\<lparr>tasks := tasks_after (current_task s) nxt (tasks s), current_task := nxt\<rparr>"
  have st: "t_state (task_at ?s a) = state_after (current_task s) nxt a (t_state (task_at s a))" if "a \<in> set as" for a
    using wf_dom [OF wf that] by (auto simp: tasks_after_def)
  have "task_list ?s as = task_list s as"
    by (rule task_list_cong) (simp_all add: tasks_after_def option.map_comp comp_def)
  moreover have "t_state (task_at ?s (task_head s)) = TASK_IDLE"
    using st [of "task_head s"] wf wf_head [OF wf] by (simp add: sched_wf_def state_after_def Let_def task_states)
  moreover have "a = nxt" if a: "a \<in> set as" "t_state (task_at ?s a) = TASK_EXECUTING" for a
  proof (rule ccontr)
    assume ne: "a \<noteq> nxt"
    have e: "state_after (current_task s) nxt a (t_state (task_at s a)) = TASK_EXECUTING" using a(2) st [OF a(1)] by simp
    have "t_state (task_at s a) = TASK_EXECUTING \<and> a \<noteq> current_task s"
      using e ne by (cases "a = current_task s") (simp_all add: state_after_def Let_def task_states split: if_splits)
    then show False using wf a(1) unfolding sched_wf_def by blast
  qed
  ultimately show ?thesis using wf n by (simp add: sched_wf_def)
qed

lemma runnable_after: "tasks s a = Some t \<Longrightarrow> runnable (the (tasks_after cur nxt (tasks s) a)) = runnable t"
  by (auto simp: tasks_after_def runnable_def state_after_def Let_def task_states)

lemma schedule_decision:
  assumes wf: "sched_wf s as" and as: "as = bs @ current_task s # cs"
  shows "\<exists>s'. schedule s = ret (s', current_task s) \<and>
    current_task s' = (case find (\<lambda>a. runnable (task_at s a)) (cs @ bs @ [current_task s]) of Some a \<Rightarrow> a | None \<Rightarrow> task_head s) \<and>
    sched_wf s' as \<and> (\<forall>a \<in> set as. runnable (task_at s' a) = runnable (task_at s a) \<and>
      (t_state (task_at s' a) = TASK_EXECUTING \<longleftrightarrow> runnable (task_at s a) \<and> a = current_task s'))"
proof -
  let ?n = "next_of s (cs @ bs @ [current_task s])"
  let ?s = "s\<lparr>tasks := tasks_after (current_task s) ?n (tasks s), current_task := ?n\<rparr>"
  have c: "chain t_next (tasks s) (task_head s) (bs @ current_task s # cs)" using wf_chain [OF wf] as by simp
  have sched: "schedule s = ret (?s, current_task s)" using wf by (intro schedule_ok [OF c]) (simp add: sched_wf_def)
  have "set (cs @ bs @ [current_task s]) = set as" using as by auto
  then have n: "?n \<in> set as" using first_runnable_in [of "tasks s" "cs @ bs @ [current_task s]"] wf_head [OF wf]
    by (simp add: next_of_def split: option.splits)
  have run: "runnable (task_at ?s a) = runnable (task_at s a)" if "a \<in> set as" for a
    using wf_dom [OF wf that] runnable_after by fastforce
  have wf': "sched_wf ?s as" using tasks_after_wf [OF wf n] .
  have "t_state (task_at ?s a) = TASK_EXECUTING \<longleftrightarrow> runnable (task_at s a) \<and> a = ?n" if a: "a \<in> set as" for a
  proof
    assume e: "t_state (task_at ?s a) = TASK_EXECUTING"
    then have "a = ?n" using wf' a by (simp add: sched_wf_def)
    moreover have "runnable (task_at ?s a)" using e by (simp add: runnable_def)
    ultimately show "runnable (task_at s a) \<and> a = ?n" using run [OF a] by simp
  next
    assume r: "runnable (task_at s a) \<and> a = ?n"
    then show "t_state (task_at ?s a) = TASK_EXECUTING"
      using wf_dom [OF wf a] by (auto simp: tasks_after_def state_after_def runnable_def Let_def task_states)
  qed
  then show ?thesis using sched run wf' by (intro exI [of _ ?s]) (simp add: next_of_def first_runnable_def)
qed

subsection \<open>Fairness\<close>

primrec schedule_n :: "nat \<Rightarrow> sched \<Rightarrow> sched res" where
  "schedule_n 0 s = ret s"
| "schedule_n (Suc n) s = bind_res (schedule s) (\<lambda>(s, _). schedule_n n s)"

lemma schedule_step:
  assumes wf: "sched_wf s as" and i: "i < length as" "as ! i = current_task s"
  shows "\<exists>s'. schedule s = ret (s', current_task s) \<and> sched_wf s' as \<and>
    current_task s' = (case find (\<lambda>a. runnable (task_at s a)) (rotate (Suc i) as) of Some a \<Rightarrow> a | None \<Rightarrow> task_head s) \<and>
    (\<forall>a \<in> set as. runnable (task_at s' a) = runnable (task_at s a) \<and>
      (t_state (task_at s' a) = TASK_EXECUTING \<longleftrightarrow> runnable (task_at s a) \<and> a = current_task s'))"
proof -
  let ?bs = "take i as" and ?cs = "drop (Suc i) as"
  have as: "as = ?bs @ current_task s # ?cs" using i by (metis id_take_nth_drop)
  have "rotate (Suc i) ((?bs @ [current_task s]) @ ?cs) = ?cs @ (?bs @ [current_task s])"
    using rotate_append [of "?bs @ [current_task s]" ?cs] i(1) by (simp add: min_def)
  then have "rotate (Suc i) as = ?cs @ ?bs @ [current_task s]" using as by simp
  then show ?thesis using schedule_decision [OF wf as] by auto
qed

lemma find_first:
  assumes "k < length xs" "P (xs ! k)"
  shows "\<exists>p \<le> k. find P xs = Some (xs ! p) \<and> P (xs ! p)"
  using assms
proof (induction xs arbitrary: k)
  case (Cons x xs)
  show ?case
  proof (cases "P x")
    case False
    then obtain j where j: "k = Suc j" using Cons.prems by (cases k) auto
    then obtain p where "p \<le> j" "find P xs = Some (xs ! p) \<and> P (xs ! p)" using Cons by auto
    then show ?thesis using False j by (intro exI [of _ "Suc p"]) simp
  qed (auto intro: exI [of _ 0])
qed simp

lemma schedule_reaches:
  assumes "sched_wf s as" "i < length as" "as ! i = current_task s" "k < length as" "rotate (Suc i) as ! k = t" "runnable (task_at s t)"
  shows "\<exists>m s'. m \<le> k \<and> schedule_n (Suc m) s = ret s' \<and> current_task s' = t \<and> t_state (task_at s' t) = TASK_EXECUTING"
  using assms
proof (induction k arbitrary: s i rule: less_induct)
  case (less k)
  let ?n = "length as"
  from schedule_step [OF less.prems(1-3)] obtain s' where s': "schedule s = ret (s', current_task s)" "sched_wf s' as"
    "current_task s' = (case find (\<lambda>a. runnable (task_at s a)) (rotate (Suc i) as) of Some a \<Rightarrow> a | None \<Rightarrow> task_head s)"
    "\<forall>a \<in> set as. runnable (task_at s' a) = runnable (task_at s a) \<and>
      (t_state (task_at s' a) = TASK_EXECUTING \<longleftrightarrow> runnable (task_at s a) \<and> a = current_task s')" by blast
  from find_first [of k "rotate (Suc i) as" "\<lambda>a. runnable (task_at s a)"] less.prems(4-6) obtain p where
    p: "p \<le> k" "find (\<lambda>a. runnable (task_at s a)) (rotate (Suc i) as) = Some (rotate (Suc i) as ! p)" by auto
  have cur: "current_task s' = rotate (Suc i) as ! p" using s'(3) p(2) by simp
  have t: "t \<in> set as" using less.prems(4,5) nth_mem [of k "rotate (Suc i) as"] by simp
  show ?case
  proof (cases "p = k")
    case True
    then have "current_task s' = t" using cur less.prems(5) by simp
    then show ?thesis using s'(1,4) t less.prems(6) by (intro exI [of _ 0] exI [of _ s']) simp
  next
    case False
    then have pk: "p < k" using p(1) by simp
    let ?i = "(Suc i + p) mod ?n"
    have n: "0 < ?n" using less.prems(2) by linarith
    have nth: "rotate m as ! j = as ! ((m + j) mod ?n)" if "j < ?n" for m j using that by (simp add: nth_rotate add.commute)
    have c: "as ! ?i = current_task s'" using cur pk less.prems(4) nth [of p "Suc i"] by simp
    have "rotate (Suc ?i) as ! (k - Suc p) = as ! ((Suc ?i + (k - Suc p)) mod ?n)" using less.prems(4) by (intro nth) simp
    also have "(Suc ?i + (k - Suc p)) mod ?n = (Suc i + p + Suc (k - Suc p)) mod ?n"
      using mod_add_left_eq [of "Suc i + p" ?n "Suc (k - Suc p)"] by simp
    also have "Suc i + p + Suc (k - Suc p) = Suc i + k" using pk by simp
    also have "as ! ((Suc i + k) mod ?n) = t" using nth [OF less.prems(4), of "Suc i"] less.prems(5) by simp
    finally have "rotate (Suc ?i) as ! (k - Suc p) = t" .
    moreover have "runnable (task_at s' t)" using s'(4) t less.prems(6) by simp
    moreover have "?i < ?n" "k - Suc p < ?n" "k - Suc p < k" using n pk less.prems(4) by simp_all
    ultimately obtain m s'' where "m \<le> k - Suc p" "schedule_n (Suc m) s' = ret s''" "current_task s'' = t"
      "t_state (task_at s'' t) = TASK_EXECUTING" using less.IH [OF _ s'(2) _ c] by blast
    then show ?thesis using s'(1) pk by (intro exI [of _ "Suc m"] exI [of _ s'']) simp
  qed
qed

subsection \<open>Operations on well-formed states\<close>

lemma wf_executing: "sched_wf s as \<Longrightarrow> b \<in> set as \<Longrightarrow> t_state (task_at s b) = TASK_EXECUTING \<Longrightarrow> b = current_task s"
  unfolding sched_wf_def by blast

lemma sched_wfI:
  assumes "task_list s as" "current_task s \<in> set as" "t_state (task_at s (task_head s)) = TASK_IDLE"
    and "\<And>b. b \<in> set as \<Longrightarrow> t_state (task_at s b) = TASK_EXECUTING \<Longrightarrow> b = current_task s"
  shows "sched_wf s as"
  unfolding sched_wf_def using assms by blast

lemma wf_set_task:
  assumes wf: "sched_wf s as" and t: "tasks s a = Some t"
    and links: "t_next (f t) = t_next t" "t_prev (f t) = t_prev t"
    and st: "t_state (f t) = TASK_EXECUTING \<longrightarrow> a = current_task s" "a = task_head s \<longrightarrow> t_state (f t) = TASK_IDLE"
  shows "set_task a f s = ret (s\<lparr>tasks := (tasks s)(a \<mapsto> f t)\<rparr>)" and "sched_wf (s\<lparr>tasks := (tasks s)(a \<mapsto> f t)\<rparr>) as"
proof -
  show "set_task a f s = ret (s\<lparr>tasks := (tasks s)(a \<mapsto> f t)\<rparr>)" using t by (simp add: set_task_def)
  let ?s = "s\<lparr>tasks := (tasks s)(a \<mapsto> f t)\<rparr>"
  have state: "t_state (task_at ?s b) = (if b = a then t_state (f t) else t_state (task_at s b))" for b by simp
  have "task_list ?s as = task_list s as" by (rule task_list_cong) (simp_all add: t links)
  then have "task_list ?s as" using wf by (simp add: sched_wf_def)
  then show "sched_wf ?s as"
  proof (rule sched_wfI)
    show "t_state (task_at ?s (task_head ?s)) = TASK_IDLE" using st(2) wf unfolding state sched_wf_def by simp
    show "current_task ?s \<in> set as" using wf by (simp add: sched_wf_def)
    show "b = current_task ?s" if "b \<in> set as" "t_state (task_at ?s b) = TASK_EXECUTING" for b
      using that st(1) wf_executing [OF wf that(1)] unfolding state by (cases "b = a") simp_all
  qed
qed

lemma find_next_chain:
  "ts x = Some c \<Longrightarrow> chain t_next ts (t_next c) xs \<Longrightarrow>
    find_next P ts x = ret (case find (\<lambda>a. P (the (ts a))) xs of None \<Rightarrow> 0 | Some a \<Rightarrow> a)"
proof (induction xs arbitrary: x c)
  case Nil
  then show ?case by (subst find_next.simps) simp
next
  case (Cons a xs)
  then obtain n where "t_next c = a" "a \<noteq> 0" "ts a = Some n" "chain t_next ts (t_next n) xs" by auto
  then show ?case using Cons.prems(1) Cons.IH [of a n] by (subst find_next.simps) simp
qed

lemma find_task_ok:
  assumes "task_list s as"
  shows "find_task P s = ret (s, case find (\<lambda>a. P (task_at s a)) as of None \<Rightarrow> 0 | Some a \<Rightarrow> a)"
proof (cases as)
  case Nil
  then show ?thesis using assms by (simp add: find_task_def task_list_def Let_def)
next
  case (Cons a xs)
  then obtain n where n: "task_head s = a" "a \<noteq> 0" "tasks s a = Some n" "chain t_next (tasks s) (t_next n) xs"
    using assms by (auto simp: task_list_def)
  then show ?thesis using Cons find_next_chain [OF n(3,4), of P] by (simp add: find_task_def Let_def)
qed

lemma get_task_ok:
  assumes "sched_wf s as"
  shows "get_task pid s = ret (s, case find (\<lambda>a. t_pid (task_at s a) = pid) as of None \<Rightarrow> 0 | Some a \<Rightarrow> a)"
  using find_task_ok [of s as] assms by (simp add: get_task_def sched_wf_def)

lemma get_task_cases:
  assumes wf: "sched_wf s as"
  obtains "get_task pid s = ret (s, 0)" "\<forall>a \<in> set as. t_pid (task_at s a) \<noteq> pid"
  | a t where "get_task pid s = ret (s, a)" "a \<in> set as" "a \<noteq> 0" "tasks s a = Some t" "t_pid t = pid"
proof (cases "find (\<lambda>a. t_pid (task_at s a) = pid) as")
  case None
  then have "\<forall>a \<in> set as. t_pid (task_at s a) \<noteq> pid" by (simp add: find_None_iff)
  then show ?thesis using get_task_ok [OF wf, of pid] that(1) None by simp
next
  case (Some a)
  then have a: "a \<in> set as" "t_pid (task_at s a) = pid" by (auto simp: find_Some_iff)
  from wf_dom [OF wf a(1)] obtain t where t: "tasks s a = Some t" by blast
  have "a \<noteq> 0" using path_not_0 [OF wf_chain [OF wf] a(1)] .
  then show ?thesis using get_task_ok [OF wf, of pid] that(2) [of a t] a t Some by simp
qed

lemma add_task_ok:
  assumes wf: "sched_wf s as" and t: "tasks s a = Some t" and a: "a \<noteq> 0" "a \<notin> set as" "t_next t = 0" "t_state t \<noteq> TASK_EXECUTING"
  shows "\<exists>s'. add_task a s = ret s' \<and> sched_wf s' (as @ [a]) \<and> current_task s' = current_task s"
proof -
  from wf_head [OF wf] obtain xs z where as: "as = xs @ [z]" and h: "task_head s \<noteq> 0" by (metis append_butlast_last_id)
  from wf_dom [OF wf, of z] as obtain n where n: "tasks s z = Some n" by auto
  have c: "chain t_next (tasks s) (task_head s) (xs @ [z])" using wf_chain [OF wf] as by simp
  have za: "z \<noteq> a" using a as by auto
  let ?ts = "(tasks s)(z \<mapsto> n\<lparr>t_next := a\<rparr>, a \<mapsto> t\<lparr>t_prev := z\<rparr>)"
  have r: "add_task a s = ret (s\<lparr>tasks := ?ts\<rparr>)"
    using seek_last_chain [OF c] h n t za by (simp add: add_task_def set_task_def Let_def)
  have "chain t_next ?ts (task_head s) (xs @ [z, a])"
    using task_link.chain_snoc [OF c n a(1), of "t\<lparr>t_prev := z\<rparr>"] a(2,3) as by simp
  moreover have "prevs ?ts 0 (xs @ [z, a])"
  proof -
    have d: "z \<notin> set xs" "a \<notin> set xs" using chain_distinct [OF c] a(2) as by auto
    then show ?thesis using wf as n za by (auto simp: sched_wf_def task_list_def prevs_append)
  qed
  ultimately have "task_list (s\<lparr>tasks := ?ts\<rparr>) (as @ [a])" using as by (simp add: task_list_def)
  then have "sched_wf (s\<lparr>tasks := ?ts\<rparr>) (as @ [a])"
  proof (rule sched_wfI)
    have st: "t_state (the (?ts b)) = t_state (task_at s b)" for b using n t by simp
    show "current_task (s\<lparr>tasks := ?ts\<rparr>) \<in> set (as @ [a])" using wf by (simp add: sched_wf_def)
    show "t_state (task_at (s\<lparr>tasks := ?ts\<rparr>) (task_head (s\<lparr>tasks := ?ts\<rparr>))) = TASK_IDLE" using wf st by (simp add: sched_wf_def)
    show "b = current_task (s\<lparr>tasks := ?ts\<rparr>)" if "b \<in> set (as @ [a])" "t_state (task_at (s\<lparr>tasks := ?ts\<rparr>) b) = TASK_EXECUTING" for b
      using that st [of b] a(4) t wf_executing [OF wf, of b] by (cases "b = a") simp_all
  qed
  then show ?thesis using r by simp
qed

lemma remove_task_ok:
  assumes wf: "sched_wf s as" and a: "a \<in> set as" "a \<noteq> task_head s" "a \<noteq> current_task s"
  shows "\<exists>s'. remove_task a s = ret s' \<and> sched_wf s' (remove1 a as) \<and> current_task s' = current_task s"
proof -
  from wf_head [OF wf] a obtain xs z ys where as: "as = xs @ z # a # ys"
  proof -
    from a(1) obtain us ys where u: "as = us @ a # ys" by (auto simp: in_set_conv_decomp)
    then have "us \<noteq> []" using wf_head [OF wf] a(2) by (cases us) auto
    then show ?thesis using that [of "butlast us" "last us" ys] u by simp
  qed
  have c: "chain t_next (tasks s) (task_head s) (xs @ z # a # ys)" using wf_chain [OF wf] as by simp
  have d: "distinct (xs @ z # a # ys)" using chain_distinct [OF c] .
  from wf_dom [OF wf] as obtain n t where n: "tasks s z = Some n" and t: "tasks s a = Some t" by (metis in_set_conv_decomp append_Cons append_assoc append_Nil)
  have pv: "prevs (tasks s) 0 (xs @ z # a # ys)" using wf as by (simp add: sched_wf_def task_list_def)
  then have tp: "t_prev t = z" using t by (simp add: prevs_append)
  have z0: "z \<noteq> 0" using path_not_0 [OF c, of z] by simp
  let ?ts = "(tasks s)(z \<mapsto> n\<lparr>t_next := t_next t\<rparr>)"
  have c': "chain t_next ?ts (task_head s) (xs @ z # ys)" using task_link.chain_unlink [OF c n t] .
  have rem: "remove1 a as = xs @ z # ys" using as d by (simp add: remove1_append)
  have st: "t_state (the (?ts b)) = t_state (task_at s b)" for b using n by simp
  have wfI: "sched_wf (s\<lparr>tasks := ts\<rparr>) (xs @ z # ys)" if "chain t_next ts (task_head s) (xs @ z # ys)" "prevs ts 0 (xs @ z # ys)"
    "\<And>b. t_state (the (ts b)) = t_state (task_at s b)" for ts
  proof (rule sched_wfI)
    note st' = that(3)
    show "task_list (s\<lparr>tasks := ts\<rparr>) (xs @ z # ys)" using that by (simp add: task_list_def)
    show "current_task (s\<lparr>tasks := ts\<rparr>) \<in> set (xs @ z # ys)" using wf as a(3) by (auto simp: sched_wf_def)
    show "t_state (task_at (s\<lparr>tasks := ts\<rparr>) (task_head (s\<lparr>tasks := ts\<rparr>))) = TASK_IDLE" using that(3) wf by (simp add: sched_wf_def)
    show "b = current_task (s\<lparr>tasks := ts\<rparr>)" if b: "b \<in> set (xs @ z # ys)" "t_state (task_at (s\<lparr>tasks := ts\<rparr>) b) = TASK_EXECUTING" for b
      using wf_executing [OF wf, of b] b as st' [of b] by auto
  qed
  show ?thesis
  proof (cases ys)
    case Nil
    then have "t_next t = 0" using c t by (auto simp: path_append)
    then have "remove_task a s = ret (s\<lparr>tasks := ?ts\<rparr>)" using t n tp z0 by (simp add: remove_task_def set_task_def Let_def)
    moreover have "prevs ?ts 0 (xs @ z # ys)" using pv n d Nil by (auto simp: prevs_append)
    ultimately show ?thesis using wfI [of ?ts] c' st rem by auto
  next
    case (Cons y ys')
    then have y: "t_next t = y" "y \<noteq> 0" using c t by (auto simp: path_append)
    from wf_dom [OF wf, of y] as Cons obtain m where m: "tasks s y = Some m" by auto
    have yz: "y \<noteq> z" "y \<notin> set xs" "y \<notin> set ys'" "z \<notin> set xs" "z \<notin> set ys'" using d Cons by auto
    let ?ts' = "?ts(y \<mapsto> m\<lparr>t_prev := z\<rparr>)"
    have "remove_task a s = ret (s\<lparr>tasks := ?ts'\<rparr>)" using t n tp z0 y m yz by (simp add: remove_task_def set_task_def Let_def)
    moreover have "chain t_next ?ts' (task_head s) (xs @ z # ys)"
      using c' m yz(1) path_cong [of "xs @ z # ys" t_next ?ts' ?ts "task_head s" 0] by auto
    moreover have "prevs ?ts' 0 (xs @ z # ys)" using pv n m yz Cons by (auto simp: prevs_append)
    moreover have "t_state (the (?ts' b)) = t_state (task_at s b)" for b using n m by simp
    ultimately show ?thesis using wfI [of ?ts'] rem by auto
  qed
qed

subsection \<open>Steps\<close>

text \<open>
  Steps of the scheduler: every operation of \<^verbatim>\<open>scheduler.c\<close> that writes the task list, a task or the current task. The operations that
  take a target have the conditions under which their callers may use them: the state of the idle task is never changed, the
  task that runs and the idle task are not removed, the task that \<^verbatim>\<open>create_task\<close> allocates is not a task of the list, and a
  task that is added is as \<^verbatim>\<open>create_task\<close> returns it and not in the list yet.
\<close>

definition in_list :: "u64 \<Rightarrow> sched \<Rightarrow> bool" where
  "in_list a s \<longleftrightarrow> (\<exists>as. task_list s as \<and> a \<in> set as)"

inductive sched_step :: "sched \<Rightarrow> sched \<Rightarrow> bool" where
  step_schedule: "schedule s = ret (s', prev) \<Longrightarrow> sched_step s s'"
| step_yield: "yield eoi now s = ret (s', r) \<Longrightarrow> sched_step s s'"
| step_signals: "process_signals s = ret (s', call) \<Longrightarrow> sched_step s s'"
| step_go: "go boot ctx preempt p s = ret (s', r) \<Longrightarrow> sched_step s s'"
| step_block: "block_task eoi now reason s = ret (s', r) \<Longrightarrow> current_task s \<noteq> task_head s \<Longrightarrow> sched_step s s'"
| step_unblock: "unblock_task eoi now a s = ret (s', r) \<Longrightarrow> a \<noteq> task_head s \<Longrightarrow> sched_step s s'"
| step_pause: "pause_task a s = ret s' \<Longrightarrow> a \<noteq> task_head s \<Longrightarrow> sched_step s s'"
| step_resume: "resume_task a s = ret s' \<Longrightarrow> a \<noteq> task_head s \<Longrightarrow> sched_step s s'"
| step_exit: "exit_task s = ret s' \<Longrightarrow> current_task s \<noteq> task_head s \<Longrightarrow> sched_step s s'"
| step_kill: "kill_task pid s = ret s' \<Longrightarrow> get_task pid s \<noteq> ret (s, task_head s) \<Longrightarrow> sched_step s s'"
| step_create: "create_task env init_func tty privilege argc argv envp auxv pd s = ret (s', a) \<Longrightarrow> \<not> in_list (te_task env) s \<Longrightarrow>
    sched_step s s'"
| step_add: "add_task a s = ret s' \<Longrightarrow> a \<noteq> 0 \<Longrightarrow> tasks s a = Some t \<Longrightarrow> t_next t = 0 \<Longrightarrow> t_state t \<noteq> TASK_EXECUTING \<Longrightarrow>
    \<not> in_list a s \<Longrightarrow> sched_step s s'"
| step_remove: "remove_task a s = ret s' \<Longrightarrow> in_list a s \<Longrightarrow> a \<noteq> task_head s \<Longrightarrow> a \<noteq> current_task s \<Longrightarrow> sched_step s s'"
| step_subscribe: "subscribe_signal sig handler s = ret s' \<Longrightarrow> sched_step s s'"
| step_signal: "add_signal p pid sig data sz s = ret s' \<Longrightarrow> sched_step s s'"
| step_set_tty: "set_current_tty tty s = ret s' \<Longrightarrow> sched_step s s'"
| step_reset_tty: "reset_current_tty s = ret s' \<Longrightarrow> sched_step s s'"

inductive_cases sched_stepE: "sched_step s s'"

lemma set_task_dom: "set_task a f s = ret s' \<Longrightarrow> \<exists>t. tasks s a = Some t"
  by (auto simp: set_task_def bind_res_eq_ret modify_eq_ret)

lemma wf_frame:
  "tasks s' = tasks s \<Longrightarrow> task_head s' = task_head s \<Longrightarrow> current_task s' = current_task s \<Longrightarrow> sched_wf s' as = sched_wf s as"
  by (simp add: sched_wf_def task_list_def)

lemma in_list_wf: "sched_wf s as \<Longrightarrow> in_list a s \<longleftrightarrow> a \<in> set as"
  unfolding in_list_def sched_wf_def task_list_def using chain_unique by metis

lemma set_task_wf:
  assumes wf: "sched_wf s as" and r: "set_task a f s = ret s'"
    and f: "\<And>t. t_next (f t) = t_next t" "\<And>t. t_prev (f t) = t_prev t" "\<And>t. t_state (f t) = t_state t \<or> a \<noteq> task_head s \<and> (t_state (f t) \<noteq> TASK_EXECUTING \<or> a = current_task s)"
  shows "sched_wf s' as \<and> task_head s' = task_head s \<and> current_task s' = current_task s"
proof -
  from r obtain t where t: "tasks s a = Some t" by (auto dest: set_task_dom)
  from r t have s': "s' = s\<lparr>tasks := (tasks s)(a \<mapsto> f t)\<rparr>" by (simp add: set_task_def)
  show ?thesis
  proof (cases "a \<in> set as")
    case True
    have e: "t_state (f t) = TASK_EXECUTING \<longrightarrow> a = current_task s" using f(3) [of t] wf_executing [OF wf True] t by auto
    have i: "a = task_head s \<longrightarrow> t_state (f t) = TASK_IDLE" using f(3) [of t] wf t by (auto simp: sched_wf_def)
    show ?thesis using wf_set_task(2) [where f = f, OF wf t f(1) f(2) e i] s' by simp
  next
    case False
    have "task_list s' as = task_list s as" by (rule task_list_cong) (use False s' in auto)
    moreover have "task_head s \<in> set as" using wf_head [OF wf] by blast
    then have "task_head s \<noteq> a" using False by blast
    moreover have "task_at s' b = task_at s b" if "b \<in> set as" for b using that False s' by auto
    ultimately show ?thesis using wf s' by (simp add: sched_wf_def)
  qed
qed

lemma schedule_wf:
  assumes "sched_wf s as" and "schedule s = ret (s', prev)"
  shows "sched_wf s' as \<and> task_head s' = task_head s"
proof -
  from assms(1) obtain bs cs where as: "as = bs @ current_task s # cs" by (auto simp: sched_wf_def in_set_conv_decomp)
  have "sched_wf s' as" using schedule_decision [OF assms(1) as] assms(2) by auto
  then show ?thesis using wf_head [OF assms(1)] wf_head by metis
qed

lemma process_signals_wf:
  assumes wf: "sched_wf s as" and r: "process_signals s = ret (s', call)"
  shows "sched_wf s' as \<and> task_head s' = task_head s"
proof (cases "t_signal_queue (task_at s (current_task s)) = 0")
  case True
  with wf r show ?thesis by (auto simp: process_signals_def bind_res_eq_ret deref_eq_ret)
next
  case False
  with r obtain g :: task_signal and s1 where s1: "set_task (current_task s) (\<lambda>t. t\<lparr>t_signal_queue := if sg_next g \<noteq> 0 then sg_next g else 0\<rparr>) s = ret s1"
    and s': "s' = s1\<lparr>freed := freed s1 @ [t_signal_queue (task_at s (current_task s))]\<rparr>"
    by (auto simp: process_signals_def sig_free_def bind_res_eq_ret deref_eq_ret Let_def)
  have "sched_wf s1 as \<and> task_head s1 = task_head s" using set_task_wf [OF wf s1] by simp
  then show ?thesis using s' wf_frame [of s' s1] by simp
qed

lemma enter_task_wf: "sched_wf (enter_task t s) as = sched_wf s as"
  by (rule wf_frame) (simp_all add: enter_task_def tss_set_stack_def)

lemma yield_wf:
  assumes wf: "sched_wf s as" and r: "yield eoi now s = ret (s', x)"
  shows "sched_wf s' as"
proof (cases "irq_disable_counter s \<noteq> 0 \<or> \<not> scheduler_ready s")
  case True
  then show ?thesis using r wf wf_frame [of s' s] by (auto simp: yield_def Let_def)
next
  case False
  let ?s = "s\<lparr>sc_rflags := cli (sc_rflags s)\<rparr>"
  have w: "sched_wf ?s as" using wf by (subst wf_frame [of _ s]) simp_all
  from False r obtain s1 s2 prev s3 s4 call t where
    c: "set_task (current_task ?s) (\<lambda>t. if t_last_scheduled t \<noteq> 0 then t\<lparr>t_cpu_time := t_cpu_time t + (now - t_last_scheduled t)\<rparr> else t) ?s = ret s1"
    "schedule s1 = ret (s2, prev)" "set_task (current_task s2) (\<lambda>t. t\<lparr>t_last_scheduled := now\<rparr>) s2 = ret s3"
    "process_signals s3 = ret (s4, call)" "s' = enter_task t s4"
    by (auto simp: yield_def Let_def bind_res_eq_ret split: if_splits)
  have "sched_wf s1 as" using set_task_wf [OF w c(1)] by simp
  then have "sched_wf s2 as" using schedule_wf c(2) by blast
  then have "sched_wf s3 as" using set_task_wf [OF _ c(3)] by simp
  then have "sched_wf s4 as" using process_signals_wf c(4) by blast
  then show ?thesis using c(5) by (simp add: enter_task_wf)
qed

lemma go_wf:
  assumes wf: "sched_wf s as" and r: "go boot ctx preempt p s = ret (s', x)"
  shows "sched_wf s' as"
proof -
  let ?s = "s\<lparr>boot_task := boot, contexts := (contexts s)(ctx \<mapsto> zero_context)\<rparr>"
  have w: "sched_wf ?s as" using wf by (subst wf_frame [of _ s]) simp_all
  from r obtain s1 prev t where s1: "schedule ?s = ret (s1, prev)" and s': "s' = (enter_task t (s1\<lparr>kernel_gs := ctx\<rparr>))\<lparr>scheduler_ready := True\<rparr>"
    by (auto simp: go_def Let_def bind_res_eq_ret split: if_splits)
  have "sched_wf s1 as" using schedule_wf [OF w s1] by blast
  moreover have "sched_wf s' as = sched_wf (enter_task t (s1\<lparr>kernel_gs := ctx\<rparr>)) as" using s' by (intro wf_frame) simp_all
  moreover have "sched_wf (s1\<lparr>kernel_gs := ctx\<rparr>) as = sched_wf s1 as" by (rule wf_frame) simp_all
  ultimately show ?thesis by (simp add: enter_task_wf)
qed

lemma locked_wf:
  assumes wf: "sched_wf s as" and r: "bind_res (set_task a f (lock_scheduler s)) (\<lambda>s. ret (unlock_scheduler s)) = ret s'"
    and f: "\<And>t. t_next (f t) = t_next t" "\<And>t. t_prev (f t) = t_prev t" "\<And>t. t_state (f t) = t_state t \<or> a \<noteq> task_head s \<and> (t_state (f t) \<noteq> TASK_EXECUTING \<or> a = current_task s)"
  shows "sched_wf s' as"
proof -
  have w: "sched_wf (lock_scheduler s) as" using wf by simp
  from r obtain s1 where s1: "set_task a f (lock_scheduler s) = ret s1" and s': "s' = unlock_scheduler s1" by (auto simp: bind_res_eq_ret)
  have "sched_wf s1 as" using set_task_wf [where f = f, OF w s1 f(1) f(2)] f(3) by simp
  then show ?thesis using s' by simp
qed

lemma locked_yield_wf:
  assumes wf: "sched_wf s as" and r: "bind_res (set_task a f (lock_scheduler s)) (\<lambda>s. bind_res (yield eoi now s) (\<lambda>(s, r). ret (unlock_scheduler s, r))) = ret (s', x)"
    and f: "\<And>t. t_next (f t) = t_next t" "\<And>t. t_prev (f t) = t_prev t" "\<And>t. t_state (f t) = t_state t \<or> a \<noteq> task_head s \<and> (t_state (f t) \<noteq> TASK_EXECUTING \<or> a = current_task s)"
  shows "sched_wf s' as"
proof -
  have w: "sched_wf (lock_scheduler s) as" using wf by simp
  from r obtain s1 s2 y where s1: "set_task a f (lock_scheduler s) = ret s1" and s2: "yield eoi now s1 = ret (s2, y)" and s': "s' = unlock_scheduler s2"
    by (auto simp: bind_res_eq_ret)
  have "sched_wf s1 as" using set_task_wf [where f = f, OF w s1 f(1) f(2)] f(3) by simp
  then have "sched_wf s2 as" using yield_wf s2 by blast
  then show ?thesis using s' by simp
qed

lemma free_pid_loop_state:
  assumes "free_pid_loop pid s = Some (Inr (s', q))" and "sched_wf s as"
  shows "s' = s"
proof -
  have "\<forall>s' q. r = Inr (s', q) \<longrightarrow> sched_wf s as \<longrightarrow> s' = s" if "free_pid_loop pid s = Some r" for r
  proof (rule free_pid_loop.raw_induct [where P = "\<lambda>pid s r. \<forall>s' q. r = Inr (s', q) \<longrightarrow> sched_wf s as \<longrightarrow> s' = s", OF _ that], intro allI impI)
    fix f pid s r s' q
    assume IH: "\<And>pid s r. f pid s = Some r \<Longrightarrow> \<forall>s' q. r = Inr (s', q) \<longrightarrow> sched_wf s as \<longrightarrow> s' = s"
      and r: "bind_res (get_task pid s) (\<lambda>(s, t). if t \<noteq> 0 then f (pid + 1) s else ret (s, pid)) = Some r"
      and e: "r = Inr (s', q)" and wf: "sched_wf s as"
    from get_task_ok [OF wf, of pid] obtain t where t: "get_task pid s = ret (s, t)" by blast
    show "s' = s" using r e t IH [of "pid + 1" s r] wf by (cases "t = 0") simp_all
  qed
  with assms show ?thesis by blast
qed

lemma get_free_pid_state:
  assumes "get_free_pid s = ret (s', pid)" and "sched_wf s as"
  shows "s' = s"
proof -
  from assms(1) obtain s1 where "free_pid_loop 1 (lock_scheduler s) = ret (s1, pid)" and s': "s' = unlock_scheduler s1"
    by (auto simp: get_free_pid_def bind_res_eq_ret)
  then have "s1 = lock_scheduler s" using free_pid_loop_state [of 1 "lock_scheduler s" s1 pid as] assms(2) by simp
  then show ?thesis using s' by simp
qed

lemma wf_new_task:
  assumes "sched_wf s as" and "a \<notin> set as"
  shows "sched_wf (s\<lparr>tasks := (tasks s)(a := v)\<rparr>) as"
proof -
  have "task_list (s\<lparr>tasks := (tasks s)(a := v)\<rparr>) as = task_list s as" by (rule task_list_cong) (use assms(2) in auto)
  moreover have "task_head s \<in> set as" using wf_head [OF assms(1)] by blast
  then have "task_head s \<noteq> a" using assms(2) by blast
  moreover have "the (((tasks s)(a := v)) b) = task_at s b" if "b \<in> set as" for b using that assms(2) by auto
  ultimately show ?thesis using assms(1) by (simp add: sched_wf_def)
qed

lemma initialize_context_wf:
  assumes "sched_wf s as" and "initialize_context env task init_function argc argv envp auxv s = ret s'"
  shows "sched_wf s' as"
proof -
  from assms(2) obtain mem cs top where s': "set_task task (\<lambda>t. t\<lparr>t_stack_top := top, t_context := te_context env\<rparr>) (s\<lparr>sc_mem := mem, contexts := cs\<rparr>) = ret s'"
    by (auto simp: initialize_context_def bind_res_eq_ret Let_def case_prod_beta)
  have "sched_wf (s\<lparr>sc_mem := mem, contexts := cs\<rparr>) as" using assms(1) by (subst wf_frame [of _ s]) simp_all
  from set_task_wf [OF this s'] show ?thesis by simp
qed

lemma create_task_wf:
  assumes wf: "sched_wf s as" and a: "te_task env \<notin> set as"
    and r: "create_task env init_func tty privilege argc argv envp auxv pd s = ret (s', b)"
  shows "sched_wf s' as"
proof -
  from r obtain pid s1 t s2 s3 regular io where g: "get_free_pid (lock_scheduler s) = ret (s1, pid)"
    and c: "initialize_context env (te_task env) init_func argc argv envp auxv (s1\<lparr>tasks := (tasks s1)(te_task env \<mapsto> t)\<rparr>) = ret s2"
    and d: "set_task (te_task env) (\<lambda>t. t\<lparr>t_regular_tty := regular, t_io_tty := io, t_tty := Regular_tty, t_descriptors := 0,
             t_next := 0, t_prev := 0\<rparr>) s2 = ret s3" and s': "s' = unlock_scheduler s3"
    unfolding create_task_def Let_def by (auto simp: bind_res_eq_ret split: prod.splits)
  have w: "sched_wf (lock_scheduler s) as" using wf by simp
  have "s1 = lock_scheduler s" using get_free_pid_state [OF g w] .
  then have "sched_wf (s1\<lparr>tasks := (tasks s1)(te_task env \<mapsto> t)\<rparr>) as" using wf_new_task [OF w a] by simp
  then have w2: "sched_wf s2 as" using initialize_context_wf c by blast
  from d obtain v where "s3 = s2\<lparr>tasks := (tasks s2)(te_task env \<mapsto> v)\<rparr>" by (auto simp: set_task_def bind_res_eq_ret modify_eq_ret)
  then show ?thesis using wf_new_task [OF w2 a] s' by simp
qed

lemma subscribe_signal_wf:
  assumes "sched_wf s as" and "subscribe_signal sig handler s = ret s'"
  shows "sched_wf s' as"
proof -
  from assms(2) have "bind_res (set_task (current_task s) (\<lambda>t. t\<lparr>t_signal_handlers := (t_signal_handlers t)[nat sig := handler]\<rparr>) (lock_scheduler s))
      (\<lambda>s. ret (unlock_scheduler s)) = ret s'" by (auto simp: subscribe_signal_def bind_res_eq_ret split: if_splits)
  from locked_wf [OF assms(1) this] show ?thesis by simp
qed

lemma add_signal_wf:
  assumes wf: "sched_wf s as" and r: "add_signal p pid sig data sz s = ret s'"
  shows "sched_wf s' as"
proof -
  have w: "sched_wf (lock_scheduler s) as" using wf by simp
  from get_task_ok [OF w, of pid] obtain a where a: "get_task pid (lock_scheduler s) = ret (lock_scheduler s, a)" by blast
  let ?s = "(lock_scheduler s)\<lparr>signals := (signals s)(p \<mapsto> \<lparr>sg_signal = sig, sg_data = data, sg_data_size = sz, sg_next = 0\<rparr>)\<rparr>"
  have ws: "sched_wf (?s\<lparr>signals := gs\<rparr>) as" for gs using w by (subst wf_frame [of _ "lock_scheduler s"]) simp_all
  have w0: "sched_wf ?s as" using w by (subst wf_frame [of _ "lock_scheduler s"]) simp_all
  consider "s' = unlock_scheduler (lock_scheduler s)"
    | s1 where "set_task a (\<lambda>t. t\<lparr>t_signal_queue := p\<rparr>) ?s = ret s1" "s' = unlock_scheduler s1"
    | gs where "s' = unlock_scheduler (?s\<lparr>signals := gs\<rparr>)"
    using r a by (auto simp: add_signal_def bind_res_eq_ret Let_def split: if_splits)
  then show ?thesis
  proof cases
    case 1
    then show ?thesis using wf by simp
  next
    case (2 s1)
    then show ?thesis using set_task_wf [OF w0 2(1)] by simp
  next
    case (3 gs)
    then show ?thesis using ws [of gs] by (simp only: lock_wf(2))
  qed
qed

lemma current_tty_wf:
  assumes wf: "sched_wf s as"
  shows "set_current_tty tty s = ret s' \<Longrightarrow> sched_wf s' as" and "reset_current_tty s = ret s' \<Longrightarrow> sched_wf s' as"
proof -
  have "current_task s \<in> set as" using wf by (simp add: sched_wf_def)
  then have c: "current_task s \<noteq> 0" using path_not_0 [OF wf_chain [OF wf]] by blast
  show "sched_wf s' as" if r: "set_current_tty tty s = ret s'"
  proof -
    from r c obtain field where "bind_res (set_task (current_task s) (\<lambda>t. t\<lparr>t_regular_tty := field[length tty := 0]\<rparr>) (lock_scheduler s))
      (\<lambda>s. ret (unlock_scheduler s)) = ret s'" by (auto simp: set_current_tty_def bind_res_eq_ret Let_def)
    from locked_wf [OF wf this] show ?thesis by simp
  qed
  show "sched_wf s' as" if r: "reset_current_tty s = ret s'"
  proof -
    from r c obtain field where "bind_res (set_task (current_task s) (\<lambda>t. t\<lparr>t_regular_tty := field\<rparr>) (lock_scheduler s))
      (\<lambda>s. ret (unlock_scheduler s)) = ret s'" by (auto simp: reset_current_tty_def bind_res_eq_ret Let_def)
    from locked_wf [OF wf this] show ?thesis by simp
  qed
qed

lemma kill_task_wf:
  assumes wf: "sched_wf s as" and r: "kill_task pid s = ret s'" and h: "get_task pid s \<noteq> ret (s, task_head s)"
  shows "sched_wf s' as"
proof -
  have wfl: "sched_wf (lock_scheduler s) as" using wf by simp
  show ?thesis
  proof (cases rule: get_task_cases [OF wfl, of pid])
    case 1
    then have "kill_task pid s = ret s" by (simp add: kill_task_def)
    then show ?thesis using r wf by simp
  next
    case (2 a t)
    have "get_task pid s = ret (s, a)" using get_task_ok [OF wf, of pid] get_task_ok [OF wfl, of pid] 2(1) by simp
    then have "a \<noteq> task_head s" using h by auto
    moreover have k: "bind_res (set_task a (\<lambda>t. t\<lparr>t_exit_code := 0, t_exit_signal := SIGKILL, t_state := TASK_ZOMBIE\<rparr>) (lock_scheduler s))
        (\<lambda>s. ret (unlock_scheduler s)) = ret s'" using r 2 by (simp add: kill_task_def)
    ultimately show ?thesis by (intro locked_wf [OF wf k]) (simp_all add: task_states)
  qed
qed

lemma sched_step_wf:
  assumes "sched_step s s'" and wf: "sched_wf s as"
  shows "\<exists>as'. sched_wf s' as'"
  using assms(1)
proof (cases rule: sched_step.cases)
  case (step_schedule prev)
  then show ?thesis using schedule_wf [OF wf] by blast
next
  case (step_yield eoi now r)
  then show ?thesis using yield_wf [OF wf] by blast
next
  case (step_signals call)
  then show ?thesis using process_signals_wf [OF wf] by blast
next
  case (step_go boot ctx preempt p r)
  then show ?thesis using go_wf [OF wf] by blast
next
  case (step_block eoi now reason r)
  have "sched_wf s' as" by (rule locked_yield_wf [OF wf step_block(1) [unfolded block_task_def]]) (simp_all add: step_block(2))
  then show ?thesis ..
next
  case (step_unblock eoi now a r)
  have "sched_wf s' as" by (rule locked_yield_wf [OF wf step_unblock(1) [unfolded unblock_task_def]]) (simp_all add: step_unblock(2) task_states)
  then show ?thesis ..
next
  case (step_pause a)
  have "sched_wf s' as" by (rule locked_wf [OF wf step_pause(1) [unfolded pause_task_def]]) (simp_all add: step_pause(2) task_states)
  then show ?thesis ..
next
  case (step_resume a)
  have "sched_wf s' as" by (rule locked_wf [OF wf step_resume(1) [unfolded resume_task_def]]) (simp_all add: step_resume(2) task_states)
  then show ?thesis ..
next
  case step_exit
  have "sched_wf s' as" by (rule locked_wf [OF wf step_exit(1) [unfolded exit_task_def]]) (simp_all add: step_exit(2) task_states)
  then show ?thesis ..
next
  case (step_kill pid)
  then show ?thesis using kill_task_wf [OF wf] by blast
next
  case (step_create env init_func tty privilege argc argv envp auxv pd a)
  then show ?thesis using create_task_wf [OF wf _ step_create(1)] in_list_wf [OF wf] by blast
next
  case (step_add a t)
  then show ?thesis using add_task_ok [OF wf step_add(3,2)] in_list_wf [OF wf] by auto
next
  case (step_remove a)
  then show ?thesis using remove_task_ok [OF wf] in_list_wf [OF wf] by fastforce
next
  case (step_subscribe sig handler)
  then show ?thesis using subscribe_signal_wf [OF wf] by blast
next
  case (step_signal p pid sig data sz)
  then show ?thesis using add_signal_wf [OF wf] by blast
next
  case (step_set_tty tty)
  then show ?thesis using current_tty_wf(1) [OF wf] by blast
next
  case step_reset_tty
  then show ?thesis using current_tty_wf(2) [OF wf] by blast
qed

text \<open>\<^verbatim>\<open>init_scheduler\<close> starts with no task and leaves the idle task as the only one.\<close>

lemma get_free_pid_empty: "task_head s = 0 \<Longrightarrow> get_free_pid s = ret (s, 1)"
  by (simp add: get_free_pid_def free_pid_loop.simps get_task_def find_task_def Let_def)

lemma create_task_empty:
  assumes r: "create_task env init_func tty privilege argc argv envp auxv pd s = ret (s', b)" and h: "task_head s = 0"
  shows "b = te_task env \<and> task_head s' = 0 \<and> (\<exists>t. tasks s' b = Some t \<and> t_next t = 0 \<and> t_prev t = 0)"
proof -
  have g: "get_free_pid (lock_scheduler s) = ret (lock_scheduler s, 1)" using h by (intro get_free_pid_empty) simp
  from r obtain ts s2 s3 regular io where b: "b = te_task env"
    and c: "initialize_context env (te_task env) init_func argc argv envp auxv ((lock_scheduler s)\<lparr>tasks := ts\<rparr>) = ret s2"
    and d: "set_task (te_task env) (\<lambda>t. t\<lparr>t_regular_tty := regular, t_io_tty := io, t_tty := Regular_tty, t_descriptors := 0,
             t_next := 0, t_prev := 0\<rparr>) s2 = ret s3" and s': "s' = unlock_scheduler s3"
    unfolding create_task_def Let_def using g h by (auto simp: bind_res_eq_ret split: prod.splits)
  from c h have "task_head s2 = 0"
    by (auto simp: initialize_context_def set_task_def bind_res_eq_ret modify_eq_ret Let_def case_prod_beta)
  with d s' b show ?thesis by (auto simp: set_task_def bind_res_eq_ret modify_eq_ret)
qed

lemma init_scheduler_wf:
  assumes r: "init_scheduler env idle s = ret s'" and e: "task_head s = 0" "te_task env \<noteq> 0"
  shows "sched_wf s' [te_task env]"
proof -
  let ?a = "te_task env"
  from r obtain s1 b where c: "create_task env idle (Some default_tty) KERNEL_TASK 0 [] None None 0 (lock_scheduler s) = ret (s1, b)"
    and s': "bind_res (set_task b (\<lambda>t. t\<lparr>t_pid := 0, t_state := TASK_IDLE\<rparr>) s1) (\<lambda>s. bind_res (add_task b s) (\<lambda>s.
       ret (unlock_scheduler (s\<lparr>current_task := task_head s\<rparr>)))) = ret s'"
    by (auto simp: init_scheduler_def bind_res_eq_ret)
  from create_task_empty [OF c] e obtain t where "b = ?a" "task_head s1 = 0" "tasks s1 ?a = Some t" "t_next t = 0" "t_prev t = 0" by auto
  then show ?thesis using s' e
    by (auto simp: set_task_def add_task_def Let_def sched_wf_def task_list_def lock_scheduler_def unlock_scheduler_def task_states)
qed

subsection \<open>Signals\<close>

definition signal_of :: "sched \<Rightarrow> u64 \<Rightarrow> int \<times> u64 \<times> u64" where
  "signal_of s p = (let g = the (signals s p) in (sg_signal g, sg_data g, sg_data_size g))"

definition pending :: "sched \<Rightarrow> u64 \<Rightarrow> u64 list \<Rightarrow> (int \<times> u64 \<times> u64) list \<Rightarrow> bool" where
  "pending s a ps q \<longleftrightarrow> chain sg_next (signals s) (t_signal_queue (task_at s a)) ps \<and> q = map (signal_of s) ps"

lemma add_signal_ok:
  assumes wf: "sched_wf s as" and g: "get_task pid s = ret (s, a)" "a \<in> set as" and pend: "pending s a ps q"
    and p: "p \<noteq> 0" "p \<notin> set ps"
  shows "\<exists>s'. add_signal p pid sig d z s = ret s' \<and> pending s' a (ps @ [p]) (q @ [(sig, d, z)]) \<and> sched_wf s' as \<and>
    irq_disable_counter s' = irq_disable_counter s"
proof -
  let ?g = "\<lparr>sg_signal = sig, sg_data = d, sg_data_size = z, sg_next = 0\<rparr>"
  have a0: "a \<noteq> 0" using path_not_0 [OF wf_chain [OF wf] g(2)] .
  from wf_dom [OF wf g(2)] obtain t where t: "tasks s a = Some t" by blast
  have gl: "get_task pid (lock_scheduler s) = ret (lock_scheduler s, a)"
    using get_task_ok [OF wf, of pid] get_task_ok [of "lock_scheduler s" as pid] wf g(1) by simp
  let ?gs = "(signals s)(p \<mapsto> ?g)"
  show ?thesis
  proof (cases "ps = []")
    case True
    then have q0: "t_signal_queue t = 0" "q = []" using pend t by (auto simp: pending_def)
    let ?s = "s\<lparr>signals := ?gs, tasks := (tasks s)(a \<mapsto> t\<lparr>t_signal_queue := p\<rparr>)\<rparr>"
    have "add_signal p pid sig d z s = ret ?s" using gl a0 t q0 by (simp add: add_signal_def set_task_def Let_def)
    moreover have "pending ?s a (ps @ [p]) (q @ [(sig, d, z)])" using True q0 p by (simp add: pending_def signal_of_def)
    moreover have "sched_wf (s\<lparr>tasks := (tasks s)(a \<mapsto> t\<lparr>t_signal_queue := p\<rparr>)\<rparr>) as"
      using wf t wf_executing [OF wf g(2)] by (intro wf_set_task(2)) (auto simp: sched_wf_def)
    then have "sched_wf ?s as" by (simp add: sched_wf_def task_list_def)
    ultimately show ?thesis by (intro exI [of _ ?s]) simp
  next
    case False
    then obtain xs l where ps: "ps = xs @ [l]" by (metis append_butlast_last_id)
    have c: "chain sg_next (signals s) (t_signal_queue t) (xs @ [l])" using pend t ps by (simp add: pending_def)
    have q0: "t_signal_queue t \<noteq> 0" using c by (cases xs) auto
    have dom: "set ps \<subseteq> dom (signals s)" using path_dom [OF c] ps by simp
    then obtain n where n: "signals s l = Some n" using ps by auto
    have lp: "l \<noteq> p" using p ps by auto
    have c': "chain sg_next ?gs (t_signal_queue t) (xs @ [l])" using c p ps by simp
    let ?hs = "?gs(l \<mapsto> n\<lparr>sg_next := p\<rparr>)"
    let ?s = "s\<lparr>signals := ?hs\<rparr>"
    have "add_signal p pid sig d z s = ret ?s"
      using gl a0 t q0 seek_last_chain [OF c'] n lp by (simp add: add_signal_def Let_def)
    moreover have "pending ?s a (ps @ [p]) (q @ [(sig, d, z)])"
    proof -
      have "chain sg_next ((signals s)(l \<mapsto> n\<lparr>sg_next := p\<rparr>, p \<mapsto> ?g)) (t_signal_queue t) (xs @ [l, p])"
        using signal_link.chain_snoc [OF c n p(1), of ?g] p(2) ps by simp
      moreover have "(signals s)(l \<mapsto> n\<lparr>sg_next := p\<rparr>, p \<mapsto> ?g) = ?hs" using lp by (simp add: fun_upd_twist)
      moreover have "map (signal_of ?s) ps = map (signal_of s) ps"
      proof (rule map_cong [OF refl])
        fix x
        assume "x \<in> set ps"
        then have "x \<noteq> p" using p(2) by auto
        then show "signal_of ?s x = signal_of s x" using n by (cases "x = l") (simp_all add: signal_of_def)
      qed
      moreover have "signal_of ?s p = (sig, d, z)" using lp by (simp add: signal_of_def)
      ultimately show ?thesis using pend t ps by (simp add: pending_def)
    qed
    moreover have "sched_wf ?s as" using wf by (simp add: sched_wf_def task_list_def)
    ultimately show ?thesis by (intro exI [of _ ?s]) simp
  qed
qed

lemma process_signals_ok:
  assumes t: "tasks s (current_task s) = Some t" and pend: "pending s (current_task s) (p # ps) ((sig, d, z) # q)"
    and range: "0 \<le> sig" "nat sig < length (t_signal_handlers t)"
  shows "\<exists>s'. process_signals s = ret (s', if t_signal_handlers t ! nat sig \<noteq> 0 then Some (t_signal_handlers t ! nat sig, sig, d, z) else None) \<and>
    pending s' (current_task s) ps q \<and> freed s' = freed s @ [p]"
proof -
  let ?c = "current_task s"
  from pend t obtain g where g: "signals s p = Some g" "t_signal_queue t = p" "p \<noteq> 0" "chain sg_next (signals s) (sg_next g) ps"
    "signal_of s p = (sig, d, z)" "q = map (signal_of s) ps" by (auto simp: pending_def)
  then have f: "sg_signal g = sig" "sg_data g = d" "sg_data_size g = z" by (simp_all add: signal_of_def)
  let ?s = "s\<lparr>tasks := (tasks s)(?c \<mapsto> t\<lparr>t_signal_queue := sg_next g\<rparr>), freed := freed s @ [p]\<rparr>"
  have "process_signals s = ret (?s, if t_signal_handlers t ! nat sig \<noteq> 0 then Some (t_signal_handlers t ! nat sig, sig, d, z) else None)"
    using t g f range by (simp add: process_signals_def handler_of_def set_task_def sig_free_def Let_def)
  moreover have "map (signal_of ?s) ps = map (signal_of s) ps" by (simp add: signal_of_def)
  then have "pending ?s ?c ps q" using g by (simp add: pending_def)
  ultimately show ?thesis by (intro exI [of _ ?s]) simp
qed

subsection \<open>Blocking and stacks\<close>

text \<open>
  \<^verbatim>\<open>block_task\<close> and \<^verbatim>\<open>unblock_task\<close> yield while the scheduler is locked, so the yield returns at once: the blocked task goes on.
\<close>

lemma block_task_does_not_switch:
  assumes "tasks s (current_task s) = Some t" "0 \<le> irq_disable_counter s"
  shows "\<exists>s'. block_task eoi now reason s = ret (s', None, None) \<and> current_task s' = current_task s \<and>
    t_state (task_at s' (current_task s)) = reason"
  using assms by (auto simp: block_task_def set_task_def yield_def Let_def lock_scheduler_def unlock_scheduler_def)

text \<open>
  The alignment loop of \<^verbatim>\<open>initialize_stack\<close> moves up over the strings it has just pushed: with one argument of less than 16
  characters and an aligned stack, nothing of the argument is left.
\<close>

lemma align_stack_wipes:
  assumes "unat stack + k < 2 ^ 64" "(unat stack + k) mod 16 = 0" "k < 16"
  shows "align_stack mem stack = (fold (\<lambda>i m. m(stack + word_of_nat i := 0)) [0..<k] mem, stack + word_of_nat k)"
  using assms
proof (induction k arbitrary: mem stack)
  case 0
  then show ?case by (subst align_stack.simps) (simp add: word_unat_eq_iff unat_mod)
next
  case (Suc k)
  have n: "unat stack mod 16 \<noteq> 0"
  proof
    assume "unat stack mod 16 = 0"
    then have "(unat stack + Suc k) mod 16 = Suc k mod 16" by (metis add_cancel_left_left mod_add_left_eq)
    then show False using Suc.prems by simp
  qed
  have u: "unat (stack + 1) = Suc (unat stack)" using Suc.prems(1) by (subst unat_add_small) simp_all
  have "align_stack mem stack = align_stack (mem(stack := 0)) (stack + 1)"
    using n by (subst align_stack.simps) (simp add: word_unat_eq_iff unat_mod)
  also have "\<dots> = (fold (\<lambda>i m. m(stack + 1 + word_of_nat i := 0)) [0..<k] (mem(stack := 0)), stack + 1 + word_of_nat k)"
    using Suc.prems u by (intro Suc.IH) simp_all
  also have "fold (\<lambda>i m. m(stack + 1 + word_of_nat i := 0)) [0..<k] (mem(stack := 0)) =
      fold (\<lambda>i m. m(stack + word_of_nat i := 0)) [0..<Suc k] mem"
  proof -
    have "[0..<Suc k] = 0 # map Suc [0..<k]" by (simp add: upt_conv_Cons map_Suc_upt del: upt_Suc)
    then show ?thesis by (simp add: fold_map comp_def add.assoc del: upt_Suc)
  qed
  finally show ?case by (simp only: of_nat_Suc add.assoc)
qed

lemma fold_zero: "i < k \<Longrightarrow> fold (\<lambda>i m. m(q + word_of_nat i := 0)) [0..<k] (m :: memory) (q + word_of_nat i) = 0"
  by (induction k) (auto simp: less_Suc_eq)

lemma initialize_stack_wipes_argument:
  assumes "cstr mem str s" "length s < 16" "unat stack mod 16 = 0" "16 \<le> unat stack"
  shows "\<exists>m. initialize_stack mem stack 1 [str] None None = ret (write_u64 m (stack - 8) 1, stack - 8) \<and>
    (\<forall>i < length s. m (stack - word_of_nat (length s) + word_of_nat i) = 0)"
proof -
  let ?n = "length s" and ?q = "stack - word_of_nat (length s)"
  have l: "strlen mem str = word_of_nat ?n" using assms(1,2) by (intro strlen_cstr) simp_all
  have "unat (word_of_nat ?n :: u64) = ?n" using assms(2) by (intro unat_of_nat_small) simp
  then have q: "unat ?q = unat stack - ?n" using assms(2,4) by (subst unat_sub) (simp_all add: word_le_nat_alt)
  then have s: "unat ?q + ?n = unat stack" using assms(2,4) by simp
  let ?m = "memcpy mem ?q str (word_of_nat ?n)"
  let ?w = "fold (\<lambda>i m. m(?q + word_of_nat i := 0)) [0..<?n] ?m"
  have a0: "align_stack mem stack = (mem, stack)" using assms(3) by (subst align_stack.simps) (simp add: word_unat_eq_iff unat_mod)
  have "unat ?q + ?n < 2 ^ 64" using s by simp
  moreover have "(unat ?q + ?n) mod 16 = 0" using s assms(3) by simp
  ultimately have "align_stack ?m ?q = (?w, ?q + word_of_nat ?n)" using assms(2) by (rule align_stack_wipes)
  then have a1: "align_stack ?m ?q = (?w, stack)" by simp
  have "initialize_stack mem stack 1 [str] None None = ret (write_u64 ?w (stack - 8) 1, stack - 8)"
    by (simp add: initialize_stack_def push_str_def push_u64_def a0 a1 l Let_def)
  then show ?thesis using fold_zero by blast
qed

subsection \<open>A running system\<close>

definition demo_task :: "int \<Rightarrow> 16 word \<Rightarrow> u64 \<Rightarrow> u64 \<Rightarrow> u64 \<Rightarrow> task" where
  "demo_task st pid queue nx pv = \<lparr>t_context = 0, t_stack_base = 0, t_stack_top = 0, t_pd = 0, t_flags = 0, t_cs = 8, t_ds = 16,
     t_processor = 0, t_state = st, t_privilege = 0, t_sigpending = 0, t_signal_queue = queue,
     t_signal_handlers = replicate 32 77, t_alt_stack_base = 0, t_alt_stack_top = 0, t_nice = 0, t_mm = 0, t_frame = 0,
     t_heap = 0, t_sleep_time = 0, t_cpu_time = 0, t_last_scheduled = 0, t_exit_code = 0, t_exit_signal = 0, t_pdeath_signal = 0,
     t_pid = pid, t_ppid = 0, t_parent = 0, t_uid = 0, t_gid = 0, t_regular_tty = [], t_io_tty = [], t_tty = Regular_tty,
     t_locks = 0, t_open_files = [], t_entry = 0, t_descriptors = 0, t_next = nx, t_prev = pv\<rparr>"

definition demo_sched :: sched where
  "demo_sched = \<lparr>irq_disable_counter = 0, scheduler_ready = True, task_head = 4096, current_task = 12288, boot_task = 0,
     tasks = [4096 \<mapsto> demo_task TASK_IDLE 0 0 8192 0, 8192 \<mapsto> demo_task TASK_READY 1 0 12288 4096,
       12288 \<mapsto> demo_task TASK_EXECUTING 2 20480 0 8192],
     contexts = Map.empty, signals = [20480 \<mapsto> \<lparr>sg_signal = 3, sg_data = 64, sg_data_size = 8, sg_next = 0\<rparr>], freed = [],
     sc_mem = (\<lambda>_. 0), sc_rflags = 512, kernel_gs = 0, user_gs = 0, tss_rsp = [0, 0, 0]\<rparr>"

lemma demo_sched_wf: "sched_wf demo_sched [4096, 8192, 12288]"
  by (simp add: sched_wf_def task_list_def demo_sched_def demo_task_def task_states)

subsection \<open>Properties\<close>

text \<open>C7: \<^verbatim>\<open>schedule\<close> always returns; it hands the processor to the first ready or executing task after the current one in cyclic order, the current one last, and to the idle task at the head when there is none. The list stays well formed, the same tasks stay runnable and exactly the chosen one is marked as executing.\<close>

theorem schedule_round_robin:
  assumes "sched_wf s as" and "as = bs @ current_task s # cs"
  shows "\<exists>s'. schedule s = ret (s', current_task s) \<and>
    current_task s' = (case find (\<lambda>a. runnable (task_at s a)) (cs @ bs @ [current_task s]) of Some a \<Rightarrow> a | None \<Rightarrow> task_head s) \<and>
    sched_wf s' as \<and> (\<forall>a \<in> set as. runnable (task_at s' a) = runnable (task_at s a) \<and>
      (t_state (task_at s' a) = TASK_EXECUTING \<longleftrightarrow> runnable (task_at s a) \<and> a = current_task s'))"
  using assms by (rule schedule_decision)

theorem schedule_round_robin_witness: "\<exists>s'. schedule demo_sched = ret (s', 12288) \<and> current_task s' = 8192"
  using schedule_round_robin [OF demo_sched_wf, of "[4096, 8192]" "[]"]
  by (auto simp: demo_sched_def demo_task_def task_states runnable_def)

text \<open>C2: every runnable task of the list is executing after at most as many calls of \<^verbatim>\<open>schedule\<close> as the list has tasks.\<close>

theorem schedule_fair:
  assumes wf: "sched_wf s as" and t: "t \<in> set as" and run: "runnable (task_at s t)"
  shows "\<exists>m s'. m \<le> length as \<and> schedule_n m s = ret s' \<and> current_task s' = t \<and> t_state (task_at s' t) = TASK_EXECUTING"
proof -
  have "current_task s \<in> set as" using wf by (simp add: sched_wf_def)
  then obtain i where i: "i < length as" "as ! i = current_task s" by (auto simp: in_set_conv_nth)
  have "t \<in> set (rotate (Suc i) as)" using t by simp
  then obtain k where k: "k < length as" "rotate (Suc i) as ! k = t" unfolding in_set_conv_nth length_rotate by blast
  from schedule_reaches [OF wf i k run] obtain m s' where "m \<le> k" "schedule_n (Suc m) s = ret s'" "current_task s' = t"
    "t_state (task_at s' t) = TASK_EXECUTING" by blast
  then show ?thesis using k(1) by (intro exI [of _ "Suc m"] exI [of _ s']) simp
qed

theorem schedule_fair_witness: "\<exists>m s'. m \<le> 3 \<and> schedule_n m demo_sched = ret s' \<and> current_task s' = 8192"
proof -
  have "8192 \<in> set [4096, 8192, 12288 :: u64]" "runnable (task_at demo_sched 8192)"
    by (simp_all add: runnable_def demo_sched_def demo_task_def)
  from schedule_fair [OF demo_sched_wf this] show ?thesis by (simp add: numeral_3_eq_3) blast
qed



text \<open>C31: \<^verbatim>\<open>kill_task\<close> does not have the condition of the step relation, and the debug shell passes it any number: with the number
  of the idle task, which is 0, it turns the idle task into a zombie, and the next decision with no task to run panics.\<close>

theorem kill_idle_task:
  assumes wf: "sched_wf s as" and p: "t_pid (task_at s (task_head s)) = pid"
  shows "\<exists>s'. kill_task pid s = ret s' \<and> t_state (task_at s' (task_head s')) = TASK_ZOMBIE \<and>
    ((\<forall>a \<in> set as. \<not> runnable (task_at s a)) \<longrightarrow> schedule s' = panic ''Idle task is not valid or at head'')"
proof -
  have wfl: "sched_wf (lock_scheduler s) as" using wf by simp
  obtain bs where as: "as = task_head s # bs" using wf_head [OF wf] by (cases as) auto
  from wf_dom [OF wf, of "task_head s"] as obtain t where t: "tasks s (task_head s) = Some t" by auto
  have h: "task_head s \<noteq> 0" using wf_head [OF wf] by blast
  let ?t = "t\<lparr>t_exit_code := 0, t_exit_signal := SIGKILL, t_state := TASK_ZOMBIE\<rparr>"
  let ?s = "s\<lparr>tasks := (tasks s)(task_head s \<mapsto> ?t)\<rparr>"
  have "get_task pid (lock_scheduler s) = ret (lock_scheduler s, task_head s)" using get_task_ok [OF wfl, of pid] p as by simp
  then have k: "kill_task pid s = ret ?s" using t h by (simp add: kill_task_def set_task_def)
  have "schedule ?s = panic ''Idle task is not valid or at head''" if no: "\<forall>a \<in> set as. \<not> runnable (task_at s a)"
  proof -
    have "task_list ?s as = task_list s as" by (rule task_list_cong) (simp_all add: t)
    then have ch: "chain t_next (tasks ?s) (task_head ?s) as" using wf by (simp add: sched_wf_def task_list_def)
    have "current_task s \<in> set as" using wf by (simp add: sched_wf_def)
    then obtain xs ys where split: "as = xs @ current_task ?s # ys" by (auto simp: in_set_conv_decomp)
    have "\<not> runnable (the (tasks ?s a))" if "a \<in> set as" for a using no that by (auto simp: runnable_def task_states)
    moreover have "set (ys @ xs @ [current_task ?s]) = set as" using split by auto
    ultimately have "first_runnable (tasks ?s) (ys @ xs @ [current_task ?s]) = None"
      unfolding first_runnable_def find_None_iff by blast
    then have "schedule_loop (tasks ?s) (task_head ?s) (current_task ?s) (current_task ?s) = ret 0"
      using schedule_loop_ok [OF ch [unfolded split]] by simp
    then show ?thesis by (simp add: schedule_def task_states)
  qed
  then show ?thesis using k by (intro exI [of _ ?s]) simp
qed

theorem kill_idle_task_witness:
  "\<exists>s'. kill_task 0 (demo_sched\<lparr>tasks := [4096 \<mapsto> demo_task TASK_IDLE 0 0 0 0], current_task := 4096\<rparr>) = ret s' \<and>
     schedule s' = panic ''Idle task is not valid or at head''"
proof -
  let ?s = "demo_sched\<lparr>tasks := [4096 \<mapsto> demo_task TASK_IDLE 0 0 0 0], current_task := 4096\<rparr>"
  have "sched_wf ?s [4096]" by (simp add: sched_wf_def task_list_def demo_sched_def demo_task_def task_states)
  from kill_idle_task [OF this, of 0] show ?thesis
    by (auto simp: demo_sched_def demo_task_def runnable_def task_states)
qed

text \<open>C22: \<^verbatim>\<open>add_signal\<close> appends to the queue of the task it names and leaves the scheduler unlocked as before; \<^verbatim>\<open>process_signals\<close> takes the first signal off the queue of the current task and calls the registered handler with its data.\<close>

theorem signals_fifo:
  assumes "sched_wf s as"
  shows "(\<forall>a \<in> set as. get_task pid s = ret (s, a) \<longrightarrow> pending s a ps q \<longrightarrow> p \<noteq> 0 \<longrightarrow> p \<notin> set ps \<longrightarrow>
      (\<exists>s'. add_signal p pid sig d z s = ret s' \<and> pending s' a (ps @ [p]) (q @ [(sig, d, z)]) \<and> sched_wf s' as \<and>
        irq_disable_counter s' = irq_disable_counter s)) \<and>
    (pending s (current_task s) (p # ps) ((sig, d, z) # q) \<longrightarrow> 0 \<le> sig \<longrightarrow> nat sig < length (t_signal_handlers (task_at s (current_task s))) \<longrightarrow>
      (\<exists>s'. process_signals s = ret (s', let h = t_signal_handlers (task_at s (current_task s)) ! nat sig in
          if h \<noteq> 0 then Some (h, sig, d, z) else None) \<and>
        pending s' (current_task s) ps q \<and> freed s' = freed s @ [p]))"
proof (intro conjI)
  have "current_task s \<in> set as" using assms by (simp add: sched_wf_def)
  from wf_dom [OF assms this] obtain t where "tasks s (current_task s) = Some t" by blast
  then show "pending s (current_task s) (p # ps) ((sig, d, z) # q) \<longrightarrow> 0 \<le> sig \<longrightarrow> nat sig < length (t_signal_handlers (task_at s (current_task s))) \<longrightarrow>
      (\<exists>s'. process_signals s = ret (s', let h = t_signal_handlers (task_at s (current_task s)) ! nat sig in
          if h \<noteq> 0 then Some (h, sig, d, z) else None) \<and>
        pending s' (current_task s) ps q \<and> freed s' = freed s @ [p])"
    using process_signals_ok [of s t p ps sig d z q] by (simp add: Let_def)
qed (use add_signal_ok [OF assms] in blast)

theorem signals_fifo_witness:
  "(\<exists>s'. process_signals demo_sched = ret (s', Some (77, 3, 64, 8)) \<and> pending s' 12288 [] []) \<and>
   (\<exists>s'. add_signal 24576 1 5 80 4 demo_sched = ret s' \<and> pending s' 8192 [24576] [(5, 80, 4)])"
proof
  have "pending demo_sched (current_task demo_sched) [20480] [(3, 64, 8)]"
    by (simp add: pending_def signal_of_def demo_sched_def demo_task_def)
  then show "\<exists>s'. process_signals demo_sched = ret (s', Some (77, 3, 64, 8)) \<and> pending s' 12288 [] []"
    using signals_fifo [OF demo_sched_wf, where p = 20480 and ps = "[]" and q = "[]" and sig = 3 and d = 64 and z = 8]
    by (auto simp: demo_sched_def demo_task_def)
  have "get_task 1 demo_sched = ret (demo_sched, 8192)" "pending demo_sched 8192 [] []"
    using get_task_ok [OF demo_sched_wf, of 1] by (simp_all add: pending_def demo_sched_def demo_task_def)
  then show "\<exists>s'. add_signal 24576 1 5 80 4 demo_sched = ret s' \<and> pending s' 8192 [24576] [(5, 80, 4)]"
    using signals_fifo [OF demo_sched_wf, of 1 "[]" "[]" 24576 5 80 4] by auto
qed

end
