(* ===== verification/Sleepers.thy ===== *)
theory Sleepers
  imports Scheduler
begin

section \<open>Sleeping tasks\<close>

text \<open>
  \<^verbatim>\<open>sched/sline.c\<close>: the two queues of sleeping tasks, by time and by reason, guarded by one spin lock, and the sleeping lock of
  \<^verbatim>\<open>sched/concurrency.c\<close> built on them. The nodes are a store of doubly linked records; the tick counter and the address
  \<^verbatim>\<open>smalloc\<close> returns are arguments.
  The lemmas show that a wake-up removes, frees and readies exactly the sleepers that are due and keeps the others in order, that a
  new sleeper goes to the front, and that \<^verbatim>\<open>_ksleep\<close>, and so a contended \<^verbatim>\<open>acquire_lock\<close>, never returns.
\<close>

subsection \<open>State\<close>

record sleep_queue =
  sq_started_at :: u64
  sq_expires_in :: u64
  sq_sleep_reason :: u64
  sq_task :: u64
  sq_prev :: u64
  sq_next :: u64

record sleepers =
  sleep_lock :: spinlock_t
  sleep_time_queue_head :: u64
  sleep_reason_queue_head :: u64
  sq_nodes :: "u64 \<rightharpoonup> sleep_queue"
  sq_freed :: "u64 list"
  sl_sched :: sched

definition SLEEP_AWAITING_IO :: u64 where
  "SLEEP_AWAITING_IO = 1"

definition lock_sleepers :: "sleepers \<Rightarrow> sleepers res" where
  "lock_sleepers w =
     bind_res (acquire_spinlock (sleep_lock w) (sc_rflags (sl_sched w))) (\<lambda>(lk, rf).
       ret (w\<lparr>sleep_lock := lk, sl_sched := (sl_sched w)\<lparr>sc_rflags := rf\<rparr>\<rparr>))"

definition unlock_sleepers :: "sleepers \<Rightarrow> sleepers" where
  "unlock_sleepers w =
     (case release_spinlock (sleep_lock w) (sc_rflags (sl_sched w)) of (lk, rf) \<Rightarrow>
        w\<lparr>sleep_lock := lk, sl_sched := (sl_sched w)\<lparr>sc_rflags := rf\<rparr>\<rparr>)"

subsection \<open>Waking up\<close>

definition ready_task :: "u64 \<Rightarrow> sched \<Rightarrow> sched res" where
  "ready_task a s = set_task a (\<lambda>t. if t_state t = TASK_UNINTERRUPTIBLE then t\<lparr>t_state := TASK_READY\<rparr> else t) s"

definition unlink_sleeper :: "sleep_queue \<Rightarrow> u64 \<times> (u64 \<rightharpoonup> sleep_queue) \<Rightarrow> (u64 \<times> (u64 \<rightharpoonup> sleep_queue)) res" where
  "unlink_sleeper q = (\<lambda>(head, ns).
     bind_res (if sq_prev q \<noteq> 0
       then bind_res (modify (sq_prev q) (\<lambda>p. p\<lparr>sq_next := sq_next q\<rparr>) ns) (\<lambda>ns. ret (head, ns))
       else ret (sq_next q, ns)) (\<lambda>(head, ns).
     if sq_next q \<noteq> 0
     then bind_res (modify (sq_next q) (\<lambda>n. n\<lparr>sq_prev := sq_prev q\<rparr>) ns) (\<lambda>ns. ret (head, ns))
     else ret (head, ns)))"

text \<open>The loop that \<^verbatim>\<open>wakeup_handler\<close> and \<^verbatim>\<open>_kwakeup\<close> share: nodes with a task that \<open>P\<close> accepts are woken, unlinked and freed.\<close>

partial_function (option) wake_loop ::
  "(sleep_queue \<Rightarrow> bool) \<Rightarrow> u64 \<Rightarrow> u64 \<Rightarrow> (u64 \<rightharpoonup> sleep_queue) \<Rightarrow> u64 list \<Rightarrow> sched \<Rightarrow>
   (u64 \<times> (u64 \<rightharpoonup> sleep_queue) \<times> u64 list \<times> sched) res" where
  "wake_loop P sq head ns fr s =
     (if sq = 0 then ret (head, ns, fr, s)
      else bind_res (deref ns sq) (\<lambda>q.
        if sq_task q = 0 \<or> \<not> P q then wake_loop P (sq_next q) head ns fr s
        else bind_res (ready_task (sq_task q) s) (\<lambda>s.
          bind_res (unlink_sleeper q (head, ns)) (\<lambda>r.
            wake_loop P (sq_next q) (fst r) (snd r) (fr @ [sq]) s))))"

definition expired :: "u64 \<Rightarrow> sleep_queue \<Rightarrow> bool" where
  "expired now q \<longleftrightarrow> sq_expires_in q \<noteq> 0 \<and> now - sq_started_at q \<ge> sq_expires_in q"

definition wakeup_sleepers :: "u64 \<Rightarrow> sleepers \<Rightarrow> sleepers res" where
  "wakeup_sleepers now w =
     bind_res (lock_sleepers w) (\<lambda>w.
     bind_res (wake_loop (expired now) (sleep_time_queue_head w) (sleep_time_queue_head w) (sq_nodes w) (sq_freed w) (sl_sched w))
       (\<lambda>(head, ns, fr, s).
       ret (unlock_sleepers (w\<lparr>sleep_time_queue_head := head, sq_nodes := ns, sq_freed := fr, sl_sched := s\<rparr>))))"

text \<open>The loop of \<^verbatim>\<open>_kwakeup\<close> wakes the tasks that sleep on an address.\<close>

definition kwakeup_loop :: "u64 \<Rightarrow> u64 \<Rightarrow> u64 \<Rightarrow> (u64 \<rightharpoonup> sleep_queue) \<Rightarrow> u64 list \<Rightarrow> sched \<Rightarrow>
   (u64 \<times> (u64 \<rightharpoonup> sleep_queue) \<times> u64 list \<times> sched) res" where
  "kwakeup_loop addr = wake_loop (\<lambda>q. sq_sleep_reason q = addr)"

definition kwakeup :: "u64 \<Rightarrow> sleepers \<Rightarrow> sleepers res" where
  "kwakeup addr w =
     bind_res (lock_sleepers w) (\<lambda>w.
     bind_res (kwakeup_loop addr (sleep_reason_queue_head w) (sleep_reason_queue_head w)
         (sq_nodes w) (sq_freed w) (sl_sched w)) (\<lambda>(head, ns, fr, s).
       ret (unlock_sleepers (w\<lparr>sleep_reason_queue_head := head, sq_nodes := ns, sq_freed := fr, sl_sched := s\<rparr>))))"

text \<open>The handler is called every 100 ticks; \<open>handler\<close> is its address.\<close>

definition init_sline :: "u64 \<Rightarrow> pit \<Rightarrow> pit" where
  "init_sline handler p = set_wakeup_call handler 100 p"

subsection \<open>Going to sleep\<close>

text \<open>A new node in front of a queue; \<open>p\<close> is the address that \<^verbatim>\<open>smalloc\<close> returns.\<close>

definition push_sleeper :: "u64 \<Rightarrow> sleep_queue \<Rightarrow> u64 \<Rightarrow> (u64 \<rightharpoonup> sleep_queue) \<Rightarrow> (u64 \<rightharpoonup> sleep_queue) res" where
  "push_sleeper p q head ns =
     (let ns = ns(p \<mapsto> q) in
      if head \<noteq> 0
      then bind_res (modify head (\<lambda>h. h\<lparr>sq_prev := p\<rparr>) ns) (\<lambda>ns. modify p (\<lambda>q. q\<lparr>sq_next := head\<rparr>) ns)
      else ret ns)"

definition tsleep :: "u64 \<Rightarrow> u64 \<Rightarrow> u64 \<Rightarrow> sleepers \<Rightarrow> sleepers res" where
  "tsleep p now ticks w =
     bind_res (lock_sleepers w) (\<lambda>w.
       let ctask = get_current_task (sl_sched w) in
       if ctask = 0 then ret (unlock_sleepers w)
       else bind_res (push_sleeper p \<lparr>sq_started_at = now, sq_expires_in = ticks, sq_sleep_reason = SLEEP_AWAITING_IO, sq_task = ctask,
           sq_prev = 0, sq_next = 0\<rparr> (sleep_time_queue_head w) (sq_nodes w)) (\<lambda>ns.
         bind_res (set_task ctask (\<lambda>t. t\<lparr>t_state := TASK_UNINTERRUPTIBLE\<rparr>) (sl_sched w)) (\<lambda>s.
           ret (unlock_sleepers (w\<lparr>sq_nodes := ns, sleep_time_queue_head := p, sl_sched := s\<rparr>)))))"

definition ssleep :: "u64 \<Rightarrow> pit \<Rightarrow> u64 \<Rightarrow> sleepers \<Rightarrow> sleepers res" where
  "ssleep p pt seconds w = tsleep p (get_ticks_since_boot pt) (ms_to_ticks pt (seconds * 1000)) w"

definition sleep_ms :: "u64 \<Rightarrow> pit \<Rightarrow> u64 \<Rightarrow> sleepers \<Rightarrow> sleepers res" where
  "sleep_ms p pt milliseconds w = tsleep p (get_ticks_since_boot pt) (ms_to_ticks pt milliseconds) w"

text \<open>The last statement of \<^verbatim>\<open>_ksleep\<close> takes the lock a second time.\<close>

definition ksleep :: "u64 \<Rightarrow> u64 \<Rightarrow> u64 \<Rightarrow> sleepers \<Rightarrow> sleepers res" where
  "ksleep p now addr w =
     bind_res (lock_sleepers w) (\<lambda>w.
       let ctask = get_current_task (sl_sched w) in
       if ctask = 0 then ret (unlock_sleepers w)
       else bind_res (push_sleeper p \<lparr>sq_started_at = now, sq_expires_in = 0, sq_sleep_reason = addr, sq_task = ctask,
           sq_prev = 0, sq_next = 0\<rparr> (sleep_reason_queue_head w) (sq_nodes w)) (\<lambda>ns.
         bind_res (set_task ctask (\<lambda>t. t\<lparr>t_state := TASK_UNINTERRUPTIBLE\<rparr>) (sl_sched w)) (\<lambda>s.
           lock_sleepers (w\<lparr>sq_nodes := ns, sleep_reason_queue_head := p, sl_sched := s\<rparr>))))"

subsection \<open>The queues as lists\<close>

interpretation sleeper_link: linked_node sq_next "\<lambda>p q. q\<lparr>sq_next := p\<rparr>"
  by unfold_locales simp

fun sq_prevs :: "(u64 \<rightharpoonup> sleep_queue) \<Rightarrow> u64 \<Rightarrow> u64 list \<Rightarrow> bool" where
  "sq_prevs ns p [] \<longleftrightarrow> True"
| "sq_prevs ns p (a # as) \<longleftrightarrow> map_option sq_prev (ns a) = Some p \<and> sq_prevs ns a as"

definition queue :: "(u64 \<rightharpoonup> sleep_queue) \<Rightarrow> u64 \<Rightarrow> u64 list \<Rightarrow> bool" where
  "queue ns head as \<longleftrightarrow> chain sq_next ns head as \<and> sq_prevs ns 0 as"

lemma sq_prevs_append: "sq_prevs ns p (xs @ ys) \<longleftrightarrow> sq_prevs ns p xs \<and> sq_prevs ns (last (p # xs)) ys"
  by (induction xs arbitrary: p) auto

lemma sq_prevs_cong: "(\<And>a. a \<in> set as \<Longrightarrow> map_option sq_prev (ns' a) = map_option sq_prev (ns a)) \<Longrightarrow> sq_prevs ns' p as = sq_prevs ns p as"
  by (induction as arbitrary: p) auto

lemma sq_prevs_other [simp]: "a \<notin> set as \<Longrightarrow> sq_prevs (ns(a := v)) p as = sq_prevs ns p as"
  by (rule sq_prevs_cong) auto

text \<open>The fields that neither linking nor unlinking changes.\<close>

definition payload :: "sleep_queue \<Rightarrow> u64 \<times> u64 \<times> u64 \<times> u64" where
  "payload q = (sq_started_at q, sq_expires_in q, sq_sleep_reason q, sq_task q)"

lemma lock_free:
  "\<not> sl_mut (sleep_lock w) \<Longrightarrow> lock_sleepers w = ret (w\<lparr>sleep_lock := \<lparr>sl_flags = sc_rflags (sl_sched w), sl_mut = True\<rparr>,
    sl_sched := (sl_sched w)\<lparr>sc_rflags := cli (sc_rflags (sl_sched w))\<rparr>\<rparr>)"
  by (simp add: lock_sleepers_def acquire_free)

lemma lock_held: "sl_mut (sleep_lock w) \<Longrightarrow> lock_sleepers w = None"
  by (simp add: lock_sleepers_def acquire_held)

lemma push_sleeper_ok:
  assumes q: "queue ns head as" and p: "p \<noteq> 0" "p \<notin> set as" and n: "sq_next n = 0" "sq_prev n = 0"
  shows "\<exists>ns'. push_sleeper p n head ns = ret ns' \<and> queue ns' p (p # as) \<and> map_option payload (ns' p) = Some (payload n) \<and>
    (\<forall>a. a \<noteq> p \<longrightarrow> map_option payload (ns' a) = map_option payload (ns a))"
proof (cases as)
  case Nil
  then have "head = 0" using q by (simp add: queue_def)
  then show ?thesis using Nil p n by (simp add: push_sleeper_def queue_def Let_def)
next
  case (Cons a as')
  then obtain m where m: "head = a" "a \<noteq> 0" "ns a = Some m" "chain sq_next ns (sq_next m) as'" using q by (auto simp: queue_def)
  have d: "a \<notin> set as'" "p \<noteq> a" "p \<notin> set as'" using q p Cons chain_distinct [of sq_next ns head as] by (auto simp: queue_def)
  let ?ns = "ns(a \<mapsto> m\<lparr>sq_prev := p\<rparr>, p \<mapsto> n\<lparr>sq_next := a\<rparr>)"
  have e: "ns(p \<mapsto> n, a \<mapsto> m\<lparr>sq_prev := p\<rparr>, p \<mapsto> n\<lparr>sq_next := a\<rparr>) = ?ns" by auto
  have "push_sleeper p n head ns = ret ?ns" using m d e by (simp add: push_sleeper_def Let_def)
  moreover have "queue ?ns p (p # as)" using q m d n p Cons by (simp add: queue_def)
  ultimately show ?thesis using m d by (intro exI [of _ ?ns]) (auto simp: payload_def)
qed

lemma ksleep_never_returns:
  assumes free: "\<not> sl_mut (sleep_lock w)" and cur: "current_task (sl_sched w) \<noteq> 0" "tasks (sl_sched w) (current_task (sl_sched w)) \<noteq> None"
    and q: "queue (sq_nodes w) (sleep_reason_queue_head w) as" and p: "p \<noteq> 0" "p \<notin> set as"
  shows "ksleep p now addr w = None"
proof -
  let ?n = "\<lparr>sq_started_at = now, sq_expires_in = 0, sq_sleep_reason = addr, sq_task = current_task (sl_sched w), sq_prev = 0, sq_next = 0\<rparr>"
  from push_sleeper_ok [OF q p, of ?n] obtain ns where "push_sleeper p ?n (sleep_reason_queue_head w) (sq_nodes w) = ret ns" by auto
  then show ?thesis using lock_free [OF free] cur by (auto simp: ksleep_def get_current_task_def Let_def set_task_def lock_held)
qed

subsection \<open>Waking exactly the tasks that are due\<close>

lemma payload_chain:
  assumes "map_option payload (ns a) = Some (x, y, r, t)"
  shows "\<exists>q. ns a = Some q \<and> sq_started_at q = x \<and> sq_expires_in q = y \<and> sq_sleep_reason q = r \<and> sq_task q = t"
  using assms by (auto simp: payload_def)

lemma unlink_sleeper_ok:
  assumes q: "queue ns head (xs @ a # ys)" and a: "ns a = Some n"
  shows "\<exists>head' ns'. unlink_sleeper n (head, ns) = ret (head', ns') \<and> queue ns' head' (xs @ ys) \<and> ns' a = ns a \<and>
    (\<forall>b. map_option payload (ns' b) = map_option payload (ns b)) \<and> chain sq_next ns' (sq_next n) ys"
proof -
  have c: "chain sq_next ns head (xs @ a # ys)" and pv: "sq_prevs ns 0 (xs @ a # ys)" using q by (simp_all add: queue_def)
  have d: "distinct (xs @ a # ys)" using chain_distinct [OF c] .
  have np: "sq_prev n = last (0 # xs)" "chain sq_next ns (sq_next n) ys" using c pv a by (auto simp: path_append sq_prevs_append)
  have first: "\<exists>head1 ns1. (if sq_prev n \<noteq> 0 then bind_res (modify (sq_prev n) (\<lambda>p. p\<lparr>sq_next := sq_next n\<rparr>) ns) (\<lambda>ns. ret (head, ns))
      else ret (sq_next n, ns)) = ret (head1, ns1) \<and> chain sq_next ns1 head1 (xs @ ys) \<and> (\<forall>b. map_option sq_prev (ns1 b) = map_option sq_prev (ns b)) \<and>
      ns1 a = ns a \<and> (\<forall>b. map_option payload (ns1 b) = map_option payload (ns b)) \<and> (\<forall>b \<in> set ys. ns1 b = ns b)"
  proof (cases xs rule: rev_cases)
    case Nil
    then show ?thesis using np c by simp
  next
    case (snoc us z)
    have z: "sq_prev n = z" "z \<noteq> 0" using np(1) snoc path_not_0 [OF c, of z] by simp_all
    from path_dom [OF c] snoc obtain m where m: "ns z = Some m" by auto
    have "chain sq_next (ns(z \<mapsto> m\<lparr>sq_next := sq_next n\<rparr>)) head (us @ z # ys)"
      using c snoc by (intro sleeper_link.chain_unlink [OF _ m a]) simp
    moreover have "z \<noteq> a" "z \<notin> set ys" using d snoc by auto
    ultimately show ?thesis using z m snoc by (auto simp: payload_def)
  qed
  then obtain head1 ns1 where f: "(if sq_prev n \<noteq> 0 then bind_res (modify (sq_prev n) (\<lambda>p. p\<lparr>sq_next := sq_next n\<rparr>) ns) (\<lambda>ns. ret (head, ns))
      else ret (sq_next n, ns)) = ret (head1, ns1)" "chain sq_next ns1 head1 (xs @ ys)" "\<And>b. map_option sq_prev (ns1 b) = map_option sq_prev (ns b)"
      "ns1 a = ns a" "\<And>b. map_option payload (ns1 b) = map_option payload (ns b)" "\<And>b. b \<in> set ys \<Longrightarrow> ns1 b = ns b" by blast
  have c1: "chain sq_next ns1 (sq_next n) ys" using np(2) f(6) path_cong [of ys sq_next ns1 ns] by simp
  have p1: "sq_prevs ns1 0 xs" using pv f(3) sq_prevs_cong [of xs ns1 ns 0] by (simp add: sq_prevs_append)
  show ?thesis
  proof (cases ys)
    case Nil
    then have "sq_next n = 0" using np(2) by simp
    then show ?thesis using f c1 p1 Nil by (intro exI [of _ head1] exI [of _ ns1]) (simp add: unlink_sleeper_def queue_def)
  next
    case (Cons y ys')
    then have y: "sq_next n = y" "y \<noteq> 0" using np(2) by auto
    from path_dom [OF c] Cons f(6) [of y] obtain m where m: "ns1 y = Some m" by auto
    have dy: "y \<notin> set xs" "y \<notin> set ys'" "y \<noteq> a" using d Cons by auto
    let ?ns = "ns1(y \<mapsto> m\<lparr>sq_prev := sq_prev n\<rparr>)"
    have nx: "map_option sq_next (?ns b) = map_option sq_next (ns1 b)" for b using m by simp
    have "unlink_sleeper n (head, ns) = ret (head1, ?ns)" using f(1) y m by (simp add: unlink_sleeper_def)
    moreover have "chain sq_next ?ns head1 (xs @ ys)" using f(2) path_cong [of "xs @ ys" sq_next ?ns ns1 head1 0] nx by blast
    moreover have "chain sq_next ?ns (sq_next n) ys" using c1 path_cong [of ys sq_next ?ns ns1 "sq_next n" 0] nx by blast
    moreover have "sq_prevs ?ns 0 (xs @ ys)"
    proof -
      have "sq_prevs ns y ys'" using pv Cons by (simp add: sq_prevs_append)
      then have "sq_prevs ns1 y ys'" using f(3) sq_prevs_cong [of ys' ns1 ns y] by simp
      then show ?thesis using p1 dy np(1) Cons by (simp add: sq_prevs_append)
    qed
    moreover have "map_option payload (?ns b) = map_option payload (ns b)" for b
    proof (cases "b = y")
      case True
      have "payload (m\<lparr>sq_prev := sq_prev n\<rparr>) = payload m" by (simp add: payload_def)
      then show ?thesis using f(5) [of y] m True by simp
    qed (use f(5) in simp)
    ultimately show ?thesis using f(4) dy by (intro exI [of _ head1] exI [of _ ?ns]) (simp add: queue_def)
  qed
qed

definition due :: "(sleep_queue \<Rightarrow> bool) \<Rightarrow> (u64 \<rightharpoonup> sleep_queue) \<Rightarrow> u64 \<Rightarrow> bool" where
  "due P ns a \<longleftrightarrow> sq_task (the (ns a)) \<noteq> 0 \<and> P (the (ns a))"

definition woken :: "u64 set \<Rightarrow> (u64 \<rightharpoonup> task) \<Rightarrow> (u64 \<rightharpoonup> task)" where
  "woken T ts = (\<lambda>a. if a \<in> T then map_option (\<lambda>t. if t_state t = TASK_UNINTERRUPTIBLE then t\<lparr>t_state := TASK_READY\<rparr> else t) (ts a) else ts a)"

lemma woken_simps [simp]: "woken {} ts = ts" "woken T (woken {a} ts) = woken (insert a T) ts" "woken T ts a = None \<longleftrightarrow> ts a = None"
  by (auto simp: woken_def fun_eq_iff task_states option.map_comp comp_def intro!: option.map_cong)

lemma due_cong:
  assumes "\<And>q q'. payload q = payload q' \<Longrightarrow> P q = P q'" "map_option payload (ns' a) = map_option payload (ns a)"
  shows "due P ns' a = due P ns a" and "sq_task (the (ns' a)) = sq_task (the (ns a))"
proof -
  have "payload (the (ns' a)) = payload (the (ns a))" using assms(2) by (cases "ns a"; cases "ns' a") auto
  then show "sq_task (the (ns' a)) = sq_task (the (ns a))" "due P ns' a = due P ns a"
    using assms(1) [of "the (ns' a)" "the (ns a)"] by (simp_all add: payload_def due_def)
qed

lemma wake_loop_ok:
  assumes P: "\<And>q q'. payload q = payload q' \<Longrightarrow> P q = P q'"
    and "queue ns head (xs @ ys)" "chain sq_next ns sq ys" "\<forall>a \<in> set ys. due P ns a \<longrightarrow> tasks s (sq_task (the (ns a))) \<noteq> None"
  shows "\<exists>head' ns'. wake_loop P sq head ns fr s = ret (head', ns', fr @ filter (due P ns) ys,
      s\<lparr>tasks := woken ((\<lambda>a. sq_task (the (ns a))) ` {a \<in> set ys. due P ns a}) (tasks s)\<rparr>) \<and>
    queue ns' head' (xs @ filter (\<lambda>a. \<not> due P ns a) ys)"
  using assms(2-4)
proof (induction ys arbitrary: xs sq head ns fr s)
  case Nil
  then have "sq = 0" by simp
  then show ?case using Nil by (subst wake_loop.simps) simp
next
  case (Cons a ys)
  then obtain n where n: "sq = a" "a \<noteq> 0" "ns a = Some n" "chain sq_next ns (sq_next n) ys" by auto
  show ?case
  proof (cases "due P ns a")
    case False
    then have "wake_loop P sq head ns fr s = wake_loop P (sq_next n) head ns fr s"
      using n by (subst wake_loop.simps) (simp add: due_def)
    moreover have "queue ns head ((xs @ [a]) @ ys)" using Cons.prems(1) by simp
    note Cons.IH [OF this n(4)]
    moreover have "{b \<in> set (a # ys). due P ns b} = {b \<in> set ys. due P ns b}" using False by auto
    ultimately show ?thesis using False Cons.prems(3) by auto
  next
    case True
    let ?t = "sq_task n"
    obtain t where t: "tasks s ?t = Some t" using Cons.prems(3) True n(3) by auto
    let ?s = "s\<lparr>tasks := woken {?t} (tasks s)\<rparr>"
    have ready: "ready_task ?t s = ret ?s" using t by (simp add: ready_task_def set_task_def woken_def fun_eq_iff fun_upd_def)
    from unlink_sleeper_ok [OF Cons.prems(1) n(3)] obtain head1 ns1 where
      u: "unlink_sleeper n (head, ns) = ret (head1, ns1)" "queue ns1 head1 (xs @ ys)"
        "\<And>b. map_option payload (ns1 b) = map_option payload (ns b)" "chain sq_next ns1 (sq_next n) ys" by blast
    have same: "due P ns1 b = due P ns b" "sq_task (the (ns1 b)) = sq_task (the (ns b))" for b using due_cong [where P = P and ns' = ns1 and ns = ns and a = b, OF P u(3)] by blast+
    have loop: "wake_loop P sq head ns fr s = wake_loop P (sq_next n) head1 ns1 (fr @ [a]) ?s"
      using n True ready u(1) by (subst wake_loop.simps) (simp add: due_def)
    have "\<forall>b \<in> set ys. due P ns1 b \<longrightarrow> tasks ?s (sq_task (the (ns1 b))) \<noteq> None" using Cons.prems(3) unfolding same by simp
    from Cons.IH [OF u(2,4) this, of "fr @ [a]"] obtain head' ns' where
      "wake_loop P (sq_next n) head1 ns1 (fr @ [a]) ?s = ret (head', ns', (fr @ [a]) @ filter (due P ns1) ys,
        ?s\<lparr>tasks := woken ((\<lambda>a. sq_task (the (ns1 a))) ` {a \<in> set ys. due P ns1 a}) (tasks ?s)\<rparr>)"
      "queue ns' head' (xs @ filter (\<lambda>a. \<not> due P ns1 a) ys)" by blast
    moreover have "(\<lambda>b. sq_task (the (ns b))) ` {b \<in> set (a # ys). due P ns b} = insert ?t ((\<lambda>b. sq_task (the (ns b))) ` {b \<in> set ys. due P ns b})"
    proof -
      have "{b \<in> set (a # ys). due P ns b} = insert a {b \<in> set ys. due P ns b}" using True by auto
      then show ?thesis using n(3) by simp
    qed
    moreover have "due P ns1 = due P ns" using same by blast
    ultimately show ?thesis using loop True same(2) by auto
  qed
qed

definition demo_sleepers :: sleepers where
  "demo_sleepers = \<lparr>sleep_lock = \<lparr>sl_flags = 0, sl_mut = False\<rparr>, sleep_time_queue_head = 32768, sleep_reason_queue_head = 0,
     sq_nodes = [32768 \<mapsto> \<lparr>sq_started_at = 10, sq_expires_in = 5, sq_sleep_reason = 1, sq_task = 8192, sq_prev = 0, sq_next = 0\<rparr>],
     sq_freed = [], sl_sched = demo_sched\<rparr>"

subsection \<open>The sleeping lock\<close>

text \<open>
  \<^verbatim>\<open>acquire_lock\<close> and \<^verbatim>\<open>release_lock\<close> of \<^verbatim>\<open>sched/concurrency.c\<close>: a task that finds the lock taken sleeps on \<open>addr\<close> and yields.
  \<open>held i\<close> is what the i-th atomic test-and-set reads.
\<close>

partial_function (option) acquire_lock ::
  "(nat \<Rightarrow> bool) \<Rightarrow> nat \<Rightarrow> u64 \<Rightarrow> u64 \<Rightarrow> u64 \<Rightarrow> u64 \<Rightarrow> sleepers \<Rightarrow> (int \<times> sleepers) res" where
  "acquire_lock held i addr p eoi now w =
     (if held i
      then bind_res (ksleep p now addr w) (\<lambda>w.
        bind_res (yield eoi now (sl_sched w)) (\<lambda>r. acquire_lock held (Suc i) addr p eoi now (w\<lparr>sl_sched := fst r\<rparr>)))
      else ret (1, w))"

definition release_lock :: "u64 \<Rightarrow> sleepers \<Rightarrow> (int \<times> sleepers) res" where
  "release_lock addr w = bind_res (kwakeup addr w) (\<lambda>w. ret (0, w))"

text \<open>A task that has to wait for the lock never gets it, whatever the others do, because of the end of \<^verbatim>\<open>_ksleep\<close>.\<close>

lemma acquire_lock_contended:
  assumes "held 0" and "\<not> sl_mut (sleep_lock w)" and "current_task (sl_sched w) \<noteq> 0" "tasks (sl_sched w) (current_task (sl_sched w)) \<noteq> None"
    and "queue (sq_nodes w) (sleep_reason_queue_head w) as" and "p \<noteq> 0" "p \<notin> set as"
  shows "acquire_lock held 0 addr p eoi now w = None"
  using assms(1) ksleep_never_returns [OF assms(2-7)] by (subst acquire_lock.simps) simp

subsection \<open>Properties\<close>

text \<open>C21: the wake-up handler returns with the lock released; the queue then holds, in order, the sleepers whose time is not over, the others have been freed, and exactly their tasks have become ready if they were uninterruptible.\<close>

theorem sleepers_woken:
  assumes free: "\<not> sl_mut (sleep_lock w)" and q: "queue (sq_nodes w) (sleep_time_queue_head w) as"
    and live: "\<forall>a \<in> set as. tasks (sl_sched w) (sq_task (the (sq_nodes w a))) \<noteq> None"
  shows "\<exists>w'. wakeup_sleepers now w = ret w' \<and>
    queue (sq_nodes w') (sleep_time_queue_head w') (filter (\<lambda>a. \<not> due (expired now) (sq_nodes w) a) as) \<and>
    sq_freed w' = sq_freed w @ filter (due (expired now) (sq_nodes w)) as \<and>
    tasks (sl_sched w') = woken ((\<lambda>a. sq_task (the (sq_nodes w a))) ` {a \<in> set as. due (expired now) (sq_nodes w) a}) (tasks (sl_sched w)) \<and>
    \<not> sl_mut (sleep_lock w')"
proof -
  let ?s = "(sl_sched w)\<lparr>sc_rflags := cli (sc_rflags (sl_sched w))\<rparr>"
  have P: "expired now q = expired now q'" if "payload q = payload q'" for q q' using that by (simp add: payload_def expired_def)
  have c: "chain sq_next (sq_nodes w) (sleep_time_queue_head w) as" using q by (simp add: queue_def)
  have "\<forall>a \<in> set as. due (expired now) (sq_nodes w) a \<longrightarrow> tasks ?s (sq_task (the (sq_nodes w a))) \<noteq> None" using live by simp
  from wake_loop_ok [where P = "expired now" and xs = "[]", OF P _ c this, of "sleep_time_queue_head w" "sq_freed w"] q
  show ?thesis using lock_free [OF free]
    by (auto simp: wakeup_sleepers_def unlock_sleepers_def release_spinlock_eq)
qed

theorem sleepers_woken_witness: "\<exists>w'. wakeup_sleepers 20 demo_sleepers = ret w' \<and> sleep_time_queue_head w' = 0 \<and> sq_freed w' = [32768]"
proof -
  have "\<not> sl_mut (sleep_lock demo_sleepers)" "queue (sq_nodes demo_sleepers) (sleep_time_queue_head demo_sleepers) [32768]"
    "\<forall>a \<in> set [32768]. tasks (sl_sched demo_sleepers) (sq_task (the (sq_nodes demo_sleepers a))) \<noteq> None"
    by (simp_all add: demo_sleepers_def queue_def demo_sched_def)
  from sleepers_woken [OF this, of 20] show ?thesis by (auto simp: demo_sleepers_def due_def expired_def queue_def)
qed

end
