(* ===== verification/Circular_Buffer.thy ===== *)
theory Circular_Buffer
  imports Kernel_Prelude
begin

section \<open>Circular buffers (\<^verbatim>\<open>src/src/util/lists.c\<close>)\<close>

text \<open>
  A byte buffer with a head and a tail offset, both \<open>- 1\<close> when it is empty; a push that does not fit overwrites the
  oldest bytes. The offsets are C \<^verbatim>\<open>int\<close>s that stay between \<open>- 1\<close> and the size. Two sums of an offset and a length
  can leave the range of \<^verbatim>\<open>int\<close> when the size is above \<open>2 ^ 30\<close>, and fault there; the invariant excludes such sizes. The
  lemmas show that the buffer is a queue of the newest bytes and that no copy ever leaves it.
\<close>

subsection \<open>State\<close>

record circularBuffer =
  cb_size :: int
  cb_dataSize :: int
  cb_tailOffset :: int
  cb_headOffset :: int
  cb_buffer :: "u8 list"

text \<open>
  \<^verbatim>\<open>memcpy\<close> into and out of the buffer. A copy that leaves the buffer or its source, or has a negative
  count (a huge \<^verbatim>\<open>uint64_t\<close>), is a fault.
\<close>

definition copy_in :: "int \<Rightarrow> u8 list \<Rightarrow> int \<Rightarrow> u8 list \<Rightarrow> u8 list res" where
  "copy_in off src n buf =
     (if 0 \<le> off \<and> 0 \<le> n \<and> off + n \<le> int (length buf) \<and> n \<le> int (length src)
      then ret (take (nat off) buf @ take (nat n) src @ drop (nat (off + n)) buf) else fault)"

definition copy_out :: "int \<Rightarrow> int \<Rightarrow> u8 list \<Rightarrow> u8 list res" where
  "copy_out off n buf =
     (if 0 \<le> off \<and> 0 \<le> n \<and> off + n \<le> int (length buf)
      then ret (take (nat n) (drop (nat off) buf)) else fault)"

subsection \<open>Operations\<close>

definition CircularBufferReset :: "circularBuffer \<Rightarrow> circularBuffer" where
  "CircularBufferReset c = c\<lparr>cb_headOffset := - 1, cb_tailOffset := - 1, cb_dataSize := 0\<rparr>"

text \<open>The structure as \<^verbatim>\<open>CircularBufferkfree\<close> leaves it for \<^verbatim>\<open>kfree\<close>.\<close>

definition CircularBufferkfree :: "circularBuffer \<Rightarrow> circularBuffer" where
  "CircularBufferkfree c = (CircularBufferReset c)\<lparr>cb_size := 0, cb_dataSize := 0, cb_buffer := []\<rparr>"

text \<open>The new buffer holds whatever bytes \<open>mem\<close> the allocated block had.\<close>

definition CircularBufferCreate :: "int \<Rightarrow> u8 list \<Rightarrow> circularBuffer" where
  "CircularBufferCreate sz mem =
     CircularBufferReset \<lparr>cb_size = sz, cb_dataSize = 0, cb_tailOffset = 0, cb_headOffset = 0, cb_buffer = mem\<rparr>"

definition CircularBufferGetCapacity :: "circularBuffer \<Rightarrow> int" where
  "CircularBufferGetCapacity c = cb_size c"

definition CircularBufferGetSize :: "circularBuffer \<Rightarrow> int" where
  "CircularBufferGetSize c = cb_size c"

definition CircularBufferGetDataSize :: "circularBuffer \<Rightarrow> int" where
  "CircularBufferGetDataSize c = cb_dataSize c"

text \<open>
  \<^verbatim>\<open>CircularBufferPush\<close> after the clipping of the input: the copy, with whether the head was overtaken, and
  then the new head and size.
\<close>

definition push_copy :: "u8 list \<Rightarrow> int \<Rightarrow> circularBuffer \<Rightarrow> (circularBuffer \<times> bool) res" where
  "push_copy pSrc writableLen c =
     (if \<not> int_ok (cb_tailOffset c + writableLen) then fault
      else if cb_tailOffset c + writableLen < cb_size c then
        bind_res (copy_in (cb_tailOffset c + 1) pSrc writableLen (cb_buffer c)) (\<lambda>b.
          ret (c\<lparr>cb_buffer := b, cb_tailOffset := cb_tailOffset c + writableLen\<rparr>,
               cb_tailOffset c < cb_headOffset c \<and> cb_tailOffset c + writableLen \<ge> cb_headOffset c))
      else
        let remainSize = cb_size c - cb_tailOffset c - 1; coverSize = writableLen - remainSize in
        bind_res (copy_in (cb_tailOffset c + 1) pSrc remainSize (cb_buffer c)) (\<lambda>b.
        bind_res (copy_in 0 (drop (nat remainSize) pSrc) coverSize b) (\<lambda>b.
          ret (c\<lparr>cb_buffer := b, cb_tailOffset := coverSize - 1\<rparr>,
               if cb_tailOffset c < cb_headOffset c then True else coverSize > cb_headOffset c))))"

definition push_finish :: "circularBuffer \<Rightarrow> bool \<Rightarrow> circularBuffer" where
  "push_finish c resetHead =
     (let c = (if cb_headOffset c = - 1 then c\<lparr>cb_headOffset := 0\<rparr> else c) in
      if resetHead then
        c\<lparr>cb_headOffset := (if cb_tailOffset c + 1 < cb_size c then cb_tailOffset c + 1 else 0), cb_dataSize := cb_size c\<rparr>
      else if cb_tailOffset c \<ge> cb_headOffset c then
        c\<lparr>cb_dataSize := cb_tailOffset c - cb_headOffset c + 1\<rparr>
      else c\<lparr>cb_dataSize := cb_size c - (cb_headOffset c - cb_tailOffset c - 1)\<rparr>)"

definition CircularBufferPush :: "u8 list \<Rightarrow> int \<Rightarrow> circularBuffer \<Rightarrow> circularBuffer res" where
  "CircularBufferPush src len c =
     (if len = 0 then ret c
      else
        let (writableLen, pSrc) =
          (if len > cb_size c then (cb_size c, drop (nat (len - cb_size c)) src) else (len, src))
        in bind_res (push_copy pSrc writableLen c) (\<lambda>(c, resetHead). ret (push_finish c resetHead)))"

text \<open>
  \<^verbatim>\<open>inter_circularBuffer_read\<close> returns the number of bytes read; \<open>dataOut\<close> says whether the destination
  pointer is not null, and the bytes copied to it are the last component.
\<close>

definition out_bytes :: "bool \<Rightarrow> int \<Rightarrow> int \<Rightarrow> u8 list \<Rightarrow> u8 list res" where
  "out_bytes dataOut off n buf = (if dataOut then copy_out off n buf else ret [])"

definition inter_circularBuffer_read :: "int \<Rightarrow> bool \<Rightarrow> bool \<Rightarrow> circularBuffer \<Rightarrow> (circularBuffer \<times> int \<times> u8 list) res" where
  "inter_circularBuffer_read len dataOut resetHead c =
     (if cb_dataSize c = 0 \<or> len = 0 then ret (c, 0, [])
      else
        let rdLen = (if cb_dataSize c < len then cb_dataSize c else len);
            h = cb_headOffset c; t = cb_tailOffset c in
        bind_res
          (if h \<le> t then
             bind_res (out_bytes dataOut h rdLen (cb_buffer c)) (\<lambda>out.
               ret (if resetHead then (if h + rdLen > t then c\<lparr>cb_headOffset := - 1, cb_tailOffset := - 1\<rparr>
                                       else c\<lparr>cb_headOffset := h + rdLen\<rparr>) else c, out))
           else if \<not> int_ok (h + rdLen) then fault
           else if h + rdLen \<le> cb_size c then
             bind_res (out_bytes dataOut h rdLen (cb_buffer c)) (\<lambda>out.
               ret (if resetHead then c\<lparr>cb_headOffset := (if h + rdLen = cb_size c then 0 else h + rdLen)\<rparr> else c, out))
           else
             let frg1Len = cb_size c - h; frg2len = rdLen - frg1Len in
             bind_res (out_bytes dataOut h frg1Len (cb_buffer c)) (\<lambda>out1.
             bind_res (out_bytes dataOut 0 frg2len (cb_buffer c)) (\<lambda>out2.
               ret (if resetHead then (if frg2len > t then c\<lparr>cb_headOffset := - 1, cb_tailOffset := - 1\<rparr>
                                       else c\<lparr>cb_headOffset := frg2len\<rparr>) else c, out1 @ out2))))
          (\<lambda>(c, out). ret (if resetHead then c\<lparr>cb_dataSize := cb_dataSize c - rdLen\<rparr> else c, rdLen, out)))"

definition CircularBufferPop :: "int \<Rightarrow> bool \<Rightarrow> circularBuffer \<Rightarrow> (circularBuffer \<times> int \<times> u8 list) res" where
  "CircularBufferPop len dataOut c = inter_circularBuffer_read len dataOut True c"

definition CircularBufferRead :: "int \<Rightarrow> bool \<Rightarrow> circularBuffer \<Rightarrow> (circularBuffer \<times> int \<times> u8 list) res" where
  "CircularBufferRead len dataOut c = inter_circularBuffer_read len dataOut False c"

subsection \<open>Contents and invariant\<close>

definition cb_inv :: "circularBuffer \<Rightarrow> bool" where
  "cb_inv c \<longleftrightarrow> 0 < cb_size c \<and> cb_size c \<le> 0x40000000 \<and> int (length (cb_buffer c)) = cb_size c \<and>
     (cb_headOffset c = - 1 \<and> cb_tailOffset c = - 1 \<and> cb_dataSize c = 0 \<or>
      0 \<le> cb_headOffset c \<and> cb_headOffset c < cb_size c \<and> 0 \<le> cb_tailOffset c \<and> cb_tailOffset c < cb_size c \<and>
      cb_dataSize c = (if cb_headOffset c \<le> cb_tailOffset c then cb_tailOffset c - cb_headOffset c + 1
                       else cb_size c - (cb_headOffset c - cb_tailOffset c - 1)))"

definition cb_contents :: "circularBuffer \<Rightarrow> u8 list" where
  "cb_contents c =
     (if cb_dataSize c = 0 then []
      else if cb_headOffset c \<le> cb_tailOffset c
      then drop (nat (cb_headOffset c)) (take (nat (cb_tailOffset c + 1)) (cb_buffer c))
      else drop (nat (cb_headOffset c)) (cb_buffer c) @ take (nat (cb_tailOffset c + 1)) (cb_buffer c))"

definition last_n :: "nat \<Rightarrow> 'a list \<Rightarrow> 'a list" where
  "last_n n xs = drop (length xs - n) xs"

lemma last_n_append: "last_n n (xs @ ys) = last_n n (xs @ last_n n ys)"
  by (cases "length ys \<le> n") (auto simp: last_n_def)

lemma last_n_short: "length xs \<le> n \<Longrightarrow> last_n n xs = xs"
  by (simp add: last_n_def)

text \<open>What a push leaves in the buffer, for every position of head and tail, over natural numbers.\<close>

lemma contents_length: "cb_inv c \<Longrightarrow> int (length (cb_contents c)) = cb_dataSize c"
  by (auto simp: cb_inv_def cb_contents_def)

definition pushed :: "circularBuffer \<Rightarrow> u8 list \<Rightarrow> circularBuffer res \<Rightarrow> bool" where
  "pushed c S r \<longleftrightarrow> (\<exists>c'. r = ret c' \<and> cb_inv c' \<and> cb_size c' = cb_size c \<and>
     cb_contents c' = last_n (nat (cb_size c)) (cb_contents c @ S))"

definition push_rest :: "u8 list \<Rightarrow> int \<Rightarrow> circularBuffer \<Rightarrow> circularBuffer res" where
  "push_rest pSrc n c = bind_res (push_copy pSrc n c) (\<lambda>(c, resetHead). ret (push_finish c resetHead))"

lemma push_empty:
  assumes "cb_inv c" and "cb_headOffset c = - 1" and w: "0 < w" "int w \<le> cb_size c" "w \<le> length src"
  shows "pushed c (take w src) (push_rest src (int w) c)"
proof -
  obtain N where N: "cb_size c = int N" using assms(1) by (metis cb_inv_def int_ops(1) nat_0_le order_less_imp_le)
  show ?thesis using assms N
    by (auto simp: pushed_def push_rest_def push_copy_def copy_in_def push_finish_def cb_inv_def cb_contents_def last_n_def int_ok_def)
qed

lemma push_fit:
  assumes inv: "cb_inv c" and pos: "cb_headOffset c = int H" "cb_tailOffset c = int T" "cb_size c = int N"
    and w: "0 < w" "w \<le> length src" and fit: "T + w < N"
  shows "pushed c (take w src) (push_rest src (int w) c)"
proof -
  let ?B = "take (Suc T) (cb_buffer c) @ take w src @ drop (Suc (T + w)) (cb_buffer c)" and ?r = "T < H \<and> H \<le> T + w"
  have len: "length (cb_buffer c) = N" "H < N" "N \<le> 0x40000000" using inv pos by (auto simp: cb_inv_def)
  have i: "nat (int T + 1) = Suc T" "nat (int T + int w + 1) = Suc (T + w)" "nat (int T + 1 + int w) = Suc (T + w)" by simp_all
  have "push_copy src (int w) c = ret (c\<lparr>cb_buffer := ?B, cb_tailOffset := int (T + w)\<rparr>, ?r)"
    using w len fit by (auto simp: push_copy_def copy_in_def pos i int_ok_def)
  then have r: "push_rest src (int w) c = ret (push_finish (c\<lparr>cb_buffer := ?B, cb_tailOffset := int (T + w)\<rparr>) ?r)"
    by (simp add: push_rest_def)
  let ?c = "push_finish (c\<lparr>cb_buffer := ?B, cb_tailOffset := int (T + w)\<rparr>) ?r"
  have B: "length ?B = N" using w len fit by simp
  have "cb_size ?c = cb_size c" by (simp add: push_finish_def Let_def)
  moreover have "cb_inv ?c"
  proof (cases ?r)
    case True
    with w len pos fit B show ?thesis by (simp add: push_finish_def cb_inv_def Let_def)
  next
    case False
    show ?thesis
    proof (cases "H \<le> T")
      case True
      with w len pos fit B show ?thesis by (simp add: push_finish_def cb_inv_def Let_def)
    next
      case H: False
      then have "T + w < H" using False by simp
      with w len pos fit B show ?thesis by (simp add: push_finish_def cb_inv_def Let_def)
    qed
  qed
  moreover have "cb_contents ?c = last_n N (cb_contents c @ take w src)"
  proof (cases ?r)
    case True
    then have "cb_contents ?c = drop (Suc (T + w)) ?B @ take (Suc (T + w)) ?B"
      using w len pos fit i(2) by (auto simp: push_finish_def cb_contents_def Let_def)
    also have "\<dots> = drop (Suc (T + w)) (cb_buffer c) @ take (Suc T) (cb_buffer c) @ take w src" using w len fit by simp
    also have "\<dots> = last_n N (cb_contents c @ take w src)"
      using True w len pos inv fit i(1) by (auto simp: cb_contents_def last_n_def cb_inv_def)
    finally show ?thesis .
  next
    case False
    have "cb_dataSize c \<noteq> 0" using inv pos by (auto simp: cb_inv_def split: if_splits)
    have "cb_contents ?c = cb_contents c @ take w src"
    proof (cases "H \<le> T")
      case True
      with \<open>cb_dataSize c \<noteq> 0\<close> w len pos fit i show ?thesis by (simp add: push_finish_def cb_contents_def Let_def)
    next
      case H: False
      with False \<open>cb_dataSize c \<noteq> 0\<close> w len pos fit i show ?thesis by (simp add: push_finish_def cb_contents_def Let_def)
    qed
    moreover have "length (cb_contents c @ take w src) \<le> N"
      using False contents_length [OF inv] inv pos w fit by (auto simp: cb_inv_def)
    ultimately show ?thesis by (simp add: last_n_short)
  qed
  ultimately show ?thesis using r pos(3) unfolding pushed_def by (simp only: nat_int) blast
qed

lemma push_over:
  assumes inv: "cb_inv c" and pos: "cb_headOffset c = int H" "cb_tailOffset c = int T" "cb_size c = int (Suc (T + R))"
    and w: "R + C \<le> length src" "0 < C" "C \<le> Suc T"
  shows "pushed c (take (R + C) src) (push_rest src (int (R + C)) c)"
proof -
  let ?B = "take C (drop R src) @ drop C (take (Suc T) (cb_buffer c)) @ take R src"
  have len: "length (cb_buffer c) = Suc (T + R)" "H < Suc (T + R)" "Suc (T + R) \<le> 0x40000000" using inv pos by (auto simp: cb_inv_def)
  have "push_copy src (int (R + C)) c = ret (c\<lparr>cb_buffer := ?B, cb_tailOffset := int C - 1\<rparr>, T < H \<or> H < C)"
    using w len by (auto simp: push_copy_def copy_in_def pos nat_add_distrib Let_def int_ok_def)
  then have r: "push_rest src (int (R + C)) c = ret (push_finish (c\<lparr>cb_buffer := ?B, cb_tailOffset := int C - 1\<rparr>) (T < H \<or> H < C))"
    by (simp add: push_rest_def)
  have S: "take (R + C) src = take R src @ take C (drop R src)" by (simp add: take_add)
  let ?c = "push_finish (c\<lparr>cb_buffer := ?B, cb_tailOffset := int C - 1\<rparr>) (T < H \<or> H < C)"
  have B: "length ?B = Suc (T + R)" using w len by simp
  have "cb_size ?c = cb_size c" by (simp add: push_finish_def Let_def)
  moreover have "cb_inv ?c"
  proof (cases "T < H \<or> H < C")
    case True
    with w len pos B show ?thesis by (simp add: push_finish_def cb_inv_def Let_def)
  next
    case False
    with w len pos B show ?thesis by (simp add: push_finish_def cb_inv_def Let_def)
  qed
  moreover have "cb_contents ?c = last_n (Suc (T + R)) (cb_contents c @ take (R + C) src)"
  proof (cases "T < H \<or> H < C")
    case True
    then have "cb_contents ?c = drop C ?B @ take C ?B"
      using w len pos by (auto simp: push_finish_def cb_contents_def Let_def)
    also have "\<dots> = drop C (take (Suc T) (cb_buffer c)) @ take R src @ take C (drop R src)" using w by simp
    also have "\<dots> = last_n (Suc (T + R)) (cb_contents c @ take (R + C) src)"
    proof (cases "T < H")
      case True
      then have "cb_contents c = drop H (cb_buffer c) @ take (Suc T) (cb_buffer c)"
        using pos inv by (auto simp: cb_contents_def cb_inv_def nat_add_distrib)
      moreover have "Suc (T + R) - H + Suc T + (R + C) - Suc (T + R) = (Suc (T + R) - H) + C" using True len(2) by simp
      ultimately show ?thesis unfolding S using w len by (simp add: last_n_def)
    next
      case False
      then have "cb_contents c = drop H (take (Suc T) (cb_buffer c))" "H < C"
        using pos inv True by (auto simp: cb_contents_def cb_inv_def nat_add_distrib)
      then show ?thesis unfolding S using w len False by (simp add: last_n_def)
    qed
    finally show ?thesis .
  next
    case False
    then have "cb_contents ?c = drop H ?B @ take C ?B"
      using w len pos by (auto simp: push_finish_def cb_contents_def Let_def)
    also have "\<dots> = drop H (take (Suc T) (cb_buffer c)) @ take R src @ take C (drop R src)" using False w len by simp
    also have "drop H (take (Suc T) (cb_buffer c)) = cb_contents c"
      using pos inv False by (auto simp: cb_contents_def cb_inv_def nat_add_distrib)
    also have "cb_contents c @ take R src @ take C (drop R src) = last_n (Suc (T + R)) (cb_contents c @ take (R + C) src)"
      unfolding S using contents_length [OF inv] inv pos w False
      by (intro last_n_short [symmetric]) (simp add: cb_inv_def)
    finally show ?thesis .
  qed
  ultimately show ?thesis using r pos(3) unfolding pushed_def by (simp only: nat_int) blast
qed

lemma contents_fit:
  assumes "cb_inv c"
  shows "length (cb_contents c) \<le> nat (cb_size c)"
proof -
  have "cb_dataSize c \<le> cb_size c" using assms by (auto simp: cb_inv_def)
  then show ?thesis using contents_length [OF assms] by linarith
qed

lemma push_ok:
  assumes inv: "cb_inv c" and len: "n \<le> length src"
  shows "pushed c (take n src) (CircularBufferPush src (int n) c)"
proof (cases "n = 0")
  case True
  then show ?thesis using inv contents_fit [OF inv]
    by (simp add: pushed_def CircularBufferPush_def last_n_short)
next
  case False
  obtain N where N: "cb_size c = int N" "0 < N" using inv by (metis cb_inv_def int_ops(1) nat_0_le order_less_imp_le of_nat_less_iff)
  define w where "w = (if N < n then N else n)"
  define pSrc where "pSrc = (if N < n then drop (n - N) src else src)"
  have w: "0 < w" "w \<le> N" "w \<le> length pSrc" using False N len by (auto simp: w_def pSrc_def)
  have push: "CircularBufferPush src (int n) c = push_rest pSrc (int w) c"
    using False N by (auto simp: CircularBufferPush_def push_rest_def w_def pSrc_def nat_diff_distrib)
  have "take w pSrc = last_n N (take n src)" using len by (auto simp: w_def pSrc_def last_n_def take_drop)
  then have src: "last_n N (cb_contents c @ take w pSrc) = last_n N (cb_contents c @ take n src)" by (simp add: last_n_append [symmetric])
  have "pushed c (take w pSrc) (push_rest pSrc (int w) c)"
  proof (cases "cb_headOffset c = - 1")
    case True
    then show ?thesis using push_empty [OF inv _ w(1) _ w(3)] w(2) N by simp
  next
    case head: False
    then obtain H T where H: "cb_headOffset c = int H" "cb_tailOffset c = int T" "T < N"
      using inv N by (metis cb_inv_def nonneg_int_cases of_nat_less_iff)
    show ?thesis
    proof (cases "T + w < N")
      case True
      then show ?thesis by (rule push_fit [OF inv H(1,2) N(1) w(1,3)])
    next
      case over: False
      obtain R where R: "N = Suc (T + R)" using H(3) less_iff_Suc_add by auto
      define C where "C = w - R"
      have C: "w = R + C" "0 < C" "C \<le> Suc T" using R over w(2) by (auto simp: C_def)
      show ?thesis unfolding C(1) by (rule push_over [OF inv H(1,2)]) (use N R C w in auto)
    qed
  qed
  then show ?thesis using src N unfolding pushed_def push by simp
qed

definition reads :: "circularBuffer \<Rightarrow> nat \<Rightarrow> bool \<Rightarrow> bool \<Rightarrow> (circularBuffer \<times> int \<times> u8 list) res \<Rightarrow> bool" where
  "reads c n dataOut resetHead r \<longleftrightarrow> (\<exists>c'. r = ret (c', int (min n (length (cb_contents c))), if dataOut then take n (cb_contents c) else []) \<and>
    (if resetHead then cb_inv c' \<and> cb_size c' = cb_size c \<and> cb_contents c' = drop n (cb_contents c) else c' = c))"

lemma read_none:
  assumes "cb_inv c" and "cb_dataSize c = 0 \<or> n = 0"
  shows "reads c n dataOut resetHead (inter_circularBuffer_read (int n) dataOut resetHead c)"
proof -
  have "inter_circularBuffer_read (int n) dataOut resetHead c = ret (c, 0, [])"
    using assms(2) by (auto simp: inter_circularBuffer_read_def)
  moreover have "n = 0 \<or> cb_contents c = []" using assms(2) by (auto simp: cb_contents_def)
  ultimately show ?thesis using assms(1) by (auto simp: reads_def)
qed

lemma read_plain:
  assumes inv: "cb_inv c" and pos: "cb_headOffset c = int H" "cb_tailOffset c = int T" "cb_size c = int N"
    and HT: "H \<le> T" and n: "0 < n" "n \<le> length (cb_contents c)"
  shows "reads c n dataOut resetHead (inter_circularBuffer_read (int n) dataOut resetHead c)"
proof -
  let ?c = "if int H + int n > int T then c\<lparr>cb_headOffset := - 1, cb_tailOffset := - 1, cb_dataSize := cb_dataSize c - int n\<rparr>
    else c\<lparr>cb_headOffset := int (H + n), cb_dataSize := cb_dataSize c - int n\<rparr>"
  have ds: "cb_dataSize c = int (Suc T - H)" "T < N" "length (cb_buffer c) = N" using inv pos HT by (auto simp: cb_inv_def)
  then have X: "cb_contents c = drop H (take (Suc T) (cb_buffer c))" using pos HT by (simp add: cb_contents_def nat_add_distrib)
  have n': "n \<le> Suc T - H" "H + n \<le> Suc T" using n ds X HT by simp_all
  have out: "out_bytes dataOut (int H) (int n) (cb_buffer c) = ret (if dataOut then take n (cb_contents c) else [])"
    using n' ds HT X by (auto simp: out_bytes_def copy_out_def take_drop min_def)
  have "inter_circularBuffer_read (int n) dataOut resetHead c =
      ret (if resetHead then ?c else c, int n, if dataOut then take n (cb_contents c) else [])"
    using n n' ds HT out by (simp add: inter_circularBuffer_read_def pos Let_def)
  moreover have "cb_inv ?c" using n' ds inv pos HT by (simp add: cb_inv_def)
  moreover have "cb_contents ?c = drop n (cb_contents c)"
    unfolding X using n' ds pos HT by (simp add: cb_contents_def nat_add_distrib add.commute)
  moreover have "cb_size ?c = cb_size c" by simp
  ultimately show ?thesis using n unfolding reads_def by simp
qed

lemma read_wrapped:
  assumes inv: "cb_inv c" and pos: "cb_headOffset c = int H" "cb_tailOffset c = int T" "cb_size c = int N"
    and HT: "T < H" and n: "0 < n" "n \<le> length (cb_contents c)"
  shows "reads c n dataOut resetHead (inter_circularBuffer_read (int n) dataOut resetHead c)"
proof -
  have ds: "cb_dataSize c = int (N - H + Suc T)" "H < N" "length (cb_buffer c) = N" "N \<le> 0x40000000"
    using inv pos HT by (auto simp: cb_inv_def)
  then have X: "cb_contents c = drop H (cb_buffer c) @ take (Suc T) (cb_buffer c)" using pos HT by (simp add: cb_contents_def nat_add_distrib)
  have n': "n \<le> N - H + Suc T" using n ds HT X by simp
  have ok: "int_ok (int H + int n)" using n' ds HT by (simp add: int_ok_def)
  show ?thesis
  proof (cases "H + n \<le> N")
    case True
    let ?c = "c\<lparr>cb_headOffset := (if H + n = N then 0 else int (H + n)), cb_dataSize := cb_dataSize c - int n\<rparr>"
    have out: "out_bytes dataOut (int H) (int n) (cb_buffer c) = ret (if dataOut then take n (cb_contents c) else [])"
      using True ds X by (simp add: out_bytes_def copy_out_def)
    have "inter_circularBuffer_read (int n) dataOut resetHead c =
        ret (if resetHead then ?c else c, int n, if dataOut then take n (cb_contents c) else [])"
      using n n' ds HT out True ok by (simp add: inter_circularBuffer_read_def pos Let_def)
    moreover have "cb_inv ?c" using True ds inv pos HT by (simp add: cb_inv_def)
    moreover have "cb_contents ?c = drop n (cb_contents c)"
      unfolding X using True ds pos HT by (simp add: cb_contents_def nat_add_distrib add.commute)
    moreover have "cb_size ?c = cb_size c" by simp
    ultimately show ?thesis using n unfolding reads_def by simp
  next
    case False
    define k m where "k = N - H" and "m = n - k"
    have N: "N = H + k" "n = k + m" "m \<le> Suc T" "0 < m" using False ds(2) n' by (auto simp: k_def m_def)
    let ?c = "if int m > int T then c\<lparr>cb_headOffset := - 1, cb_tailOffset := - 1, cb_dataSize := cb_dataSize c - int n\<rparr>
      else c\<lparr>cb_headOffset := int m, cb_dataSize := cb_dataSize c - int n\<rparr>"
    have out: "out_bytes dataOut (int H) (int k) (cb_buffer c) = ret (if dataOut then drop H (cb_buffer c) else [])"
      "out_bytes dataOut 0 (int m) (cb_buffer c) = ret (if dataOut then take m (cb_buffer c) else [])"
      using N ds(2,3) HT by (simp_all add: out_bytes_def copy_out_def)
    have t: "take n (cb_contents c) = drop H (cb_buffer c) @ take m (cb_buffer c)" unfolding X using N ds(3) by (simp add: min_def)
    have "inter_circularBuffer_read (int n) dataOut resetHead c =
        ret (if resetHead then ?c else c, int n, if dataOut then take n (cb_contents c) else [])"
      using n n' ds HT out N ok by (simp add: inter_circularBuffer_read_def pos Let_def t [unfolded N(2)])
    moreover have "cb_inv ?c" using ds inv pos HT N by (simp add: cb_inv_def)
    moreover have "cb_contents ?c = drop n (cb_contents c)"
      unfolding X using ds pos HT N by (simp add: cb_contents_def nat_add_distrib)
    moreover have "cb_size ?c = cb_size c" by simp
    ultimately show ?thesis using n unfolding reads_def by simp
  qed
qed

lemma read_ok:
  assumes inv: "cb_inv c"
  shows "reads c n dataOut resetHead (inter_circularBuffer_read (int n) dataOut resetHead c)"
proof (cases "cb_dataSize c = 0 \<or> n = 0")
  case True
  then show ?thesis by (rule read_none [OF inv])
next
  case False
  then obtain H T N where pos: "cb_headOffset c = int H" "cb_tailOffset c = int T" "cb_size c = int N"
    using inv by (metis cb_inv_def nonneg_int_cases order_less_imp_le)
  define r where "r = min n (length (cb_contents c))"
  have ds: "cb_dataSize c = int (length (cb_contents c))" using contents_length [OF inv] by simp
  have r: "0 < r" "r \<le> length (cb_contents c)" using False ds by (auto simp: r_def)
  have "reads c r dataOut resetHead (inter_circularBuffer_read (int r) dataOut resetHead c)"
    by (cases "H \<le> T") (use read_plain [OF inv pos _ r] read_wrapped [OF inv pos _ r] in auto)
  moreover have "inter_circularBuffer_read (int r) dataOut resetHead c = inter_circularBuffer_read (int n) dataOut resetHead c"
    using False ds r by (auto simp: inter_circularBuffer_read_def r_def min_def)
  moreover have "take r (cb_contents c) = take n (cb_contents c)" "drop r (cb_contents c) = drop n (cb_contents c)"
    by (auto simp: r_def min_def)
  ultimately show ?thesis by (auto simp: reads_def r_def)
qed

subsection \<open>Byte queues\<close>

text \<open>
  What the clients of a bounded byte queue rely on: a push keeps the newest bytes that fit, a pop
  takes the oldest ones. \<open>queue_run\<close> runs a sequence of both and collects the bytes popped;
  \<open>queue_spec\<close> is the same sequence on a list.
\<close>

datatype queue_op = Push "u8 list" | Pop nat

fun queue_run :: "(u8 list \<Rightarrow> 's \<Rightarrow> 's res) \<Rightarrow> (nat \<Rightarrow> 's \<Rightarrow> ('s \<times> u8 list) res) \<Rightarrow> queue_op list \<Rightarrow> 's \<Rightarrow> u8 list \<Rightarrow> ('s \<times> u8 list) res" where
  "queue_run push pop [] s out = ret (s, out)"
| "queue_run push pop (Push bs # ops) s out = bind_res (push bs s) (\<lambda>s. queue_run push pop ops s out)"
| "queue_run push pop (Pop n # ops) s out = bind_res (pop n s) (\<lambda>(s, bs). queue_run push pop ops s (out @ bs))"

fun queue_spec :: "nat \<Rightarrow> queue_op list \<Rightarrow> u8 list \<Rightarrow> u8 list \<Rightarrow> u8 list \<times> u8 list" where
  "queue_spec N [] xs out = (xs, out)"
| "queue_spec N (Push bs # ops) xs out = queue_spec N ops (last_n N (xs @ bs)) out"
| "queue_spec N (Pop n # ops) xs out = queue_spec N ops (drop n xs) (out @ take n xs)"

text \<open>The lengths of both are C \<^verbatim>\<open>int\<close>s.\<close>

fun op_fits :: "queue_op \<Rightarrow> bool" where
  "op_fits (Push bs) \<longleftrightarrow> int_ok (int (length bs))"
| "op_fits (Pop n) \<longleftrightarrow> int_ok (int n)"

locale byte_queue =
  fixes inv :: "nat \<Rightarrow> 's \<Rightarrow> bool" and contents :: "'s \<Rightarrow> u8 list"
    and push :: "u8 list \<Rightarrow> 's \<Rightarrow> 's res" and pop :: "nat \<Rightarrow> 's \<Rightarrow> ('s \<times> u8 list) res"
  assumes push_law: "inv N s \<Longrightarrow> int_ok (int (length bs)) \<Longrightarrow> \<exists>s'. push bs s = ret s' \<and> inv N s' \<and> contents s' = last_n N (contents s @ bs)"
    and pop_law: "inv N s \<Longrightarrow> int_ok (int n) \<Longrightarrow> \<exists>s'. pop n s = ret (s', take n (contents s)) \<and> inv N s' \<and> contents s' = drop n (contents s)"
begin

lemma run_refines:
  assumes "inv N s" and "\<forall>x \<in> set ops. op_fits x"
  shows "\<exists>s'. queue_run push pop ops s out = ret (s', snd (queue_spec N ops (contents s) out)) \<and> inv N s' \<and>
    contents s' = fst (queue_spec N ops (contents s) out)"
  using assms
proof (induction ops arbitrary: s out)
  case (Cons x ops)
  show ?case
  proof (cases x)
    case (Push bs)
    with push_law [OF Cons.prems(1), of bs] Cons.IH Cons.prems(2) show ?thesis by fastforce
  next
    case (Pop n)
    with pop_law [OF Cons.prems(1), of n] Cons.IH Cons.prems(2) show ?thesis by fastforce
  qed
qed simp

end

definition cb_push :: "u8 list \<Rightarrow> circularBuffer \<Rightarrow> circularBuffer res" where
  "cb_push bs c = CircularBufferPush bs (int (length bs)) c"

definition cb_pop :: "nat \<Rightarrow> circularBuffer \<Rightarrow> (circularBuffer \<times> u8 list) res" where
  "cb_pop n c = bind_res (CircularBufferPop (int n) True c) (\<lambda>(c, k, out). ret (c, out))"

definition cb_holds :: "nat \<Rightarrow> circularBuffer \<Rightarrow> bool" where
  "cb_holds N c \<longleftrightarrow> cb_inv c \<and> cb_size c = int N"

interpretation circular: byte_queue cb_holds cb_contents cb_push cb_pop
proof
  show "\<exists>s'. cb_push bs s = ret s' \<and> cb_holds N s' \<and> cb_contents s' = last_n N (cb_contents s @ bs)" if "cb_holds N s" for N s bs
    using push_ok [of s "length bs" bs] that by (auto simp: cb_holds_def cb_push_def pushed_def)
  show "\<exists>s'. cb_pop n s = ret (s', take n (cb_contents s)) \<and> cb_holds N s' \<and> cb_contents s' = drop n (cb_contents s)"
    if "cb_holds N s" for N s n
    using read_ok [of s n True True] that by (auto simp: cb_holds_def cb_pop_def CircularBufferPop_def reads_def)
qed

subsection \<open>Properties\<close>

text \<open>C15: over any sequence of pushes and pops, with lengths that are C \<^verbatim>\<open>int\<close>s, a circular buffer of at most \<open>2 ^ 30\<close> bytes
  behaves as a queue that keeps the newest bytes that fit: no copy leaves the buffer, the pops return the oldest bytes, and
  the invariant of the offsets is kept. (Above \<open>2 ^ 30\<close> bytes the sum of the tail offset and a length can overflow.)\<close>

theorem circular_buffer_refines:
  assumes "cb_inv c" and "\<forall>x \<in> set ops. op_fits x"
  shows "\<exists>c'. queue_run cb_push cb_pop ops c [] = ret (c', snd (queue_spec (nat (cb_size c)) ops (cb_contents c) [])) \<and>
    cb_inv c' \<and> cb_contents c' = fst (queue_spec (nat (cb_size c)) ops (cb_contents c) [])"
proof -
  have "cb_holds (nat (cb_size c)) c" using assms(1) by (simp add: cb_holds_def cb_inv_def)
  from circular.run_refines [OF this assms(2), of "[]"] show ?thesis by (auto simp: cb_holds_def)
qed

theorem circular_buffer_refines_witness:
  "\<exists>c. queue_run cb_push cb_pop [Push [1, 2, 3], Pop 1, Push [4, 5, 6], Pop 2] (CircularBufferCreate 4 [0, 0, 0, 0]) [] = ret (c, [1, 3, 4]) \<and>
     cb_contents c = [5, 6]"
proof -
  have i: "cb_inv (CircularBufferCreate 4 [0, 0, 0, 0])" by (simp add: CircularBufferCreate_def CircularBufferReset_def cb_inv_def)
  have "cb_contents (CircularBufferCreate 4 [0, 0, 0, 0]) = []" "cb_size (CircularBufferCreate 4 [0, 0, 0, 0]) = 4"
    by (simp_all add: CircularBufferCreate_def CircularBufferReset_def cb_contents_def)
  with circular_buffer_refines [OF i, of "[Push [1, 2, 3], Pop 1, Push [4, 5, 6], Pop 2]"] show ?thesis by (auto simp: last_n_def int_ok_def)
qed

text \<open>The bound is needed: a push that fills a buffer of more than \<open>2 ^ 30\<close> bytes whose tail is at its end faults.\<close>

lemma push_overflows:
  assumes "cb_size c = 0x40000001" and "cb_tailOffset c = 0x40000000" and "length src = nat 0x40000001"
  shows "CircularBufferPush src 0x40000001 c = fault"
  using assms by (simp add: CircularBufferPush_def push_copy_def int_ok_def)

end
