(* ===== verification/Line_Discipline.thy ===== *)
theory Line_Discipline
  imports Circular_Buffer Strings
begin

section \<open>The line discipline of the terminals\<close>

text \<open>
  \<^verbatim>\<open>drivers/tty/ld/line_discipline.c\<close>: the cyclic edit buffer, the table of control characters with its actions, and the reading of
  characters in raw and canonical mode. Every function of the file first returns when it is called with a null pointer; the model
  takes the structure itself. What the echo and flush callbacks and the messages receive is a list of events.
  The lemmas show that reading a character edits the line that the buffer holds, that a typed line is flushed as it was typed, and
  where the indices leave the buffer.
\<close>

subsection \<open>State\<close>

definition LINE_DISCIPLINE_MODE_RAW :: int where "LINE_DISCIPLINE_MODE_RAW = 0"

definition LINE_DISCIPLINE_MODE_CANONICAL :: int where "LINE_DISCIPLINE_MODE_CANONICAL = 1"

definition LINE_DISCIPLINE_MODE_ECHO_ON :: int where "LINE_DISCIPLINE_MODE_ECHO_ON = 0"

definition LINE_DISCIPLINE_MODE_ECHO_OFF :: int where "LINE_DISCIPLINE_MODE_ECHO_OFF = 1"

definition LD_NULL :: u8 where "LD_NULL = 0"

definition LD_DEL :: u8 where "LD_DEL = 127"

definition LD_INSERT_SIZE :: nat where "LD_INSERT_SIZE = 4"

definition LD_OUTPUT_SIZE :: nat where "LD_OUTPUT_SIZE = 4"

lemmas ld_modes = LINE_DISCIPLINE_MODE_RAW_def LINE_DISCIPLINE_MODE_CANONICAL_def LINE_DISCIPLINE_MODE_ECHO_ON_def
  LINE_DISCIPLINE_MODE_ECHO_OFF_def

text \<open>
  What a call tells the outside: a character passed to the echo callback, a span of the buffer or a single character passed to the
  flush callback, or a message.
\<close>

datatype ld_event = Echo u8 | Flush int int | Flush_char u8 | Print string

record line_discipline =
  ld_mode :: int
  ld_echo :: int
  ld_valid :: int
  ld_buffer :: "u8 list"
  ld_size :: int
  ld_head :: int
  ld_tail :: int
  ld_has_echo_cb :: bool

type_synonym ld_handler = "line_discipline \<Rightarrow> u8 \<Rightarrow> (line_discipline \<times> ld_event list) res"

record line_discipline_action_table_entry =
  e_output :: "u8 list"
  e_inserti :: "u8 list"
  e_inserto :: "u8 list"
  e_action :: ld_handler

text \<open>The remainder of C, which has the sign of the dividend.\<close>

definition c_rem :: "int \<Rightarrow> int \<Rightarrow> int" where
  "c_rem a b = sgn a * (\<bar>a\<bar> mod \<bar>b\<bar>)"

subsection \<open>The buffer\<close>

text \<open>The address \<open>buf\<close> of the buffer is null when its allocation failed; its contents are then of no interest.\<close>

definition line_discipline_create :: "int \<Rightarrow> int \<Rightarrow> int \<Rightarrow> u64 \<Rightarrow> u8 list \<Rightarrow> bool \<Rightarrow> line_discipline option" where
  "line_discipline_create mode echo buffer_size buf contents has_echo_cb =
     (if buf = 0 then None
      else Some \<lparr>ld_mode = (if mode = LINE_DISCIPLINE_MODE_RAW \<or> mode = LINE_DISCIPLINE_MODE_CANONICAL then mode
                           else LINE_DISCIPLINE_MODE_CANONICAL),
                 ld_echo = (if echo = LINE_DISCIPLINE_MODE_ECHO_ON \<or> echo = LINE_DISCIPLINE_MODE_ECHO_OFF then echo
                           else LINE_DISCIPLINE_MODE_ECHO_ON),
                 ld_valid = 1, ld_buffer = contents, ld_size = buffer_size, ld_head = 0, ld_tail = 0, ld_has_echo_cb = has_echo_cb\<rparr>)"

text \<open>The addresses \<^verbatim>\<open>line_discipline_destroy\<close> frees.\<close>

definition line_discipline_destroy :: "u64 \<Rightarrow> u64 \<Rightarrow> u64 list" where
  "line_discipline_destroy ld buf = (if ld = 0 then [] else (if buf \<noteq> 0 then [buf] else []) @ [ld])"

definition line_discipline_delete_last :: "line_discipline \<Rightarrow> line_discipline res" where
  "line_discipline_delete_last ld =
     (if ld_valid ld = 0 then ret ld
      else if ld_tail ld = ld_head ld then ret ld
      else if ld_size ld = 0 then fault
      else ret (ld\<lparr>ld_tail := c_rem (ld_tail ld - 1) (ld_size ld)\<rparr>))"

definition line_discipline_insert :: "line_discipline \<Rightarrow> u8 \<Rightarrow> line_discipline res" where
  "line_discipline_insert ld c =
     (if ld_valid ld = 0 then ret ld
      else if c = LD_NULL then ret ld
      else if \<not> (0 \<le> ld_tail ld \<and> nat (ld_tail ld) < length (ld_buffer ld)) \<or> ld_size ld = 0 then fault
      else let tail = c_rem (ld_tail ld + 1) (ld_size ld) in
        ret (ld\<lparr>ld_buffer := (ld_buffer ld)[nat (ld_tail ld) := c], ld_tail := tail,
               ld_head := (if tail = ld_head ld then c_rem (ld_head ld + 1) (ld_size ld) else ld_head ld)\<rparr>))"

definition line_discipline_force_flush :: "line_discipline \<Rightarrow> (line_discipline \<times> ld_event list) res" where
  "line_discipline_force_flush ld =
     (if ld_valid ld \<noteq> 1 then ret (ld, [])
      else if ld_mode ld = LINE_DISCIPLINE_MODE_CANONICAL then
        if ld_size ld = 0 then fault
        else ret (ld\<lparr>ld_head := ld_tail ld\<rparr>,
               [Flush (ld_head ld) (c_rem (ld_tail ld - ld_head ld + ld_size ld) (ld_size ld))])
      else ret (ld, []))"

definition line_discipline_set_mode :: "line_discipline \<Rightarrow> int \<Rightarrow> line_discipline" where
  "line_discipline_set_mode ld mode =
     (if ld_valid ld = 1 then
        if mode = LINE_DISCIPLINE_MODE_RAW \<or> mode = LINE_DISCIPLINE_MODE_CANONICAL then ld\<lparr>ld_mode := mode\<rparr> else ld
      else ld)"

definition line_discipline_set_echo :: "line_discipline \<Rightarrow> int \<Rightarrow> line_discipline" where
  "line_discipline_set_echo ld echo =
     (if ld_valid ld = 1 then
        if echo = LINE_DISCIPLINE_MODE_ECHO_ON \<or> echo = LINE_DISCIPLINE_MODE_ECHO_OFF then ld\<lparr>ld_echo := echo\<rparr> else ld
      else ld)"

subsection \<open>The actions of the control characters\<close>

definition ld_ignore :: ld_handler where
  "ld_ignore ld c = ret (ld, [])"

definition ld_bell :: ld_handler where
  "ld_bell ld c = ret (ld, [Print ''A bell is ringing...''])"

definition ld_eof :: ld_handler where
  "ld_eof ld c = ret (ld, [Print ''EOF is called...''])"

definition ld_erase :: ld_handler where
  "ld_erase ld c = bind_res (line_discipline_delete_last ld) (\<lambda>ld. ret (ld, []))"

definition ld_htab :: ld_handler where
  "ld_htab ld c = ret (ld, [Print ''Horizontal tab is called...''])"

definition ld_lfeed :: ld_handler where
  "ld_lfeed ld c = ret (ld, [Print ''Line feed is called...''])"

definition ld_vtab :: ld_handler where
  "ld_vtab ld c = ret (ld, [Print ''Vertical tab is called...''])"

definition ld_newpage :: ld_handler where
  "ld_newpage ld c = ret (ld, [Print ''New page is called...''])"

definition ld_cret :: ld_handler where
  "ld_cret ld c = line_discipline_force_flush ld"

definition ld_restart_out :: ld_handler where
  "ld_restart_out ld c = ret (ld, [Print ''Restart output is called...''])"

definition ld_stop_out :: ld_handler where
  "ld_stop_out ld c = ret (ld, [Print ''Stop output is called...''])"

definition ld_sigint :: ld_handler where
  "ld_sigint ld c = ret (ld, [Print ''SIGINT is called...''])"

definition ld_sigstop :: ld_handler where
  "ld_sigstop ld c = ret (ld, [Print ''SIGSTOP is called...''])"

definition ld_del :: ld_handler where
  "ld_del ld c = ret (ld, [Print ''DEL is called...''])"

abbreviation ld_entry :: "u8 list \<Rightarrow> u8 list \<Rightarrow> u8 list \<Rightarrow> ld_handler \<Rightarrow> line_discipline_action_table_entry" where
  "ld_entry out ins tr act \<equiv> \<lparr>e_output = out, e_inserti = ins, e_inserto = tr, e_action = act\<rparr>"

definition default_ld_table :: "line_discipline_action_table_entry list" where
  "default_ld_table =
     [ld_entry [0, 0, 0, 0] [0, 0, 0, 0] [0, 0, 0, 0] ld_ignore,
      ld_entry [0, 0, 0, 0] [0, 0, 0, 0] [0, 0, 0, 0] ld_ignore,
      ld_entry [0, 0, 0, 0] [0, 0, 0, 0] [0, 0, 0, 0] ld_ignore,
      ld_entry [0, 0, 0, 0] [0, 0, 0, 0] [0, 0, 0, 0] ld_sigint,
      ld_entry [0, 0, 0, 0] [0, 0, 0, 0] [0, 0, 0, 0] ld_eof,
      ld_entry [0, 0, 0, 0] [0, 0, 0, 0] [0, 0, 0, 0] ld_ignore,
      ld_entry [0, 0, 0, 0] [0, 0, 0, 0] [0, 0, 0, 0] ld_ignore,
      ld_entry [0, 0, 0, 0] [0, 0, 0, 0] [0, 0, 0, 0] ld_bell,
      ld_entry [8, 32, 8, 0] [0, 0, 0, 0] [0, 0, 0, 0] ld_erase,
      ld_entry [0, 0, 0, 0] [0, 0, 0, 0] [0, 0, 0, 0] ld_htab,
      ld_entry [10, 0, 0, 0] [0, 0, 0, 0] [13, 10, 0, 0] ld_lfeed,
      ld_entry [0, 0, 0, 0] [0, 0, 0, 0] [0, 0, 0, 0] ld_vtab,
      ld_entry [0, 0, 0, 0] [0, 0, 0, 0] [0, 0, 0, 0] ld_newpage,
      ld_entry [13, 10, 0, 0] [0, 0, 0, 0] [0, 10, 0, 0] ld_cret,
      ld_entry [0, 0, 0, 0] [0, 0, 0, 0] [0, 0, 0, 0] ld_ignore,
      ld_entry [0, 0, 0, 0] [0, 0, 0, 0] [0, 0, 0, 0] ld_ignore,
      ld_entry [0, 0, 0, 0] [0, 0, 0, 0] [0, 0, 0, 0] ld_ignore,
      ld_entry [0, 0, 0, 0] [0, 0, 0, 0] [0, 0, 0, 0] ld_restart_out,
      ld_entry [0, 0, 0, 0] [0, 0, 0, 0] [0, 0, 0, 0] ld_ignore,
      ld_entry [0, 0, 0, 0] [0, 0, 0, 0] [0, 0, 0, 0] ld_stop_out,
      ld_entry [0, 0, 0, 0] [0, 0, 0, 0] [0, 0, 0, 0] ld_ignore,
      ld_entry [0, 0, 0, 0] [0, 0, 0, 0] [0, 0, 0, 0] ld_ignore,
      ld_entry [0, 0, 0, 0] [0, 0, 0, 0] [0, 0, 0, 0] ld_ignore,
      ld_entry [0, 0, 0, 0] [0, 0, 0, 0] [0, 0, 0, 0] ld_ignore,
      ld_entry [0, 0, 0, 0] [0, 0, 0, 0] [0, 0, 0, 0] ld_ignore,
      ld_entry [0, 0, 0, 0] [0, 0, 0, 0] [0, 0, 0, 0] ld_ignore,
      ld_entry [0, 0, 0, 0] [0, 0, 0, 0] [0, 0, 0, 0] ld_sigstop,
      ld_entry [0, 0, 0, 0] [0, 0, 0, 0] [0, 0, 0, 0] ld_del]"

definition table_entry :: "u8 \<Rightarrow> line_discipline_action_table_entry res" where
  "table_entry c = (if unat c < length default_ld_table then ret (default_ld_table ! unat c) else fault)"

subsection \<open>Input and output\<close>

definition is_control :: "u8 \<Rightarrow> bool" where
  "is_control c \<longleftrightarrow> \<not> (c \<noteq> LD_DEL \<and> (schar c < 0 \<or> schar c > 27))"

definition echo_on :: "line_discipline \<Rightarrow> bool" where
  "echo_on ld \<longleftrightarrow> ld_echo ld = LINE_DISCIPLINE_MODE_ECHO_ON \<and> ld_has_echo_cb ld"

definition line_discipline_apply :: "line_discipline \<Rightarrow> u8 \<Rightarrow> (line_discipline \<times> ld_event list) res" where
  "line_discipline_apply ld c =
     (if ld_valid ld \<noteq> 1 then ret (ld, [])
      else if \<not> is_control c then
        bind_res (line_discipline_insert ld c) (\<lambda>ld. ret (ld, if echo_on ld then [Echo c] else []))
      else if c = LD_DEL then
        bind_res (line_discipline_delete_last ld) (\<lambda>ld.
          if ld_has_echo_cb ld then ret (ld, [Echo 8, Echo 32, Echo 8]) else fault)
      else bind_res (table_entry c) (\<lambda>e.
        bind_res (iter_res (\<lambda>i ld. line_discipline_insert ld (e_inserti e ! i)) [0..<LD_INSERT_SIZE] ld) (\<lambda>ld.
        bind_res (e_action e ld c) (\<lambda>(ld', out).
          ret (ld', (if echo_on ld then map Echo (takeWhile (\<lambda>x. x \<noteq> LD_NULL) (take LD_OUTPUT_SIZE (e_output e))) else []) @ out)))))"

definition line_discipline_read :: "line_discipline \<Rightarrow> u8 \<Rightarrow> (line_discipline \<times> ld_event list) res" where
  "line_discipline_read ld character =
     (if ld_valid ld \<noteq> 1 then ret (ld, [])
      else if ld_mode ld = LINE_DISCIPLINE_MODE_RAW then
        ret (ld, (if echo_on ld then [Echo character] else []) @ [Flush_char character])
      else if ld_mode ld = LINE_DISCIPLINE_MODE_CANONICAL then line_discipline_apply ld character
      else ret (ld, []))"

text \<open>The characters written to the output array; their number is the result.\<close>

definition line_discipline_translate :: "line_discipline \<Rightarrow> u8 \<Rightarrow> u8 list res" where
  "line_discipline_translate ld c =
     (if ld_valid ld \<noteq> 1 then ret [c]
      else if ld_mode ld = LINE_DISCIPLINE_MODE_RAW then ret [c]
      else if ld_mode ld = LINE_DISCIPLINE_MODE_CANONICAL then
        if \<not> is_control c then ret [c]
        else bind_res (table_entry c) (\<lambda>e. ret (takeWhile (\<lambda>x. x \<noteq> LD_NULL) (take LD_OUTPUT_SIZE (e_inserto e))))
      else ret [c])"

subsection \<open>The edited line\<close>

text \<open>\<open>holds ld q\<close>: the characters between head and tail, cyclically, are those of the line \<open>q\<close>.\<close>

definition holds :: "line_discipline \<Rightarrow> u8 list \<Rightarrow> bool" where
  "holds ld q \<longleftrightarrow> ld_valid ld = 1 \<and> ld_size ld = int (length (ld_buffer ld)) \<and> length q < length (ld_buffer ld) \<and>
     (\<exists>h < length (ld_buffer ld). ld_head ld = int h \<and> ld_tail ld = int ((h + length q) mod length (ld_buffer ld)) \<and>
        (\<forall>i < length q. ld_buffer ld ! ((h + i) mod length (ld_buffer ld)) = q ! i))"

definition line_edit :: "nat \<Rightarrow> u8 list \<Rightarrow> u8 \<Rightarrow> u8 list" where
  "line_edit n q c =
     (if c = 8 \<or> c = 127 then butlast q
      else if c = 13 then []
      else if c \<le> 27 then q
      else last_n (n - 1) (q @ [c]))"

text \<open>The bytes of a span of the buffer, if it does not leave it.\<close>

definition flush_bytes :: "u8 list \<Rightarrow> int \<Rightarrow> int \<Rightarrow> u8 list option" where
  "flush_bytes buf h n = (if 0 \<le> h \<and> 0 \<le> n \<and> nat h + nat n \<le> length buf then Some (take (nat n) (drop (nat h) buf)) else None)"

lemma c_rem_nat: "0 \<le> a \<Longrightarrow> c_rem a (int n) = a mod int n"
  by (cases "a = 0") (simp_all add: c_rem_def)

lemma c_rem_Suc: "c_rem (int (a mod n) + 1) (int n) = int (Suc a mod n)"
proof -
  have "c_rem (int (a mod n) + 1) (int n) = (int (a mod n) + 1) mod int n" by (rule c_rem_nat) simp
  also have "\<dots> = int (Suc (a mod n) mod n)" by (simp only: zmod_int of_nat_Suc add.commute)
  finally show ?thesis by (simp only: mod_Suc_eq)
qed

lemma mod_offset_less:
  fixes h i j N :: nat
  assumes "i < j" "j < N"
  shows "(h + i) mod N \<noteq> (h + j) mod N"
proof
  assume "(h + i) mod N = (h + j) mod N"
  then have "N dvd (h + j) - (h + i)" using assms by (metis mod_eq_dvd_iff_nat add_le_cancel_left less_imp_le)
  then show False using assms by (auto dest: dvd_imp_le)
qed

text \<open>\<open>cells b k q\<close>: from index \<open>k\<close> on, cyclically, the buffer \<open>b\<close> holds \<open>q\<close> and has a cell to spare.\<close>

definition cells :: "u8 list \<Rightarrow> nat \<Rightarrow> u8 list \<Rightarrow> bool" where
  "cells b k q \<longleftrightarrow> k < length b \<and> length q < length b \<and> (\<forall>i < length q. b ! ((k + i) mod length b) = q ! i)"

lemma cells_store:
  assumes "cells b k q" and "i \<le> length q"
  shows "b[(k + length q) mod length b := c] ! ((k + i) mod length b) = (q @ [c]) ! i"
proof (cases "i = length q")
  case True
  moreover have "(k + length q) mod length b < length b" using assms(1) by (intro mod_less_divisor) (auto simp: cells_def)
  ultimately show ?thesis by simp
next
  case False
  then have "(k + i) mod length b \<noteq> (k + length q) mod length b" using assms by (intro mod_offset_less) (simp_all add: cells_def)
  then show ?thesis using assms False by (simp add: cells_def nth_append)
qed

text \<open>A character stored behind the last one is appended; the first is dropped when no cell would be left.\<close>

lemma cells_put:
  assumes c: "cells b k q"
    and h: "h = (if Suc (k + length q) mod length b = k then Suc k mod length b else k)" and q': "q' = last_n (length b - 1) (q @ [c])"
  shows "cells (b[(k + length q) mod length b := c]) h q'"
    and "(h + length q') mod length b = Suc (k + length q) mod length b"
    and "Suc (length q) < length b \<Longrightarrow> h = k"
proof -
  let ?b = "b[(k + length q) mod length b := c]"
  have k: "k < length b" "length q < length b" using c by (auto simp: cells_def)
  have iff: "Suc (k + length q) mod length b = k \<longleftrightarrow> Suc (length q) = length b"
  proof
    assume "Suc (k + length q) mod length b = k"
    then show "Suc (length q) = length b" using mod_offset_less [of 0 "Suc (length q)" "length b" k] k by fastforce
  next
    assume "Suc (length q) = length b"
    then have "Suc (k + length q) = k + length b" by simp
    then show "Suc (k + length q) mod length b = k" using k(1) by (simp only: mod_add_self2 mod_less)
  qed
  then show "Suc (length q) < length b \<Longrightarrow> h = k" using h by auto
  have "cells ?b h q' \<and> (h + length q') mod length b = Suc (k + length q) mod length b"
  proof (cases "Suc (length q) = length b")
    case False
    then have "h = k" "q' = q @ [c]" using iff k h q' by (simp_all add: last_n_def)
    then show ?thesis using False k cells_store [OF c] by (auto simp: cells_def less_Suc_eq_le)
  next
    case True
    then have h: "h = Suc k mod length b" and q: "q' = tl (q @ [c])"
      using iff h q' by (simp_all add: last_n_def drop_Suc flip: True del: drop_append)
    have m: "(Suc k mod length b + i) mod length b = (k + Suc i) mod length b" for i by (simp add: mod_add_left_eq)
    have "?b ! ((Suc k mod length b + i) mod length b) = tl (q @ [c]) ! i" if "i < length q" for i
      using cells_store [OF c, of "Suc i" c] that unfolding m by (simp add: nth_tl)
    moreover have "Suc k mod length b < length b" using k by (intro mod_less_divisor) linarith
    ultimately show ?thesis unfolding h q using k m [of "length q"] by (simp add: cells_def)
  qed
  then show "cells ?b h q'" and "(h + length q') mod length b = Suc (k + length q) mod length b" by simp_all
qed

text \<open>Taking the first character moves the start on.\<close>

lemma cells_take:
  assumes "cells b k (x # q)"
  shows "b ! k = x" and "cells b (Suc k mod length b) q" and "(Suc k mod length b + length q) mod length b = (k + length (x # q)) mod length b"
    and "(k + length (x # q)) mod length b \<noteq> k"
proof -
  have m: "(Suc k mod length b + i) mod length b = (k + Suc i) mod length b" for i by (simp add: mod_add_left_eq)
  have k: "k < length b" "Suc (length q) < length b" and at: "\<And>i. i < Suc (length q) \<Longrightarrow> b ! ((k + i) mod length b) = (x # q) ! i"
    using assms by (auto simp: cells_def)
  show "b ! k = x" using at [of 0] k(1) by simp
  have "Suc k mod length b < length b" using k by (intro mod_less_divisor) linarith
  moreover have "b ! ((Suc k mod length b + i) mod length b) = q ! i" if "i < length q" for i
    using at [of "Suc i"] that unfolding m by simp
  ultimately show "cells b (Suc k mod length b) q" using k by (simp add: cells_def)
  show "(Suc k mod length b + length q) mod length b = (k + length (x # q)) mod length b" unfolding m by simp
  show "(k + length (x # q)) mod length b \<noteq> k" using mod_offset_less [of 0 "length (x # q)" "length b" k] k by simp
qed

lemma holds_cells:
  "holds ld q \<longleftrightarrow> ld_valid ld = 1 \<and> ld_size ld = int (length (ld_buffer ld)) \<and>
     (\<exists>k. ld_head ld = int k \<and> ld_tail ld = int ((k + length q) mod length (ld_buffer ld)) \<and> cells (ld_buffer ld) k q)"
  by (auto simp: holds_def cells_def)

lemma insert_holds:
  assumes h: "holds ld q" and c: "c \<noteq> 0"
  shows "\<exists>ld'. line_discipline_insert ld c = ret ld' \<and> holds ld' (last_n (length (ld_buffer ld) - 1) (q @ [c])) \<and>
    ld_mode ld' = ld_mode ld \<and> ld_echo ld' = ld_echo ld \<and> ld_has_echo_cb ld' = ld_has_echo_cb ld \<and>
    length (ld_buffer ld') = length (ld_buffer ld) \<and> (Suc (length q) < length (ld_buffer ld) \<longrightarrow> ld_head ld' = ld_head ld)"
proof -
  let ?N = "length (ld_buffer ld)" and ?n = "length q"
  from h obtain k where k: "ld_head ld = int k" "ld_tail ld = int ((k + ?n) mod ?N)" "cells (ld_buffer ld) k q"
    and b: "ld_valid ld = 1" "ld_size ld = int ?N" by (auto simp: holds_cells)
  let ?b = "(ld_buffer ld)[(k + ?n) mod ?N := c]" and ?h = "if Suc (k + ?n) mod ?N = k then Suc k mod ?N else k"
  let ?ld = "ld\<lparr>ld_buffer := ?b, ld_tail := int (Suc (k + ?n) mod ?N), ld_head := int ?h\<rparr>"
  have kN: "k < ?N" using k(3) by (simp add: cells_def)
  then have "nat (ld_tail ld) = (k + ?n) mod ?N" "0 \<le> ld_tail ld" "(k + ?n) mod ?N < ?N" "ld_size ld \<noteq> 0"
    using k(2) b(2) mod_less_divisor [of ?N "k + ?n"] by (fastforce simp del: of_nat_mod mod_less_divisor)+
  moreover have "int (Suc (k + ?n) mod ?N) = ld_head ld \<longleftrightarrow> Suc (k + ?n) mod ?N = k" using k(1) by (simp only: of_nat_eq_iff)
  moreover have "c_rem (ld_tail ld + 1) (ld_size ld) = int (Suc (k + ?n) mod ?N)" using k(2) b(2) by (simp only: c_rem_Suc)
  moreover have "c_rem (ld_head ld + 1) (ld_size ld) = int (Suc k mod ?N)" using c_rem_Suc [of k ?N] k(1) kN b(2) by simp
  ultimately have r: "line_discipline_insert ld c = ret ?ld" using b(1) c unfolding line_discipline_insert_def
    by (simp add: LD_NULL_def Let_def k(1) del: of_nat_mod)
  note put = cells_put(1,2) [OF k(3) refl refl, of c]
  have "holds ?ld (last_n (?N - 1) (q @ [c]))"
    unfolding holds_cells using b put(1,2) by (intro conjI exI [of _ ?h]) (simp_all del: of_nat_mod)
  moreover have "Suc ?n < ?N \<longrightarrow> ?h = k" using cells_put(3) [OF k(3) refl refl] by blast
  ultimately show ?thesis using r k(1) by (intro exI [of _ ?ld]) simp
qed

lemma delete_holds:
  assumes h: "holds ld q" and t: "q = [] \<or> ld_tail ld \<noteq> 0"
  shows "\<exists>ld'. line_discipline_delete_last ld = ret ld' \<and> holds ld' (butlast q) \<and>
    ld_mode ld' = ld_mode ld \<and> ld_echo ld' = ld_echo ld \<and> ld_has_echo_cb ld' = ld_has_echo_cb ld \<and> ld_buffer ld' = ld_buffer ld"
proof -
  let ?N = "length (ld_buffer ld)" and ?n = "length q"
  from h obtain k where k: "k < ?N" "ld_head ld = int k" "ld_tail ld = int ((k + ?n) mod ?N)"
    "\<forall>i < ?n. ld_buffer ld ! ((k + i) mod ?N) = q ! i" and b: "ld_valid ld = 1" "ld_size ld = int ?N" "?n < ?N"
    by (auto simp: holds_def)
  show ?thesis
  proof (cases "q = []")
    case True
    then show ?thesis using h k b by (simp add: line_discipline_delete_last_def)
  next
    case False
    then obtain m where m: "?n = Suc m" by (cases q) auto
    have ne: "(k + ?n) mod ?N \<noteq> k" using mod_offset_less [of 0 ?n ?N k] m b(3) k(1) by simp
    have "Suc (k + m) mod ?N \<noteq> 0" using t False k(3) m by simp
    then have s: "Suc (k + m) mod ?N = Suc ((k + m) mod ?N)" by (simp add: mod_Suc split: if_splits)
    let ?ld = "ld\<lparr>ld_tail := int ((k + m) mod ?N)\<rparr>"
    have "ld_size ld \<noteq> 0" using b(2,3) by linarith
    then have "line_discipline_delete_last ld = ret ?ld"
      using b k m s ne by (simp add: line_discipline_delete_last_def c_rem_nat flip: zmod_int)
    moreover have "holds ?ld (butlast q)"
      unfolding holds_def using b m k by (auto intro!: exI [of _ k] simp: nth_butlast)
    ultimately show ?thesis by (intro exI [of _ ?ld]) simp
  qed
qed

lemma flush_holds:
  assumes h: "holds ld q" and m: "ld_mode ld = LINE_DISCIPLINE_MODE_CANONICAL"
  shows "line_discipline_force_flush ld = ret (ld\<lparr>ld_head := ld_tail ld\<rparr>, [Flush (ld_head ld) (int (length q))])"
    and "holds (ld\<lparr>ld_head := ld_tail ld\<rparr>) []"
    and "ld_head ld + int (length q) \<le> ld_size ld \<Longrightarrow> flush_bytes (ld_buffer ld) (ld_head ld) (int (length q)) = Some q"
    and "ld_size ld < ld_head ld + int (length q) \<Longrightarrow> flush_bytes (ld_buffer ld) (ld_head ld) (int (length q)) = None"
proof -
  let ?N = "length (ld_buffer ld)" and ?n = "length q"
  from h obtain k where k: "k < ?N" "ld_head ld = int k" "ld_tail ld = int ((k + ?n) mod ?N)"
    "\<forall>i < ?n. ld_buffer ld ! ((k + i) mod ?N) = q ! i" and b: "ld_valid ld = 1" "ld_size ld = int ?N" "?n < ?N"
    by (auto simp: holds_def)
  have "c_rem (ld_tail ld - ld_head ld + ld_size ld) (ld_size ld) = (int ((k + ?n) mod ?N) - int k + int ?N) mod int ?N"
    using k b by (subst b(2), subst c_rem_nat) simp_all
  also have "\<dots> = (int (k + ?n) - int k) mod int ?N" by (simp add: zmod_int mod_simps)
  also have "\<dots> = int ?n" using b(3) by simp
  finally show "line_discipline_force_flush ld = ret (ld\<lparr>ld_head := ld_tail ld\<rparr>, [Flush (ld_head ld) (int ?n)])"
    using b m by (auto simp: line_discipline_force_flush_def)
  have "(k + ?n) mod ?N < ?N" using k(1) by (intro mod_less_divisor) linarith
  then show "holds (ld\<lparr>ld_head := ld_tail ld\<rparr>) []" using b k by (auto simp: holds_def)
  show "flush_bytes (ld_buffer ld) (ld_head ld) (int ?n) = Some q" if "ld_head ld + int ?n \<le> ld_size ld"
  proof -
    have le: "k + ?n \<le> ?N" using that k b by simp
    have "take ?n (drop k (ld_buffer ld)) = q"
      using le k(4) by (intro nth_equalityI) auto
    then show ?thesis using le k(2) by (simp add: flush_bytes_def)
  qed
  show "flush_bytes (ld_buffer ld) (ld_head ld) (int ?n) = None" if "ld_size ld < ld_head ld + int ?n"
    using that k(2) b(2) by (simp add: flush_bytes_def)
qed

subsection \<open>Reading a character\<close>

lemma schar_shift: "schar c = (uint c + 128) mod 256 - 128"
  by (simp add: sint_uint signed_take_bit_eq_take_bit_shift take_bit_eq_mod)

lemma is_control_iff: "is_control c \<longleftrightarrow> c \<le> 27 \<or> c = 127"
proof -
  have u: "0 \<le> uint c" "uint c < 256" using uint_bounded [of c] by simp_all
  have "(schar c < 0 \<or> schar c > 27) \<longleftrightarrow> 27 < uint c"
  proof (cases "uint c < 128")
    case True
    then have "schar c = uint c" using u by (simp add: schar_shift)
    then show ?thesis using u by linarith
  next
    case False
    have "uint c + 128 = (uint c - 128) + 256" by simp
    then have "(uint c + 128) mod 256 = (uint c - 128) mod 256" by (simp only: mod_add_self2)
    also have "\<dots> = uint c - 128" using False u by (simp add: mod_pos_pos_trivial)
    finally show ?thesis using False u by (simp add: schar_shift)
  qed
  then show ?thesis by (auto simp: is_control_def LD_DEL_def word_le_def)
qed

lemma table_inserts_nothing: "i < 28 \<Longrightarrow> e_inserti (default_ld_table ! i) = [0, 0, 0, 0]"
proof -
  have "\<forall>e \<in> set default_ld_table. e_inserti e = [0, 0, 0, 0]" by (simp add: default_ld_table_def)
  moreover have "length default_ld_table = 28" by (simp add: default_ld_table_def)
  ultimately show "i < 28 \<Longrightarrow> e_inserti (default_ld_table ! i) = [0, 0, 0, 0]" by simp
qed

lemma table_actions:
  "e_action (default_ld_table ! 8) = ld_erase" "e_action (default_ld_table ! 13) = ld_cret"
  "i < 28 \<Longrightarrow> i \<noteq> 8 \<Longrightarrow> i \<noteq> 13 \<Longrightarrow> \<exists>out. e_action (default_ld_table ! i) ld c = ret (ld, out) \<and> (\<forall>h n. Flush h n \<notin> set out)"
proof -
  show "e_action (default_ld_table ! 8) = ld_erase" "e_action (default_ld_table ! 13) = ld_cret" by (simp_all add: default_ld_table_def)
  assume i: "i < 28" "i \<noteq> 8" "i \<noteq> 13"
  have "i \<in> {0,1,2,3,4,5,6,7,8,9,10,11,12,13,14,15,16,17,18,19,20,21,22,23,24,25,26,27}" using i(1) by (simp add: less_Suc_eq numeral_eq_Suc)
  then show "\<exists>out. e_action (default_ld_table ! i) ld c = ret (ld, out) \<and> (\<forall>h n. Flush h n \<notin> set out)"
    using i(2,3) by (elim insertE)
      (simp_all add: default_ld_table_def ld_ignore_def ld_bell_def ld_eof_def ld_htab_def ld_lfeed_def ld_vtab_def ld_newpage_def
        ld_restart_out_def ld_stop_out_def ld_sigint_def ld_sigstop_def ld_del_def)
qed

lemma insert_null [simp]: "line_discipline_insert ld 0 = ret ld"
  by (simp add: line_discipline_insert_def LD_NULL_def)

lemma apply_control:
  assumes "ld_valid ld = 1" "c \<le> 27"
  shows "line_discipline_apply ld c = bind_res (e_action (default_ld_table ! unat c) ld c) (\<lambda>(ld', out).
    ret (ld', (if echo_on ld then map Echo (takeWhile (\<lambda>x. x \<noteq> LD_NULL) (take LD_OUTPUT_SIZE (e_output (default_ld_table ! unat c)))) else []) @ out))"
proof -
  have c: "unat c < 28" "c \<noteq> LD_DEL" using assms(2) by (auto simp: word_le_nat_alt LD_DEL_def)
  have "length default_ld_table = 28" by (simp add: default_ld_table_def)
  then have "table_entry c = ret (default_ld_table ! unat c)" using c by (simp add: table_entry_def)
  moreover have "is_control c" using assms(2) by (simp add: is_control_iff)
  moreover have "iter_res (\<lambda>i ld. line_discipline_insert ld (e_inserti (default_ld_table ! unat c) ! i)) [0..<LD_INSERT_SIZE] ld = ret ld"
    using table_inserts_nothing [OF c(1)] by (simp add: LD_INSERT_SIZE_def upt_rec)
  ultimately show ?thesis using assms(1) c(2) by (simp add: line_discipline_apply_def)
qed

lemma ld_read_ok:
  assumes h: "holds ld q" and m: "ld_mode ld = LINE_DISCIPLINE_MODE_CANONICAL" and cb: "ld_has_echo_cb ld"
    and erase: "c = 8 \<or> c = 127 \<Longrightarrow> q = [] \<or> ld_tail ld \<noteq> 0"
  shows "\<exists>ld' out. line_discipline_read ld c = ret (ld', out) \<and> holds ld' (line_edit (length (ld_buffer ld)) q c) \<and>
    ld_mode ld' = ld_mode ld \<and> ld_has_echo_cb ld' \<and> ld_echo ld' = ld_echo ld \<and> length (ld_buffer ld') = length (ld_buffer ld) \<and>
    (c = 13 \<longrightarrow> ld_buffer ld' = ld_buffer ld) \<and> (\<forall>x n. Flush x n \<in> set out \<longleftrightarrow> c = 13 \<and> x = ld_head ld \<and> n = int (length q)) \<and>
    (27 < c \<longrightarrow> c \<noteq> 127 \<longrightarrow> Suc (length q) < length (ld_buffer ld) \<longrightarrow> ld_head ld' = ld_head ld)"
proof -
  have v: "ld_valid ld = 1" using h by (simp add: holds_def)
  have rd: "line_discipline_read ld c = line_discipline_apply ld c" using v m by (simp add: line_discipline_read_def ld_modes)
  consider "27 < c" "c \<noteq> 127" | "c = 127" | "c \<le> 27" "c = 8" | "c \<le> 27" "c = 13" | "c \<le> 27" "c \<noteq> 8" "c \<noteq> 13"
    using linorder_not_le [of c 27] by blast
  then show ?thesis
  proof cases
    case 1
    then have "c \<noteq> 0" "\<not> is_control c" "line_edit (length (ld_buffer ld)) q c = last_n (length (ld_buffer ld) - 1) (q @ [c])"
      by (auto simp: is_control_iff line_edit_def not_le)
    then show ?thesis using insert_holds [OF h, of c] v cb 1 unfolding rd
      by (auto simp: line_discipline_apply_def)
  next
    case 2
    then show ?thesis using delete_holds [OF h] erase v cb unfolding rd
      by (auto simp: line_discipline_apply_def is_control_iff LD_DEL_def line_edit_def)
  next
    case 3
    then show ?thesis using delete_holds [OF h] erase cb apply_control [OF v 3(1)] unfolding rd
      by (auto simp: table_actions ld_erase_def line_edit_def)
  next
    case 4
    then show ?thesis using flush_holds(1,2) [OF h m] cb apply_control [OF v 4(1)] unfolding rd
      by (auto simp: table_actions ld_cret_def line_edit_def)
  next
    case 5
    have "unat c < 28" "unat c \<noteq> 8" "unat c \<noteq> 13" using 5 by (auto simp: word_le_nat_alt word_unat_eq_iff)
    then obtain out where "e_action (default_ld_table ! unat c) ld c = ret (ld, out)" "\<forall>h n. Flush h n \<notin> set out"
      using table_actions(3) by blast
    moreover have "c \<noteq> 127" using 5(1) by auto
    ultimately show ?thesis using 5 h cb apply_control [OF v 5(1)] unfolding rd by (auto simp: line_edit_def)
  qed
qed

primrec ld_read_all :: "u8 list \<Rightarrow> line_discipline \<Rightarrow> (line_discipline \<times> ld_event list) res" where
  "ld_read_all [] ld = ret (ld, [])"
| "ld_read_all (c # cs) ld = bind_res (line_discipline_read ld c) (\<lambda>(ld, out).
     bind_res (ld_read_all cs ld) (\<lambda>(ld, out'). ret (ld, out @ out')))"

lemma read_all_append:
  "ld_read_all (cs @ ds) ld = bind_res (ld_read_all cs ld) (\<lambda>(ld, out). bind_res (ld_read_all ds ld) (\<lambda>(ld, out'). ret (ld, out @ out')))"
  by (induction cs arbitrary: ld) (auto simp: bind_res_assoc bind_res_def split: option.splits sum.splits prod.splits Option.bind_splits)

definition printable :: "u8 \<Rightarrow> bool" where
  "printable c \<longleftrightarrow> 27 < c \<and> c \<noteq> 127"

lemma type_ok:
  assumes "holds ld q" "ld_mode ld = LINE_DISCIPLINE_MODE_CANONICAL" "ld_has_echo_cb ld" "\<forall>c \<in> set s. printable c"
    "length q + length s < length (ld_buffer ld)"
  shows "\<exists>ld' out. ld_read_all s ld = ret (ld', out) \<and> holds ld' (q @ s) \<and> ld_mode ld' = ld_mode ld \<and> ld_has_echo_cb ld' \<and>
    ld_head ld' = ld_head ld \<and> length (ld_buffer ld') = length (ld_buffer ld) \<and> (\<forall>x n. Flush x n \<notin> set out)"
  using assms
proof (induction s arbitrary: ld q)
  case (Cons c s)
  have c: "27 < c" "c \<noteq> 127" "c \<noteq> 8" "c \<noteq> 13" using Cons.prems(4) by (auto simp: printable_def)
  have e: "line_edit (length (ld_buffer ld)) q c = q @ [c]"
    using c Cons.prems(5) by (simp add: line_edit_def last_n_def not_le)
  from ld_read_ok [OF Cons.prems(1-3), of c] c e Cons.prems(5) obtain ld' out where
    r: "line_discipline_read ld c = ret (ld', out)" "holds ld' (q @ [c])" "ld_mode ld' = ld_mode ld" "ld_has_echo_cb ld'"
      "length (ld_buffer ld') = length (ld_buffer ld)" "ld_head ld' = ld_head ld" "\<forall>x n. Flush x n \<notin> set out" by auto
  from Cons.IH [OF r(2), unfolded r(3) r(5)] r(4) Cons.prems(2,4,5) obtain ld'' out' where
    "ld_read_all s ld' = ret (ld'', out')" "holds ld'' (q @ c # s)" "ld_mode ld'' = ld_mode ld" "ld_has_echo_cb ld''"
      "ld_head ld'' = ld_head ld'" "length (ld_buffer ld'') = length (ld_buffer ld)" "\<forall>x n. Flush x n \<notin> set out'" by auto
  then show ?case using r by auto
qed auto

text \<open>Erasing a character that was stored in the last cell leaves the tail at -1, and the next character is written in front of the buffer.\<close>

definition erase_underflow :: "line_discipline \<Rightarrow> u8 list \<Rightarrow> u8 \<Rightarrow> bool" where
  "erase_underflow ld q c \<longleftrightarrow> (c = 8 \<or> c = 127) \<and> q \<noteq> [] \<and> ld_tail ld = 0"

lemma delete_underflows:
  assumes h: "holds ld q" and q: "q \<noteq> []" and t: "ld_tail ld = 0"
  shows "line_discipline_delete_last ld = ret (ld\<lparr>ld_tail := - 1\<rparr>)"
proof -
  have b: "ld_valid ld = 1" "ld_size ld = int (length (ld_buffer ld))" "1 < length (ld_buffer ld)"
    using h q by (cases q; auto simp: holds_def)+
  have "ld_tail ld \<noteq> ld_head ld"
  proof -
    from h obtain k where k: "k < length (ld_buffer ld)" "ld_head ld = int k" "ld_tail ld = int ((k + length q) mod length (ld_buffer ld))"
      and n: "length q < length (ld_buffer ld)" by (auto simp: holds_def)
    have "(k + length q) mod length (ld_buffer ld) \<noteq> k" using mod_offset_less [of 0 "length q" "length (ld_buffer ld)" k] n q k(1) by simp
    then show ?thesis using k by simp
  qed
  moreover have "c_rem (-1) (ld_size ld) = -1" using b by (simp add: c_rem_def)
  ultimately show ?thesis using b t by (auto simp: line_discipline_delete_last_def)
qed

lemma erase_underflows:
  assumes h: "holds ld q" and m: "ld_mode ld = LINE_DISCIPLINE_MODE_CANONICAL" and cb: "ld_has_echo_cb ld" and u: "erase_underflow ld q c"
  shows "\<exists>out. line_discipline_read ld c = ret (ld\<lparr>ld_tail := - 1\<rparr>, out) \<and> (\<forall>x n. Flush x n \<notin> set out)"
    and "printable d \<Longrightarrow> line_discipline_read (ld\<lparr>ld_tail := - 1\<rparr>) d = fault"
proof -
  have v: "ld_valid ld = 1" using h by (simp add: holds_def)
  have rd: "line_discipline_read ld c = line_discipline_apply ld c" using v m by (simp add: line_discipline_read_def ld_modes)
  have d: "line_discipline_delete_last ld = ret (ld\<lparr>ld_tail := - 1\<rparr>)" using u delete_underflows [OF h] by (auto simp: erase_underflow_def)
  from u consider "c = 8" | "c = 127" by (auto simp: erase_underflow_def)
  then show "\<exists>out. line_discipline_read ld c = ret (ld\<lparr>ld_tail := - 1\<rparr>, out) \<and> (\<forall>x n. Flush x n \<notin> set out)"
  proof cases
    case 1
    then show ?thesis using d cb apply_control [OF v, of 8] unfolding rd by (auto simp: table_actions ld_erase_def)
  next
    case 2
    then show ?thesis using d v cb unfolding rd by (auto simp: line_discipline_apply_def is_control_iff LD_DEL_def)
  qed
  show "line_discipline_read (ld\<lparr>ld_tail := - 1\<rparr>) d = fault" if "printable d"
  proof -
    have "\<not> is_control d" "d \<noteq> 0" using that by (auto simp: is_control_iff printable_def)
    then show ?thesis using v m
      by (simp add: line_discipline_read_def line_discipline_apply_def line_discipline_insert_def LD_NULL_def ld_modes)
  qed
qed

text \<open>The carriage return translates to no character, and the delete character indexes behind the table.\<close>

lemma translate_gaps:
  assumes "ld_valid ld = 1" "ld_mode ld = LINE_DISCIPLINE_MODE_CANONICAL"
  shows "line_discipline_translate ld 13 = ret []" and "line_discipline_translate ld 127 = fault"
  using assms by (simp_all add: line_discipline_translate_def is_control_iff ld_modes table_entry_def default_ld_table_def LD_NULL_def LD_OUTPUT_SIZE_def)

definition demo_ld :: line_discipline where
  "demo_ld = \<lparr>ld_mode = 1, ld_echo = 0, ld_valid = 1, ld_buffer = replicate 8 0, ld_size = 8, ld_head = 2, ld_tail = 2, ld_has_echo_cb = True\<rparr>"

lemma demo_ld_holds: "holds demo_ld []" "ld_mode demo_ld = LINE_DISCIPLINE_MODE_CANONICAL" "ld_has_echo_cb demo_ld"
  by (auto simp: holds_def demo_ld_def ld_modes intro!: exI [of _ 2])

subsection \<open>Properties\<close>

text \<open>C16: in canonical mode, reading a character changes the line that the buffer holds as an editor of a list would: backspace and
  delete drop the last character, a carriage return empties it, other control characters keep it and any other character is
  appended, the oldest ones being dropped when the buffer is full; exactly the carriage return flushes the line. The exception is
  an erase of a line that ends in the last cell of the buffer, where the tail index is 0: it becomes -1 instead of the
  last index, and reading a printable character after that writes in front of the buffer.\<close>

theorem ld_read_refines:
  assumes "holds ld q" and "ld_mode ld = LINE_DISCIPLINE_MODE_CANONICAL" and "ld_has_echo_cb ld"
  shows "\<exists>ld' out. line_discipline_read ld c = ret (ld', out) \<and> ld_mode ld' = ld_mode ld \<and>
    (\<forall>x n. Flush x n \<in> set out \<longleftrightarrow> c = 13 \<and> x = ld_head ld \<and> n = int (length q)) \<and>
    (if (c = 8 \<or> c = 127) \<and> q \<noteq> [] \<and> ld_tail ld = 0
     then ld_tail ld' = - 1 \<and> (\<forall>d. printable d \<longrightarrow> line_discipline_read ld' d = fault)
     else holds ld' (line_edit (length (ld_buffer ld)) q c))"
proof (cases "erase_underflow ld q c")
  case True
  with erase_underflows [OF assms True] show ?thesis by (auto simp: erase_underflow_def)
next
  case False
  with ld_read_ok [OF assms, of c] show ?thesis unfolding erase_underflow_def by auto
qed

theorem ld_read_refines_witness: "\<exists>ld' out. line_discipline_read demo_ld 97 = ret (ld', out) \<and> holds ld' [97]"
  using ld_read_refines [OF demo_ld_holds, of 97] by (auto simp: line_edit_def last_n_def demo_ld_def split: if_splits)

text \<open>C30: a line of printable characters that fits in the buffer, typed on an empty line and followed by a carriage return, is flushed
  once, with the head index and the number of characters typed. The flushed span holds exactly the typed characters when it ends
  inside the buffer; when the line wraps around its end, the span that is passed on does not: it leaves the buffer.\<close>

theorem ld_line_flushed:
  assumes h: "holds ld []" and m: "ld_mode ld = LINE_DISCIPLINE_MODE_CANONICAL" and cb: "ld_has_echo_cb ld"
    and s: "\<forall>c \<in> set s. printable c" and fit: "int (length s) < ld_size ld"
  shows "\<exists>ld' out. ld_read_all (s @ [13]) ld = ret (ld', out) \<and> holds ld' [] \<and>
    (\<forall>x n. Flush x n \<in> set out \<longleftrightarrow> x = ld_head ld \<and> n = int (length s)) \<and>
    flush_bytes (ld_buffer ld') (ld_head ld) (int (length s)) = (if ld_head ld + int (length s) \<le> ld_size ld then Some s else None)"
proof -
  have sz: "ld_size ld = int (length (ld_buffer ld))" "0 \<le> ld_head ld" using h by (auto simp: holds_def)
  then have "length [] + length s < length (ld_buffer ld)" using fit by simp
  from type_ok [OF h m cb s this] obtain ld1 out1 where
    t: "ld_read_all s ld = ret (ld1, out1)" "holds ld1 s" "ld_mode ld1 = ld_mode ld" "ld_has_echo_cb ld1" "ld_head ld1 = ld_head ld"
      "length (ld_buffer ld1) = length (ld_buffer ld)" "\<forall>x n. Flush x n \<notin> set out1" by auto
  have m1: "ld_mode ld1 = LINE_DISCIPLINE_MODE_CANONICAL" using t(3) m by simp
  from ld_read_ok [OF t(2) m1 t(4), of 13] obtain ld2 out2 where
    r: "line_discipline_read ld1 13 = ret (ld2, out2)" "holds ld2 []" "ld_buffer ld2 = ld_buffer ld1"
      "\<forall>x n. Flush x n \<in> set out2 \<longleftrightarrow> x = ld_head ld1 \<and> n = int (length s)" by (auto simp: line_edit_def)
  have "ld_size ld1 = ld_size ld" using sz t(2,6) by (simp add: holds_def)
  then have "flush_bytes (ld_buffer ld2) (ld_head ld) (int (length s)) = (if ld_head ld + int (length s) \<le> ld_size ld then Some s else None)"
    using flush_holds(3,4) [OF t(2) m1] r(3) t(5) by simp
  moreover have "ld_read_all (s @ [13]) ld = ret (ld2, out1 @ out2)" using t(1) r(1) by (simp add: read_all_append)
  ultimately show ?thesis using r(2,4) t(5,7) by auto
qed

theorem ld_line_flushed_witness: "\<exists>ld' out. ld_read_all [104, 105, 13] demo_ld = ret (ld', out) \<and> Flush 2 2 \<in> set out \<and>
    flush_bytes (ld_buffer ld') 2 2 = Some [104, 105]"
proof -
  have "\<forall>c \<in> set [104, 105]. printable c" "int (length [104, 105 :: u8]) < ld_size demo_ld"
    by (simp_all add: printable_def demo_ld_def)
  from ld_line_flushed [OF demo_ld_holds this] show ?thesis by (auto simp: demo_ld_def)
qed

end
