(* ===== verification/Tty.thy ===== *)
theory Tty
  imports Line_Discipline
begin

section \<open>Terminals\<close>

text \<open>
  \<^verbatim>\<open>drivers/tty/tty.c\<close> and \<^verbatim>\<open>drivers/tty/tty_dd.c\<close>: the cyclic input and output buffers of a terminal, its subscribers, the
  callbacks between the terminal and its line discipline, creation and removal, and the entry points of the driver. A null pointer to a
  terminal is the None of \<open>get_tty\<close>; the guards of the single operations against it have no counterpart, since the operations take the
  structure itself. Writes and requests to devices and calls of subscribers are events; a subscriber that is called does not change the
  terminal here. The lemmas show that a buffer is a bounded queue (an instance of the interface \<open>byte_queue\<close> of the circular buffers), that
  a typed line is echoed and read back as it was typed, what a flush sends, and that creation establishes the invariants.
\<close>

subsection \<open>State\<close>

definition TTY_EVENT_OUTB :: u8 where "TTY_EVENT_OUTB = 0"

definition TTY_EVENT_INB :: u8 where "TTY_EVENT_INB = 1"

definition TTY_EVENT_FLUSH_OUTB :: u8 where "TTY_EVENT_FLUSH_OUTB = 3"

definition TTY_FLUSH_CHAR :: u8 where "TTY_FLUSH_CHAR = 13"

definition TTY_MODE_SERIAL :: int where "TTY_MODE_SERIAL = 0"

definition TTY_MODE_PTY :: int where "TTY_MODE_PTY = 1"

definition SERIAL_FLUSH_TX :: u64 where "SERIAL_FLUSH_TX = 1"

definition SERIAL_SUBSCRIBE_READ :: u64 where "SERIAL_SUBSCRIBE_READ = 2"

text \<open>
  What a call tells the outside: bytes written to a device, a control request to a device, or the call of a subscriber
  with the event it is told.
\<close>

datatype tty_event = Dev_write "u8 list" "u8 list" | Dev_ioctl "u8 list" u64 | Notify u64 u8

record tty_subscriber =
  sub_handler :: u64
  sub_next :: u64

type_synonym subscribers = "u64 \<rightharpoonup> tty_subscriber"

text \<open>The four fields of a buffer of the terminal, with the bytes its pointer refers to.\<close>

record tty_buffer =
  tb_addr :: u64
  tb_data :: "u8 list"
  tb_size :: int
  tb_write :: int
  tb_read :: int

text \<open>The line discipline is absent when its pointer \<open>tty_ld_addr\<close> is null.\<close>

record tty =
  tty_indev :: "u8 list"
  tty_outdev :: "u8 list"
  tty_signal :: int
  tty_mode :: int
  tty_valid :: int
  tty_echo :: u8
  tty_israw :: u8
  tty_ld_addr :: u64
  tty_ld :: line_discipline
  tty_subscribers :: u64
  tty_inb :: tty_buffer
  tty_outb :: tty_buffer

record tty_state =
  ttys :: "tty list"
  st_subs :: subscribers
  tty_freed :: "u64 list"

text \<open>A loop whose body also reports events.\<close>

primrec iter_out :: "('i \<Rightarrow> 's \<Rightarrow> ('s \<times> 'e list) res) \<Rightarrow> 'i list \<Rightarrow> 's \<Rightarrow> ('s \<times> 'e list) res" where
  "iter_out body [] s = ret (s, [])"
| "iter_out body (i # is) s = bind_res (body i s) (\<lambda>(s, out). bind_res (iter_out body is s) (\<lambda>(s, out'). ret (s, out @ out')))"

subsection \<open>The cyclic buffers\<close>

text \<open>The common body of \<^verbatim>\<open>tty_write_inb\<close> and \<^verbatim>\<open>tty_write_outb\<close>, and of \<^verbatim>\<open>tty_read_inb\<close> and \<^verbatim>\<open>tty_read_outb\<close>.\<close>

definition tb_next :: "tty_buffer \<Rightarrow> int \<Rightarrow> int" where
  "tb_next b i = (if i + 1 \<ge> tb_size b then 0 else i + 1)"

definition tty_buffer_put :: "tty_buffer \<Rightarrow> u8 \<Rightarrow> tty_buffer res" where
  "tty_buffer_put b c =
     (if \<not> (0 \<le> tb_write b \<and> nat (tb_write b) < length (tb_data b)) then fault
      else let w = tb_next b (tb_write b) in
        ret (b\<lparr>tb_data := (tb_data b)[nat (tb_write b) := c], tb_write := w,
               tb_read := (if w = tb_read b then tb_next b (tb_read b) else tb_read b)\<rparr>))"

definition tty_buffer_get :: "tty_buffer \<Rightarrow> (tty_buffer \<times> u8) res" where
  "tty_buffer_get b =
     (if tb_read b = tb_write b then ret (b, 0)
      else if \<not> (0 \<le> tb_read b \<and> nat (tb_read b) < length (tb_data b)) then fault
      else ret (b\<lparr>tb_read := tb_next b (tb_read b)\<rparr>, tb_data b ! nat (tb_read b)))"

subsection \<open>Subscribers\<close>

partial_function (option) notify_loop :: "subscribers \<Rightarrow> u64 \<Rightarrow> u64 list res" where
  "notify_loop subs p = bind_res (deref subs p) (\<lambda>s.
     if sub_next s = 0 then ret []
     else bind_res (deref subs (sub_next s)) (\<lambda>n.
       bind_res (notify_loop subs (sub_next s)) (\<lambda>hs. ret (sub_handler n # hs))))"

definition tty_run_subscribers :: "subscribers \<Rightarrow> tty \<Rightarrow> u8 \<Rightarrow> tty_event list res" where
  "tty_run_subscribers subs t event =
     (if tty_valid t = 0 then ret []
      else if tty_subscribers t = 0 then ret []
      else bind_res (notify_loop subs (tty_subscribers t)) (\<lambda>hs. ret (map (\<lambda>h. Notify h event) hs)))"

text \<open>The address \<open>p\<close> is the one \<^verbatim>\<open>kmalloc\<close> returns.\<close>

definition tty_add_subscriber :: "u64 \<Rightarrow> tty \<Rightarrow> u64 \<Rightarrow> subscribers \<Rightarrow> subscribers res" where
  "tty_add_subscriber p t handler subs =
     (if tty_valid t = 0 then ret subs
      else if tty_subscribers t = 0 then ret subs
      else bind_res (seek_last sub_next subs (tty_subscribers t)) (\<lambda>last.
        if p = 0 then fault
        else bind_res (modify last (\<lambda>s. s\<lparr>sub_next := p\<rparr>) subs) (\<lambda>subs.
          ret (subs(p \<mapsto> \<lparr>sub_handler = handler, sub_next = 0\<rparr>)))))"

text \<open>The store after the loop, without the freed node.\<close>

partial_function (option) remove_subscriber_loop :: "u64 \<Rightarrow> u64 \<Rightarrow> subscribers \<Rightarrow> subscribers res" where
  "remove_subscriber_loop handler p subs = bind_res (deref subs p) (\<lambda>s.
     if sub_next s = 0 then ret subs
     else if sub_handler s = handler then
       bind_res (deref subs (sub_next s)) (\<lambda>n.
         ret ((subs(p \<mapsto> s\<lparr>sub_next := sub_next n\<rparr>))(sub_next s := None)))
     else remove_subscriber_loop handler (sub_next s) subs)"

definition tty_remove_subscriber :: "tty \<Rightarrow> u64 \<Rightarrow> subscribers \<Rightarrow> subscribers res" where
  "tty_remove_subscriber t handler subs =
     (if tty_valid t = 0 then ret subs
      else if tty_subscribers t = 0 then ret subs
      else remove_subscriber_loop handler (tty_subscribers t) subs)"

subsection \<open>Output\<close>

text \<open>\<^verbatim>\<open>_tty_flush\<close>\<close>

definition flush_len :: "tty_buffer \<Rightarrow> int" where
  "flush_len b = (let len = tb_write b - tb_read b in if len < 0 then tb_size b - tb_read b else len)"

definition tty_flush :: "subscribers \<Rightarrow> tty \<Rightarrow> (tty \<times> tty_event list) res" where
  "tty_flush subs t =
     (let b = tty_outb t in
      if tb_addr b = 0 then ret (t, [])
      else if tb_read b = tb_write b then ret (t, [])
      else let len = flush_len b in
        if \<not> (0 \<le> tb_read b \<and> 0 \<le> len \<and> nat (tb_read b + len) \<le> length (tb_data b)) then fault
        else let t = t\<lparr>tty_outb := b\<lparr>tb_read := (if tb_read b + len \<ge> tb_size b then 0 else tb_read b + len)\<rparr>\<rparr>;
            sent = Dev_write (tty_outdev t) (take (nat len) (drop (nat (tb_read b)) (tb_data b))) in
          if tty_mode t = TTY_MODE_SERIAL then ret (t, [sent, Dev_ioctl (tty_outdev t) SERIAL_FLUSH_TX])
          else bind_res (tty_run_subscribers subs t TTY_EVENT_FLUSH_OUTB) (\<lambda>out. ret (t, sent # out)))"

definition tty_write_outb :: "subscribers \<Rightarrow> u8 \<Rightarrow> tty \<Rightarrow> (tty \<times> tty_event list) res" where
  "tty_write_outb subs c t =
     (if tb_addr (tty_outb t) = 0 then ret (t, [])
      else bind_res (tty_buffer_put (tty_outb t) c) (\<lambda>b.
        let t = t\<lparr>tty_outb := b\<rparr> in
        if c = TTY_FLUSH_CHAR then
          bind_res (tty_flush subs t) (\<lambda>(t, out).
          bind_res (tty_run_subscribers subs t TTY_EVENT_OUTB) (\<lambda>out'. ret (t, out @ out')))
        else ret (t, [])))"

definition tty_read_outb :: "tty \<Rightarrow> (tty \<times> u8 option) res" where
  "tty_read_outb t =
     (if tb_addr (tty_outb t) = 0 then ret (t, None)
      else bind_res (tty_buffer_get (tty_outb t)) (\<lambda>(b, c). ret (t\<lparr>tty_outb := b\<rparr>, Some c)))"

text \<open>\<^verbatim>\<open>_tty_write\<close>\<close>

definition tty_write :: "subscribers \<Rightarrow> u8 list \<Rightarrow> int \<Rightarrow> tty \<Rightarrow> (tty \<times> tty_event list) res" where
  "tty_write subs buffer sz t =
     (if tty_valid t = 0 then ret (t, [])
      else if tty_ld_addr t = 0 then ret (t, [])
      else iter_out (\<lambda>i t.
          if i < length buffer then
            bind_res (line_discipline_translate (tty_ld t) (buffer ! i)) (\<lambda>tbuffer. iter_out (tty_write_outb subs) tbuffer t)
          else fault) [0..<nat sz] t)"

subsection \<open>Input\<close>

definition tty_write_inb :: "u8 \<Rightarrow> tty \<Rightarrow> tty res" where
  "tty_write_inb c t =
     (if tb_addr (tty_inb t) = 0 then ret t
      else bind_res (tty_buffer_put (tty_inb t) c) (\<lambda>b. ret (t\<lparr>tty_inb := b\<rparr>)))"

text \<open>The character is None when the call leaves it as it was.\<close>

definition tty_read_inb :: "tty \<Rightarrow> (tty \<times> u8 option) res" where
  "tty_read_inb t =
     (if tb_addr (tty_inb t) = 0 then ret (t, None)
      else bind_res (tty_buffer_get (tty_inb t)) (\<lambda>(b, c). ret (t\<lparr>tty_inb := b\<rparr>, Some c)))"

definition flush_cb :: "subscribers \<Rightarrow> u8 list \<Rightarrow> tty \<Rightarrow> (tty \<times> tty_event list) res" where
  "flush_cb subs buffer t =
     bind_res (iter_res tty_write_inb buffer t) (\<lambda>t.
     bind_res (tty_run_subscribers subs t TTY_EVENT_INB) (\<lambda>out. ret (t, out)))"

definition echo_cb :: "u8 \<Rightarrow> tty \<Rightarrow> tty_event list" where
  "echo_cb c t =
     (if tty_echo t = 0 then []
      else Dev_write (tty_outdev t) [c] # (if tty_mode t = TTY_MODE_SERIAL then [Dev_ioctl (tty_outdev t) SERIAL_FLUSH_TX] else []))"

text \<open>The callbacks of the line discipline: a flushed span is read out of its buffer and must lie inside it.\<close>

fun ld_callback :: "subscribers \<Rightarrow> ld_event \<Rightarrow> tty \<Rightarrow> (tty \<times> tty_event list) res" where
  "ld_callback subs (Echo c) t = ret (t, echo_cb c t)"
| "ld_callback subs (Flush h n) t =
     (if n \<le> 0 then flush_cb subs [] t
      else case flush_bytes (ld_buffer (tty_ld t)) h n of None \<Rightarrow> fault | Some bs \<Rightarrow> flush_cb subs bs t)"
| "ld_callback subs (Flush_char c) t = flush_cb subs [c] t"
| "ld_callback subs (Print msg) t = ret (t, [])"

definition tty_read_cb :: "subscribers \<Rightarrow> u8 \<Rightarrow> tty \<Rightarrow> (tty \<times> tty_event list) res" where
  "tty_read_cb subs c t =
     (if tty_valid t = 0 then ret (t, [])
      else if tty_ld_addr t = 0 then ret (t, [])
      else bind_res (line_discipline_read (tty_ld t) c) (\<lambda>(ld, out). iter_out (ld_callback subs) out (t\<lparr>tty_ld := ld\<rparr>)))"

fun tty_read_loop :: "nat \<Rightarrow> nat \<Rightarrow> u8 list \<Rightarrow> tty \<Rightarrow> (tty \<times> u8 list) res" where
  "tty_read_loop i 0 buffer t = ret (t, buffer)"
| "tty_read_loop i (Suc n) buffer t =
     (if i < length buffer then
        bind_res (tty_read_inb t) (\<lambda>(t, c).
          let buffer = (case c of None \<Rightarrow> buffer | Some c \<Rightarrow> buffer[i := c]) in
          if buffer ! i = 0 then ret (t, buffer) else tty_read_loop (Suc i) n buffer t)
      else fault)"

text \<open>\<^verbatim>\<open>_tty_read\<close>\<close>

definition tty_read :: "int \<Rightarrow> u8 list \<Rightarrow> tty \<Rightarrow> (tty \<times> u8 list) res" where
  "tty_read sz buffer t =
     (if tty_valid t = 0 then ret (t, buffer)
      else if tty_ld_addr t = 0 then ret (t, buffer)
      else tty_read_loop 0 (nat sz) buffer t)"

definition tty_get_size :: "tty \<Rightarrow> int" where
  "tty_get_size t = (if tty_valid t = 0 then 0 else tb_write (tty_inb t) - tb_read (tty_inb t))"

text \<open>\<^verbatim>\<open>_tty_modes\<close>: mode 0 is raw, 1 is echo.\<close>

definition tty_modes :: "int \<Rightarrow> int \<Rightarrow> tty \<Rightarrow> tty" where
  "tty_modes mode v t =
     (if tty_valid t = 0 then t
      else if tty_ld_addr t = 0 then t
      else if mode = 0 then
        t\<lparr>tty_israw := word_of_int v,
          tty_ld := line_discipline_set_mode (tty_ld t) (if v \<noteq> 0 then LINE_DISCIPLINE_MODE_RAW else LINE_DISCIPLINE_MODE_CANONICAL)\<rparr>
      else if mode = 1 then t\<lparr>tty_echo := word_of_int v\<rparr>
      else t)"

subsection \<open>Creation and removal\<close>

definition get_tty :: "int \<Rightarrow> tty_state \<Rightarrow> tty option" where
  "get_tty index st = (if index < 0 \<or> index \<ge> 32 then None else if nat index < length (ttys st) then Some (ttys st ! nat index) else None)"

definition is_valid_tty :: "tty option \<Rightarrow> bool" where
  "is_valid_tty t = (case t of None \<Rightarrow> False | Some t \<Rightarrow> tty_valid t \<noteq> 0)"

definition set_tty :: "nat \<Rightarrow> tty \<Rightarrow> tty_state \<Rightarrow> tty_state" where
  "set_tty i t st = st\<lparr>ttys := (ttys st)[i := t]\<rparr>"

definition tty_destroy :: "nat \<Rightarrow> tty_state \<Rightarrow> tty_state" where
  "tty_destroy i st =
     (let t = ttys st ! i in
      if tty_valid t = 0 then st
      else (set_tty i (t\<lparr>tty_valid := 0\<rparr>) st)
        \<lparr>tty_freed := tty_freed st @ filter (\<lambda>p. p \<noteq> 0) [tb_addr (tty_inb t), tb_addr (tty_outb t), tty_subscribers t, tty_ld_addr t]\<rparr>)"

text \<open>The addresses the allocations of \<^verbatim>\<open>tty_init\<close> return, null when they fail, and what the uncleared buffer of the line discipline holds.\<close>

record tty_allocs =
  al_inb :: u64
  al_outb :: u64
  al_subs :: u64
  al_ld :: u64
  al_ld_buffer :: u64
  al_contents :: "u8 list"

abbreviation new_buffer :: "u64 \<Rightarrow> int \<Rightarrow> tty_buffer" where
  "new_buffer a n \<equiv> \<lparr>tb_addr = a, tb_data = replicate (nat n) 0, tb_size = n, tb_write = 0, tb_read = 0\<rparr>"

text \<open>The line discipline \<^verbatim>\<open>tty_init\<close> asks for, and the address it frees itself when its buffer cannot be allocated.\<close>

definition tty_line_discipline :: "tty_allocs \<Rightarrow> line_discipline option" where
  "tty_line_discipline al =
     (if al_ld al = 0 then None
      else line_discipline_create LINE_DISCIPLINE_MODE_CANONICAL LINE_DISCIPLINE_MODE_ECHO_ON 1024 (al_ld_buffer al) (al_contents al) True)"

definition tty_init ::
  "u8 list option \<Rightarrow> u8 list option \<Rightarrow> int \<Rightarrow> int \<Rightarrow> int \<Rightarrow> tty_allocs \<Rightarrow> tty_state \<Rightarrow> tty_state \<times> tty_event list \<times> int" where
  "tty_init indev outdev mode inbs outbs al st =
     (case (indev, outdev, find (\<lambda>i. tty_valid (ttys st ! i) = 0) [0..<32]) of
        (Some indev, Some outdev, Some index) \<Rightarrow>
          if \<not> (mode = TTY_MODE_SERIAL \<or> mode = TTY_MODE_PTY) then (st, [], -1)
          else let t = (ttys st ! index)\<lparr>tty_mode := mode, tty_valid := 0, tty_indev := take 32 indev, tty_outdev := take 32 outdev,
              tty_signal := 0\<rparr> in
            if al_inb al = 0 then (set_tty index (t\<lparr>tty_inb := (tty_inb t)\<lparr>tb_addr := 0\<rparr>\<rparr>) st, [], -1)
            else let t = t\<lparr>tty_inb := new_buffer (al_inb al) inbs\<rparr> in
              if al_outb al = 0 then
                ((set_tty index (t\<lparr>tty_outb := (tty_outb t)\<lparr>tb_addr := 0\<rparr>\<rparr>) st)\<lparr>tty_freed := tty_freed st @ [al_inb al]\<rparr>, [], -1)
              else let t = t\<lparr>tty_outb := new_buffer (al_outb al) outbs, tty_subscribers := al_subs al\<rparr> in
                if al_subs al = 0 then
                  ((set_tty index t st)\<lparr>tty_freed := tty_freed st @ [al_inb al, al_outb al]\<rparr>, [], -1)
                else let st' = st\<lparr>st_subs := (st_subs st)(al_subs al \<mapsto> \<lparr>sub_handler = 0, sub_next = 0\<rparr>)\<rparr>;
                    t = t\<lparr>tty_israw := 0, tty_echo := 1\<rparr> in
                  case tty_line_discipline al of
                    None \<Rightarrow> ((set_tty index (t\<lparr>tty_ld_addr := 0\<rparr>) st')
                        \<lparr>tty_freed := tty_freed st @ (if al_ld al = 0 then [] else [al_ld al]) @ [al_inb al, al_outb al, al_subs al]\<rparr>, [], -1)
                  | Some ld \<Rightarrow> (set_tty index (t\<lparr>tty_ld_addr := al_ld al, tty_ld := ld, tty_valid := 1\<rparr>) st',
                      if mode = TTY_MODE_SERIAL then [Dev_ioctl (tty_indev t) SERIAL_SUBSCRIBE_READ] else [], int index)
      | _ \<Rightarrow> (st, [], -1))"

subsection \<open>The driver\<close>

text \<open>The conversion \<^verbatim>\<open>(int)\<close> of a 64-bit argument, and the length of the string a buffer starts with.\<close>

definition as_int :: "u64 \<Rightarrow> int" where
  "as_int w = sint (ucast w :: 32 word)"

definition buffer_strlen :: "u8 list \<Rightarrow> u64 res" where
  "buffer_strlen b =
     (let n = length (takeWhile (\<lambda>c. c \<noteq> 0) b) in
      if 65536 \<le> n then ret 65536 else if n < length b then ret (word_of_nat n) else fault)"

text \<open>\<open>skipped\<close> is what the temporary buffer for the skipped bytes holds when it is allocated.\<close>

definition tty_dd_read_block_direct :: "u64 \<Rightarrow> u64 \<Rightarrow> u8 list \<Rightarrow> u8 list \<Rightarrow> tty \<Rightarrow> (tty \<times> u8 list \<times> u64) res" where
  "tty_dd_read_block_direct sz skip skipped buffer t =
     bind_res (tty_read (as_int skip) skipped t) (\<lambda>(t, _).
     bind_res (tty_read (as_int sz) buffer t) (\<lambda>(t, buffer).
     bind_res (buffer_strlen buffer) (\<lambda>n. ret (t, buffer, n))))"

definition tty_dd_write_block_direct :: "subscribers \<Rightarrow> u64 \<Rightarrow> u64 \<Rightarrow> u8 list \<Rightarrow> tty \<Rightarrow> (tty \<times> tty_event list \<times> u64) res" where
  "tty_dd_write_block_direct sb sz skip buffer t =
     bind_res (tty_write sb (drop (unat skip) buffer) (as_int sz) t) (\<lambda>(t, out). ret (t, out, sz))"

definition tty_dd_read_block :: "u64 \<Rightarrow> u64 \<Rightarrow> u64 \<Rightarrow> u8 list \<Rightarrow> u8 list \<Rightarrow> tty_state \<Rightarrow> (tty_state \<times> u8 list \<times> u64) res" where
  "tty_dd_read_block port sz skip skipped buffer st =
     (case get_tty (as_int port) st of
        Some t \<Rightarrow> if is_valid_tty (Some t) then
            bind_res (tty_read (as_int skip) skipped t) (\<lambda>(t, _).
            bind_res (tty_read (as_int sz) buffer t) (\<lambda>(t, buffer).
            bind_res (buffer_strlen buffer) (\<lambda>n. ret (set_tty (nat (as_int port)) t st, buffer, n))))
          else ret (st, buffer, 0)
      | None \<Rightarrow> ret (st, buffer, 0))"

definition tty_dd_write_block :: "u64 \<Rightarrow> u64 \<Rightarrow> u64 \<Rightarrow> u8 list \<Rightarrow> tty_state \<Rightarrow> (tty_state \<times> tty_event list \<times> u64) res" where
  "tty_dd_write_block port sz skip buffer st =
     (case get_tty (as_int port) st of
        Some t \<Rightarrow> if is_valid_tty (Some t) then
            bind_res (tty_write (st_subs st) (drop (unat skip) buffer) (as_int sz) t) (\<lambda>(t, out).
              ret (set_tty (nat (as_int port)) t st, out, sz))
          else ret (st, [], 0)
      | None \<Rightarrow> ret (st, [], 0))"

text \<open>\<open>data\<close> is the third argument as an address, \<open>v\<close> the integer it points to and \<open>p\<close> the address of a new subscriber.\<close>

definition tty_dd_ioctl :: "u64 \<Rightarrow> u32 \<Rightarrow> u64 \<Rightarrow> int \<Rightarrow> u64 \<Rightarrow> tty_state \<Rightarrow> (tty_state \<times> tty_event list \<times> u64) res" where
  "tty_dd_ioctl port op data v p st =
     (case get_tty (as_int port) st of
        Some t \<Rightarrow> let put = (\<lambda>t. set_tty (nat (as_int port)) t st) in
          if \<not> is_valid_tty (Some t) then ret (st, [], 0)
          else if op = 1 then bind_res (tty_add_subscriber p t data (st_subs st)) (\<lambda>sb. ret (st\<lparr>st_subs := sb\<rparr>, [], 1))
          else if op = 2 then bind_res (tty_remove_subscriber t data (st_subs st)) (\<lambda>sb. ret (st\<lparr>st_subs := sb\<rparr>, [], 1))
          else if op = 3 then ret (put (tty_modes 0 v t), [], 1)
          else if op = 4 then ret (put (tty_modes 1 v t), [], 1)
          else if op = 5 then bind_res (tty_flush (st_subs st) t) (\<lambda>(t, out). ret (put t, out, 1))
          else if op = 6 then ret (st, [], if is_valid_tty (Some t) then 1 else 0)
          else if op = 7 then ret (st, [], word_of_int (tty_get_size t))
          else ret (st, [], 0)
      | None \<Rightarrow> ret (st, [], 0))"

subsection \<open>The buffers as queues\<close>

definition tb_ok :: "nat \<Rightarrow> tty_buffer \<Rightarrow> bool" where
  "tb_ok N b \<longleftrightarrow> tb_addr b \<noteq> 0 \<and> length (tb_data b) = Suc N \<and> tb_size b = int (Suc N) \<and>
     0 \<le> tb_read b \<and> tb_read b < tb_size b \<and> 0 \<le> tb_write b \<and> tb_write b < tb_size b"

definition tb_contents :: "tty_buffer \<Rightarrow> u8 list" where
  "tb_contents b = map (\<lambda>i. tb_data b ! ((nat (tb_read b) + i) mod length (tb_data b)))
     [0..<nat ((tb_write b - tb_read b) mod tb_size b)]"

lemma tb_cells:
  assumes "tb_ok N b"
  obtains k where "tb_read b = int k" "cells (tb_data b) k (tb_contents b)"
    "tb_write b = int ((k + length (tb_contents b)) mod Suc N)"
proof -
  define k where "k = nat (tb_read b)"
  have k: "tb_read b = int k" "k < Suc N" using assms by (auto simp: tb_ok_def k_def)
  have n: "int (length (tb_contents b)) = (tb_write b - tb_read b) mod int (Suc N)"
    using assms by (simp add: tb_contents_def tb_ok_def)
  have "(tb_write b - tb_read b) mod int (Suc N) < int (Suc N)" by (rule pos_mod_bound) simp
  then have l: "length (tb_contents b) < Suc N" using n by linarith
  then have "cells (tb_data b) k (tb_contents b)" using assms k by (auto simp: cells_def tb_ok_def tb_contents_def)
  moreover have "int ((k + length (tb_contents b)) mod Suc N) = (tb_read b + (tb_write b - tb_read b) mod int (Suc N)) mod int (Suc N)"
    using n k(1) by (simp add: zmod_int del: of_nat_Suc)
  then have "int ((k + length (tb_contents b)) mod Suc N) = tb_write b" using assms by (simp add: mod_simps tb_ok_def)
  ultimately show ?thesis using that k(1) by metis
qed

lemma tb_contentsI:
  assumes "tb_read b = int k" "cells (tb_data b) k q" "tb_write b = int ((k + length q) mod length (tb_data b))"
    "tb_size b = int (length (tb_data b))"
  shows "tb_contents b = q"
proof -
  have l: "length q < length (tb_data b)" "k < length (tb_data b)" using assms(2) by (auto simp: cells_def)
  have "(tb_write b - tb_read b) mod tb_size b = (int (k + length q) - int k) mod int (length (tb_data b))"
    using assms by (simp add: zmod_int mod_simps)
  also have "\<dots> = int (length q)" using l by simp
  finally show ?thesis using assms(1,2) by (intro nth_equalityI) (simp_all add: tb_contents_def cells_def)
qed

lemma tb_next_mod: "tb_size b = int (Suc N) \<Longrightarrow> k < Suc N \<Longrightarrow> tb_next b (int k) = int (Suc k mod Suc N)"
  by (auto simp: tb_next_def mod_Suc)

lemma tb_put_ok:
  assumes "tb_ok N b"
  shows "\<exists>b'. tty_buffer_put b c = ret b' \<and> tb_ok N b' \<and> tb_contents b' = last_n N (tb_contents b @ [c])"
proof -
  from tb_cells [OF assms] obtain k where k: "tb_read b = int k" "cells (tb_data b) k (tb_contents b)"
    "tb_write b = int ((k + length (tb_contents b)) mod Suc N)" .
  have N: "length (tb_data b) = Suc N" "tb_size b = int (Suc N)" "k < Suc N" using assms k by (auto simp: tb_ok_def)
  define w where "w = (k + length (tb_contents b)) mod Suc N"
  have w: "w < Suc N" "Suc w mod Suc N = Suc (k + length (tb_contents b)) mod Suc N"
    unfolding w_def by (simp_all only: mod_less_divisor zero_less_Suc mod_Suc_eq)
  let ?h = "if Suc w mod Suc N = k then Suc k mod Suc N else k"
  let ?b = "b\<lparr>tb_data := (tb_data b)[w := c], tb_write := int (Suc w mod Suc N), tb_read := int ?h\<rparr>"
  have "tty_buffer_put b c = ret ?b"
    using w(1) N(1) k(1,3) tb_next_mod [OF N(2) w(1)] tb_next_mod [OF N(2,3)]
    by (simp add: tty_buffer_put_def Let_def flip: w_def del: of_nat_Suc of_nat_mod)
  moreover note put = cells_put(1,2) [OF k(2) refl refl, of c, unfolded N(1) w_def [symmetric] w(2) [symmetric]]
  have "tb_contents ?b = last_n N (tb_contents b @ [c])"
    using put by (intro tb_contentsI [of _ ?h]) (simp_all add: N(1,2) del: of_nat_mod)
  moreover have "?h < Suc N" "Suc w mod Suc N < Suc N" using N(3) by simp_all
  then have "tb_ok N ?b" using assms unfolding tb_ok_def by (auto simp del: of_nat_mod of_nat_Suc)
  ultimately show ?thesis by blast
qed

lemma tb_get_ok:
  assumes ok: "tb_ok N b"
  shows "tb_contents b = [] \<Longrightarrow> tty_buffer_get b = ret (b, 0)"
    and "tb_contents b = x # q \<Longrightarrow> \<exists>b'. tty_buffer_get b = ret (b', x) \<and> tb_ok N b' \<and> tb_contents b' = q \<and> tb_read b \<noteq> tb_write b"
proof -
  from tb_cells [OF ok] obtain k where k: "tb_read b = int k" "cells (tb_data b) k (tb_contents b)"
    "tb_write b = int ((k + length (tb_contents b)) mod Suc N)" .
  have N: "length (tb_data b) = Suc N" "tb_size b = int (Suc N)" "k < Suc N" using ok k by (auto simp: tb_ok_def)
  show "tb_contents b = [] \<Longrightarrow> tty_buffer_get b = ret (b, 0)" using k N by (simp add: tty_buffer_get_def)
  assume q: "tb_contents b = x # q"
  note c = cells_take [OF k(2) [unfolded q], unfolded N(1)]
  have ne: "tb_read b \<noteq> tb_write b" using c(4) k(1,3) q by (metis of_nat_eq_iff)
  let ?b = "b\<lparr>tb_read := int (Suc k mod Suc N)\<rparr>"
  have "tty_buffer_get b = ret (?b, x)" using ne N k(1) c(1) tb_next_mod [OF N(2,3)] by (simp add: tty_buffer_get_def del: of_nat_Suc of_nat_mod)
  moreover have "tb_contents ?b = q" using c(2,3) k(3) N q by (intro tb_contentsI [of _ "Suc k mod Suc N"]) (simp_all del: of_nat_mod)
  moreover have "Suc k mod Suc N < Suc N" by simp
  then have "tb_ok N ?b" using ok unfolding tb_ok_def by (auto simp del: of_nat_mod of_nat_Suc)
  ultimately show "\<exists>b'. tty_buffer_get b = ret (b', x) \<and> tb_ok N b' \<and> tb_contents b' = q \<and> tb_read b \<noteq> tb_write b" using ne by blast
qed

definition tb_push :: "u8 list \<Rightarrow> tty_buffer \<Rightarrow> tty_buffer res" where
  "tb_push = iter_res (\<lambda>c b. tty_buffer_put b c)"

primrec tb_pop :: "nat \<Rightarrow> tty_buffer \<Rightarrow> (tty_buffer \<times> u8 list) res" where
  "tb_pop 0 b = ret (b, [])"
| "tb_pop (Suc n) b = (if tb_read b = tb_write b then ret (b, [])
     else bind_res (tty_buffer_get b) (\<lambda>(b, c). bind_res (tb_pop n b) (\<lambda>(b, cs). ret (b, c # cs))))"

lemma last_n_step: "last_n N (last_n N xs @ ys) = last_n N (xs @ ys)"
proof (cases "length xs \<le> N")
  case False
  then have "drop (length xs - N) xs @ ys = drop (length xs - N) (xs @ ys)" by simp
  with False show ?thesis by (simp add: last_n_def add.commute del: drop_append)
qed (simp add: last_n_short)

lemma tb_push_ok: "tb_ok N b \<Longrightarrow> \<exists>b'. tb_push bs b = ret b' \<and> tb_ok N b' \<and> tb_contents b' = last_n N (tb_contents b @ bs)"
proof (induction bs arbitrary: b)
  case Nil
  then have "length (tb_contents b) \<le> N" by (metis tb_cells cells_def tb_ok_def less_Suc_eq_le)
  then show ?case using Nil by (simp add: tb_push_def last_n_short)
next
  case (Cons c bs)
  from tb_put_ok [OF Cons.prems, of c] obtain b1 where
    b1: "tty_buffer_put b c = ret b1" "tb_ok N b1" "tb_contents b1 = last_n N (tb_contents b @ [c])" by blast
  from Cons.IH [OF b1(2)] show ?case using b1(1,3) by (auto simp: tb_push_def last_n_step)
qed

lemma tb_pop_ok: "tb_ok N b \<Longrightarrow> \<exists>b'. tb_pop n b = ret (b', take n (tb_contents b)) \<and> tb_ok N b' \<and> tb_contents b' = drop n (tb_contents b)"
proof (induction n arbitrary: b)
  case (Suc n)
  show ?case
  proof (cases "tb_contents b")
    case Nil
    from tb_cells [OF Suc.prems] obtain k where "tb_read b = int k" "cells (tb_data b) k (tb_contents b)"
      "tb_write b = int ((k + length (tb_contents b)) mod Suc N)" .
    then have "tb_read b = tb_write b" using Nil Suc.prems by (simp add: cells_def tb_ok_def)
    then show ?thesis using Nil Suc.prems by simp
  next
    case (Cons x q)
    from tb_get_ok(2) [OF Suc.prems this] Suc.IH show ?thesis using Cons by fastforce
  qed
qed simp

interpretation tty_queue: byte_queue tb_ok tb_contents tb_push tb_pop
  by unfold_locales (use tb_push_ok tb_pop_ok in blast)+

subsection \<open>Typing a line\<close>

interpretation subscriber_link: linked_node sub_next "\<lambda>p s. s\<lparr>sub_next := p\<rparr>"
  by unfold_locales simp

lemma notify_chain:
  "chain sub_next sb p (a # as) \<Longrightarrow> notify_loop sb p = ret (map (\<lambda>x. sub_handler (the (sb x))) as)"
proof (induction as arbitrary: p a)
  case Nil
  then show ?case by (auto simp: notify_loop.simps)
next
  case (Cons b as)
  then obtain s where s: "sb a = Some s" "sub_next s = b" "b \<noteq> 0" "p = a" and c: "chain sub_next sb b (b # as)" by auto
  then obtain n where n: "sb b = Some n" by auto
  from Cons.IH [OF c] s n show ?case by (subst notify_loop.simps) simp
qed

text \<open>The subscribers of a terminal, without the head of their list.\<close>

definition subscribed :: "subscribers \<Rightarrow> tty \<Rightarrow> u64 list \<Rightarrow> bool" where
  "subscribed sb t as \<longleftrightarrow> tty_valid t \<noteq> 0 \<and> chain sub_next sb (tty_subscribers t) (tty_subscribers t # as)"

lemma run_subscribers_ok:
  "subscribed sb t as \<Longrightarrow> tty_run_subscribers sb t e = ret (map (\<lambda>x. Notify (sub_handler (the (sb x))) e) as)"
  using notify_chain [of sb "tty_subscribers t" "tty_subscribers t" as]
  by (auto simp: subscribed_def tty_run_subscribers_def simp del: path.simps dest: path_not_0)

definition written :: "tty_event list \<Rightarrow> u8 list" where
  "written out = concat (map (\<lambda>e. case e of Dev_write d bs \<Rightarrow> bs | _ \<Rightarrow> []) out)"

definition notified :: "tty_event list \<Rightarrow> tty_event list" where
  "notified out = filter (\<lambda>e. case e of Notify h ev \<Rightarrow> True | _ \<Rightarrow> False) out"

lemma written_append [simp]: "written (xs @ ys) = written xs @ written ys" "written [] = []"
  by (simp_all add: written_def)

lemma written_Cons: "written (Dev_write d bs # out) = bs @ written out" "written (Dev_ioctl d e # out) = written out"
  by (simp_all add: written_def)

lemma notified_append [simp]: "notified (xs @ ys) = notified xs @ notified ys" "notified [] = []"
  by (simp_all add: notified_def)

lemma echo_cb_out [simp]: "written (echo_cb c t) = (if tty_echo t = 0 then [] else [c])" "notified (echo_cb c t) = []"
  by (simp_all add: echo_cb_def written_def notified_def)

lemma notifications [simp]: "written (map (\<lambda>x. Notify (f x) e) xs) = []" "notified (map (\<lambda>x. Notify (f x) e) xs) = map (\<lambda>x. Notify (f x) e) xs"
  by (induction xs) (simp_all add: written_def notified_def)

lemma iter_out_append:
  "iter_out body (xs @ ys) s = bind_res (iter_out body xs s) (\<lambda>(s, out). bind_res (iter_out body ys s) (\<lambda>(s, out'). ret (s, out @ out')))"
  by (induction xs arbitrary: s) (auto simp: bind_res_assoc bind_res_def split: option.splits sum.splits prod.splits Option.bind_splits)

text \<open>A terminal with a line discipline in canonical mode that holds the unfinished line \<open>q\<close>.\<close>

definition tty_line :: "tty \<Rightarrow> u8 list \<Rightarrow> bool" where
  "tty_line t q \<longleftrightarrow> tty_valid t \<noteq> 0 \<and> tty_ld_addr t \<noteq> 0 \<and> holds (tty_ld t) q \<and> ld_mode (tty_ld t) = LINE_DISCIPLINE_MODE_CANONICAL \<and>
     ld_has_echo_cb (tty_ld t)"

definition echoes :: "tty \<Rightarrow> u8 list \<Rightarrow> u8 list" where
  "echoes t s = (if tty_echo t \<noteq> 0 \<and> ld_echo (tty_ld t) = LINE_DISCIPLINE_MODE_ECHO_ON then s else [])"

lemma read_printable_out:
  assumes "ld_valid ld = 1" "ld_mode ld = LINE_DISCIPLINE_MODE_CANONICAL" "printable c" "line_discipline_read ld c = ret (ld', out)"
  shows "out = (if echo_on ld' then [Echo c] else [])"
proof -
  have "\<not> is_control c" using assms(3) by (auto simp: is_control_iff printable_def)
  then show ?thesis using assms(1,2,4) by (auto simp: line_discipline_read_def line_discipline_apply_def ld_modes bind_res_eq_ret)
qed

lemma read_cret_out:
  assumes h: "holds ld q" and m: "ld_mode ld = LINE_DISCIPLINE_MODE_CANONICAL"
  shows "line_discipline_read ld 13 = ret (ld\<lparr>ld_head := ld_tail ld\<rparr>, (if echo_on ld then [Echo 13, Echo 10] else []) @ [Flush (ld_head ld) (int (length q))])"
proof -
  have v: "ld_valid ld = 1" using h by (simp add: holds_def)
  have o: "takeWhile (\<lambda>x. x \<noteq> LD_NULL) (take LD_OUTPUT_SIZE (e_output (default_ld_table ! 13))) = [13, 10]"
    by (simp add: default_ld_table_def LD_OUTPUT_SIZE_def LD_NULL_def)
  have "line_discipline_read ld 13 = line_discipline_apply ld 13" using v m by (simp add: line_discipline_read_def ld_modes)
  then show ?thesis using apply_control [OF v, of 13] flush_holds(1) [OF h m] by (simp add: table_actions ld_cret_def o)
qed

lemma tty_type_ok:
  assumes "tty_line t q" "\<forall>c \<in> set s. printable c" "length q + length s < length (ld_buffer (tty_ld t))"
  shows "\<exists>ld out. iter_out (tty_read_cb sb) s t = ret (t\<lparr>tty_ld := ld\<rparr>, out) \<and> tty_line (t\<lparr>tty_ld := ld\<rparr>) (q @ s) \<and>
    ld_head ld = ld_head (tty_ld t) \<and> ld_echo ld = ld_echo (tty_ld t) \<and> length (ld_buffer ld) = length (ld_buffer (tty_ld t)) \<and>
    written out = echoes t s \<and> notified out = []"
  using assms
proof (induction s arbitrary: t q)
  case Nil
  then show ?case by (auto simp: echoes_def intro!: exI [of _ "tty_ld t"])
next
  case (Cons c s)
  let ?ld = "tty_ld t"
  have t: "tty_valid t \<noteq> 0" "tty_ld_addr t \<noteq> 0" "holds ?ld q" "ld_mode ?ld = LINE_DISCIPLINE_MODE_CANONICAL" "ld_has_echo_cb ?ld"
    using Cons.prems(1) by (auto simp: tty_line_def)
  have c: "27 < c" "c \<noteq> 127" "c \<noteq> 8" "c \<noteq> 13" "printable c" using Cons.prems(2) by (auto simp: printable_def)
  have e: "line_edit (length (ld_buffer ?ld)) q c = q @ [c]" using c Cons.prems(3) by (simp add: line_edit_def last_n_def not_le)
  from ld_read_ok [OF t(3-5), of c] c e Cons.prems(3) obtain ld out where
    r: "line_discipline_read ?ld c = ret (ld, out)" "holds ld (q @ [c])" "ld_mode ld = ld_mode ?ld" "ld_has_echo_cb ld" "ld_echo ld = ld_echo ?ld"
      "length (ld_buffer ld) = length (ld_buffer ?ld)" "ld_head ld = ld_head ?ld" by auto
  have "ld_valid ?ld = 1" using t(3) by (simp add: holds_def)
  from read_printable_out [OF this t(4) c(5) r(1)] have out: "out = (if echo_on ld then [Echo c] else [])" .
  have l: "tty_line (t\<lparr>tty_ld := ld\<rparr>) (q @ [c])" using t r by (simp add: tty_line_def)
  have cb: "tty_read_cb sb c t = ret (t\<lparr>tty_ld := ld\<rparr>, if echo_on ld then echo_cb c (t\<lparr>tty_ld := ld\<rparr>) else [])"
    using t(1,2) r(1) out by (simp add: tty_read_cb_def)
  from Cons.IH [OF l] Cons.prems(2,3) r(6) obtain ld2 out2 where
    "iter_out (tty_read_cb sb) s (t\<lparr>tty_ld := ld\<rparr>) = ret (t\<lparr>tty_ld := ld2\<rparr>, out2)" "tty_line (t\<lparr>tty_ld := ld2\<rparr>) (q @ c # s)"
    "ld_head ld2 = ld_head ld" "ld_echo ld2 = ld_echo ld" "length (ld_buffer ld2) = length (ld_buffer ld)"
    "written out2 = echoes (t\<lparr>tty_ld := ld\<rparr>) s" "notified out2 = []" by auto
  then show ?case using cb r by (auto simp: echoes_def echo_on_def)
qed

lemma write_inb_all:
  assumes "tb_ok N (tty_inb t)"
  shows "\<exists>b. iter_res tty_write_inb bs t = ret (t\<lparr>tty_inb := b\<rparr>) \<and> tb_ok N b \<and> tb_contents b = last_n N (tb_contents (tty_inb t) @ bs)"
proof -
  have "tb_ok N (tty_inb t) \<Longrightarrow> iter_res tty_write_inb bs t = bind_res (tb_push bs (tty_inb t)) (\<lambda>b. ret (t\<lparr>tty_inb := b\<rparr>))"
  proof (induction bs arbitrary: t)
    case (Cons c bs)
    from tb_put_ok [OF Cons.prems, of c] obtain b where b: "tty_buffer_put (tty_inb t) c = ret b" "tb_ok N b" by blast
    have "tb_addr (tty_inb t) \<noteq> 0" using Cons.prems by (simp add: tb_ok_def)
    then show ?case using b Cons.IH [of "t\<lparr>tty_inb := b\<rparr>"] by (simp add: tty_write_inb_def tb_push_def)
  qed (simp add: tb_push_def)
  then show ?thesis using assms tb_push_ok [OF assms, of bs] by auto
qed

lemma tty_read_loop_ok:
  assumes "tb_ok N (tty_inb t)" "0 \<notin> set (tb_contents (tty_inb t))" "i + n \<le> length buffer"
  shows "\<exists>b. tty_read_loop i n buffer t = ret (t\<lparr>tty_inb := b\<rparr>,
      take i buffer @ take n (tb_contents (tty_inb t) @ [0]) @ drop (i + min n (Suc (length (tb_contents (tty_inb t))))) buffer) \<and>
    tb_ok N b \<and> tb_contents b = drop n (tb_contents (tty_inb t))"
  using assms
proof (induction n arbitrary: i buffer t)
  case 0
  then show ?case by (auto intro!: exI [of _ "tty_inb t"])
next
  case (Suc n)
  have a: "tb_addr (tty_inb t) \<noteq> 0" using Suc.prems(1) by (simp add: tb_ok_def)
  have i: "i < length buffer" using Suc.prems(3) by simp
  show ?case
  proof (cases "tb_contents (tty_inb t)")
    case Nil
    then show ?thesis using tb_get_ok(1) [OF Suc.prems(1)] a i Suc.prems(1)
      by (auto simp: tty_read_inb_def upd_conv_take_nth_drop nth_append Let_def intro!: exI [of _ "tty_inb t"])
  next
    case (Cons x q)
    from tb_get_ok(2) [OF Suc.prems(1) Cons] obtain b where
      b: "tty_buffer_get (tty_inb t) = ret (b, x)" "tb_ok N b" "tb_contents b = q" by blast
    have "x \<noteq> 0" using Suc.prems(2) Cons by simp
    then have l: "tty_read_loop i (Suc n) buffer t = tty_read_loop (Suc i) n (buffer[i := x]) (t\<lparr>tty_inb := b\<rparr>)"
      using b(1) a i by (simp add: tty_read_inb_def)
    from Suc.IH [of "t\<lparr>tty_inb := b\<rparr>" "Suc i" "buffer[i := x]"] b Suc.prems(2,3) Cons show ?thesis
      unfolding l using i by (auto simp: take_Suc_conv_app_nth)
  qed
qed

lemma flush_cb_ok:
  assumes "tb_ok N (tty_inb t)" "subscribed sb t as"
  shows "\<exists>b. flush_cb sb bs t = ret (t\<lparr>tty_inb := b\<rparr>, map (\<lambda>x. Notify (sub_handler (the (sb x))) TTY_EVENT_INB) as) \<and> tb_ok N b \<and>
    tb_contents b = last_n N (tb_contents (tty_inb t) @ bs)"
proof -
  from write_inb_all [OF assms(1)] obtain b where
    b: "iter_res tty_write_inb bs t = ret (t\<lparr>tty_inb := b\<rparr>)" "tb_ok N b" "tb_contents b = last_n N (tb_contents (tty_inb t) @ bs)" by blast
  moreover have "subscribed sb (t\<lparr>tty_inb := b\<rparr>) as" using assms(2) by (simp add: subscribed_def)
  ultimately show ?thesis by (intro exI [of _ b]) (simp add: flush_cb_def run_subscribers_ok)
qed

lemma tty_cret_ok:
  assumes t: "tty_line t q" and fit: "ld_head (tty_ld t) + int (length q) \<le> ld_size (tty_ld t)"
    and b: "tb_ok N (tty_inb t)" and sub: "subscribed sb t as"
  shows "\<exists>t' out. tty_read_cb sb 13 t = ret (t', out) \<and> tty_line t' [] \<and> tb_ok N (tty_inb t') \<and>
    tb_contents (tty_inb t') = last_n N (tb_contents (tty_inb t) @ q) \<and> written out = echoes t [13, 10] \<and>
    notified out = map (\<lambda>x. Notify (sub_handler (the (sb x))) TTY_EVENT_INB) as"
proof -
  let ?ld = "tty_ld t"
  have l: "tty_valid t \<noteq> 0" "tty_ld_addr t \<noteq> 0" "holds ?ld q" "ld_mode ?ld = LINE_DISCIPLINE_MODE_CANONICAL" "ld_has_echo_cb ?ld"
    using t by (auto simp: tty_line_def)
  let ?ld' = "?ld\<lparr>ld_head := ld_tail ?ld\<rparr>"
  let ?t = "t\<lparr>tty_ld := ?ld'\<rparr>"
  have "subscribed sb ?t as" "tb_ok N (tty_inb ?t)" using sub b by (simp_all add: subscribed_def)
  from flush_cb_ok [OF this(2,1), of q] obtain b' where
    f: "flush_cb sb q ?t = ret (?t\<lparr>tty_inb := b'\<rparr>, map (\<lambda>x. Notify (sub_handler (the (sb x))) TTY_EVENT_INB) as)" "tb_ok N b'"
      "tb_contents b' = last_n N (tb_contents (tty_inb t) @ q)" by auto
  have "ld_callback sb (Flush (ld_head ?ld) (int (length q))) ?t = flush_cb sb q ?t"
    using flush_holds(3) [OF l(3,4) fit] by simp
  then have "tty_read_cb sb 13 t = ret (?t\<lparr>tty_inb := b'\<rparr>,
      (if echo_on ?ld then echo_cb 13 ?t @ echo_cb 10 ?t else []) @ map (\<lambda>x. Notify (sub_handler (the (sb x))) TTY_EVENT_INB) as)"
    using read_cret_out [OF l(3,4)] l(1,2) f(1) by (simp add: tty_read_cb_def del: ld_callback.simps(2))
  moreover have "tty_line (?t\<lparr>tty_inb := b'\<rparr>) []" using l flush_holds(2) [OF l(3,4)] by (simp add: tty_line_def)
  ultimately show ?thesis using f(2,3) l(5)
    by (intro exI [of _ "?t\<lparr>tty_inb := b'\<rparr>"] exI conjI) (auto simp: echoes_def echo_on_def)
qed

text \<open>A line that wraps around the end of the line buffer: the span that is flushed leaves the buffer.\<close>

lemma tty_cret_fault:
  assumes t: "tty_line t q" and wrap: "ld_size (tty_ld t) < ld_head (tty_ld t) + int (length q)"
  shows "tty_read_cb sb 13 t = fault"
proof -
  let ?ld = "tty_ld t"
  have l: "tty_valid t \<noteq> 0" "tty_ld_addr t \<noteq> 0" "holds ?ld q" "ld_mode ?ld = LINE_DISCIPLINE_MODE_CANONICAL"
    using t by (auto simp: tty_line_def)
  let ?t = "t\<lparr>tty_ld := ?ld\<lparr>ld_head := ld_tail ?ld\<rparr>\<rparr>"
  have "ld_head ?ld < ld_size ?ld" using l(3) by (auto simp: holds_def)
  then have "0 < int (length q)" using wrap by linarith
  then have "ld_callback sb (Flush (ld_head ?ld) (int (length q))) ?t = fault"
    using flush_holds(4) [OF l(3,4) wrap] by simp
  then show ?thesis using read_cret_out [OF l(3,4)] l(1,2) by (simp add: tty_read_cb_def del: ld_callback.simps(2))
qed

subsection \<open>Flushing the output\<close>

lemma tty_flush_ok:
  assumes ok: "tb_ok N (tty_outb t)" and q: "tb_contents (tty_outb t) = q" "q \<noteq> []" and sub: "subscribed sb t as"
  shows "\<exists>b out. tty_flush sb t = ret (t\<lparr>tty_outb := b\<rparr>, out) \<and> tb_ok N b \<and>
    written out = take (Suc N - nat (tb_read (tty_outb t))) q \<and> tb_contents b = drop (Suc N - nat (tb_read (tty_outb t))) q \<and>
    (Suc N - nat (tb_read (tty_outb t)) \<le> length q \<longrightarrow> tb_read b = 0)"
proof -
  let ?b = "tty_outb t"
  from tb_cells [OF ok] obtain k where k: "tb_read ?b = int k" "cells (tb_data ?b) k q" "tb_write ?b = int ((k + length q) mod Suc N)"
    unfolding q(1) .
  have N: "length (tb_data ?b) = Suc N" "tb_size ?b = int (Suc N)" "k < Suc N" "length q < Suc N" "tb_addr ?b \<noteq> 0"
    using ok k(1,2) by (auto simp: tb_ok_def cells_def)
  define m where "m = (if k + length q < Suc N then length q else Suc N - k)"
  have ne: "tb_read ?b \<noteq> tb_write ?b" using k(1,3) q(2) N(3,4) mod_offset_less [of 0 "length q" "Suc N" k] by (metis add_0_right length_greater_0_conv mod_less of_nat_eq_iff)
  have w: "tb_write ?b = (if k + length q < Suc N then int (k + length q) else int (k + length q) - int (Suc N))"
    using k(3) N(3,4) by (auto simp: mod_if)
  have len: "flush_len ?b = int m" using w k(1) N by (auto simp: flush_len_def Let_def m_def)
  have m: "m \<le> length q" "k + m \<le> Suc N" "take (Suc N - k) q = take m q" "drop (Suc N - k) q = drop m q" using N(3) by (auto simp: m_def)
  let ?r = "if tb_read ?b + int m \<ge> tb_size ?b then 0 else tb_read ?b + int m"
  define b' where "b' = ?b\<lparr>tb_read := ?r\<rparr>"
  have r: "?r = int ((k + m) mod Suc N)" using k(1) N(2) m(2) by (auto simp: mod_if)
  have bytes: "take m (drop k (tb_data ?b)) = take m q"
  proof (intro nth_equalityI)
    fix i assume "i < length (take m (drop k (tb_data ?b)))"
    then have i: "i < m" "k + i < Suc N" using m(2) N(1) by auto
    have "\<forall>i < length q. tb_data ?b ! ((k + i) mod Suc N) = q ! i" using k(2) unfolding cells_def N(1) by blast
    then have "tb_data ?b ! ((k + i) mod Suc N) = q ! i" using i(1) m(1) less_le_trans by blast
    then show "take m (drop k (tb_data ?b)) ! i = take m q ! i" using i N(1) by (simp only: mod_less nth_take nth_drop)
  qed (use m N(1) in auto)
  have "((k + m) mod Suc N + i) mod Suc N = (k + (m + i)) mod Suc N" for i by (simp add: mod_add_left_eq add.assoc)
  then have "cells (tb_data ?b) ((k + m) mod Suc N) (drop m q)" "((k + m) mod Suc N + length (drop m q)) mod Suc N = (k + length q) mod Suc N"
    using k(2) m(1) N(1) by (auto simp: cells_def simp flip: add_diff_assoc)
  then have "tb_contents b' = drop m q"
    using k(3) N(1,2) r by (intro tb_contentsI [of _ "(k + m) mod Suc N"]) (simp_all add: b'_def del: of_nat_mod)
  moreover have "tb_ok N b'" using ok r unfolding tb_ok_def b'_def by (auto simp del: of_nat_mod of_nat_Suc)
  moreover have "Suc N - k \<le> length q \<longrightarrow> tb_read b' = 0" using k(1) N(2,3) by (auto simp: b'_def m_def)
  moreover have "\<exists>out. tty_flush sb t = ret (t\<lparr>tty_outb := b'\<rparr>, out) \<and> written out = take m q"
  proof -
    have "subscribed sb (t\<lparr>tty_outb := b'\<rparr>) as" using sub by (simp add: subscribed_def)
    note run = run_subscribers_ok [OF this, of TTY_EVENT_FLUSH_OUTB]
    have "nat (tb_read ?b + int m) \<le> length (tb_data ?b)" "nat (tb_read ?b) = k" using k(1) m(2) N(1) by simp_all
    then have "tty_flush sb t = (let sent = Dev_write (tty_outdev t) (take m q) in
        if tty_mode t = TTY_MODE_SERIAL then ret (t\<lparr>tty_outb := b'\<rparr>, [sent, Dev_ioctl (tty_outdev t) SERIAL_FLUSH_TX])
        else bind_res (tty_run_subscribers sb (t\<lparr>tty_outb := b'\<rparr>) TTY_EVENT_FLUSH_OUTB) (\<lambda>out. ret (t\<lparr>tty_outb := b'\<rparr>, sent # out)))"
      using ne N(5) k(1) unfolding tty_flush_def Let_def len b'_def by (simp add: bytes)
    then show ?thesis using run by (cases "tty_mode t = TTY_MODE_SERIAL") (simp_all add: Let_def written_Cons)
  qed
  ultimately show ?thesis unfolding k(1) nat_int m(3,4) by blast
qed

subsection \<open>A new terminal\<close>

lemma tty_init_ok:
  assumes n: "length (ttys st) = 32" and f: "find (\<lambda>i. tty_valid (ttys st ! i) = 0) [0..<32] = Some i"
    and m: "mode = TTY_MODE_SERIAL \<or> mode = TTY_MODE_PTY" and sz: "0 < inbs" "0 < outbs"
    and al: "al_inb al \<noteq> 0" "al_outb al \<noteq> 0" "al_subs al \<noteq> 0" "al_ld al \<noteq> 0" "al_ld_buffer al \<noteq> 0" "length (al_contents al) = 1024"
  shows "\<exists>st' out. tty_init (Some indev) (Some outdev) mode inbs outbs al st = (st', out, int i) \<and>
    tty_line (ttys st' ! i) [] \<and> tb_ok (nat (inbs - 1)) (tty_inb (ttys st' ! i)) \<and> tb_contents (tty_inb (ttys st' ! i)) = [] \<and>
    tb_ok (nat (outbs - 1)) (tty_outb (ttys st' ! i)) \<and> tb_contents (tty_outb (ttys st' ! i)) = [] \<and>
    subscribed (st_subs st') (ttys st' ! i) [] \<and> (\<forall>j. j \<noteq> i \<longrightarrow> ttys st' ! j = ttys st ! j)"
proof -
  have i: "i < 32" using f by (auto simp: find_Some_iff)
  let ?ld = "\<lparr>ld_mode = LINE_DISCIPLINE_MODE_CANONICAL, ld_echo = LINE_DISCIPLINE_MODE_ECHO_ON, ld_valid = 1, ld_buffer = al_contents al,
    ld_size = 1024, ld_head = 0, ld_tail = 0, ld_has_echo_cb = True\<rparr>"
  have ld: "tty_line_discipline al = Some ?ld" using al(4,5) by (simp add: tty_line_discipline_def line_discipline_create_def)
  have h: "holds ?ld []" using al(6) by (auto simp: holds_def)
  have b: "tb_ok (nat (k - 1)) (new_buffer a k)" "tb_contents (new_buffer a k) = []" if "0 < k" "a \<noteq> 0" for a k
    using that by (auto simp: tb_ok_def tb_contents_def)
  show ?thesis using f m al ld h n i b [OF sz(1) al(1)] b [OF sz(2) al(2)]
    by (simp add: tty_init_def Let_def set_tty_def tty_line_def subscribed_def)
qed

text \<open>A new subscriber is called after those that are already there.\<close>

lemma tty_add_subscriber_ok:
  assumes s: "subscribed sb t as" and p: "p \<noteq> 0" "p \<notin> set as" "p \<noteq> tty_subscribers t"
  shows "\<exists>sb'. tty_add_subscriber p t f sb = ret sb' \<and> subscribed sb' t (as @ [p]) \<and>
    tty_run_subscribers sb' t e = ret (map (\<lambda>x. Notify (sub_handler (the (sb x))) e) as @ [Notify f e])"
proof -
  let ?h = "tty_subscribers t"
  have v: "tty_valid t \<noteq> 0" and c: "chain sub_next sb ?h (?h # as)" using s by (simp_all add: subscribed_def del: path.simps)
  obtain xs z where xs: "?h # as = xs @ [z]" by (metis rev_exhaust list.discI)
  then obtain n where n: "sb z = Some n" using path_dom [OF c] by (metis domD in_set_conv_decomp subset_iff)
  have h: "?h \<noteq> 0" using path_not_0 [OF c] by simp
  let ?sb = "sb(z \<mapsto> n\<lparr>sub_next := p\<rparr>, p \<mapsto> \<lparr>sub_handler = f, sub_next = 0\<rparr>)"
  have "p \<notin> set (xs @ [z])" using p unfolding xs [symmetric] by simp
  from subscriber_link.chain_snoc [OF c [unfolded xs] n p(1) this] have "chain sub_next ?sb ?h ((?h # as) @ [p])"
    unfolding xs by simp
  then have s': "subscribed ?sb t (as @ [p])" using v by (simp add: subscribed_def del: path.simps)
  have "sub_handler (the (?sb x)) = sub_handler (the (sb x))" if "x \<in> set as" for x using that p n by auto
  then have "tty_run_subscribers ?sb t e = ret (map (\<lambda>x. Notify (sub_handler (the (sb x))) e) as @ [Notify f e])"
    using run_subscribers_ok [OF s', of e] by simp
  moreover have "tty_add_subscriber p t f sb = ret ?sb"
    using v h p(1) n seek_last_chain [OF c [unfolded xs]] by (simp add: tty_add_subscriber_def)
  ultimately show ?thesis using s' by blast
qed

text \<open>Over any sequence of writes and reads the buffer of a new terminal is a queue that keeps the newest bytes.\<close>

lemma tty_buffer_refines:
  assumes "0 < n" and "a \<noteq> 0" and "\<forall>x \<in> set ops. op_fits x"
  shows "\<exists>b. queue_run tb_push tb_pop ops (new_buffer a (int n)) [] = ret (b, snd (queue_spec (n - 1) ops [] [])) \<and>
    tb_contents b = fst (queue_spec (n - 1) ops [] [])"
proof -
  have "tb_ok (n - 1) (new_buffer a (int n))" "tb_contents (new_buffer a (int n)) = []"
    using assms by (auto simp: tb_ok_def tb_contents_def)
  with tty_queue.run_refines [OF this(1) assms(3), of "[]"] show ?thesis by auto
qed

text \<open>
  Removing a subscriber compares the handler of a node and unlinks the node behind it: the last subscriber is never removed, and of two
  subscribers the second is removed for the first.
\<close>

lemma remove_subscriber_misses:
  assumes "tty_valid t \<noteq> 0" and "tty_subscribers t = h" and "distinct [0, h, a, b]" and "f \<noteq> 0"
    and "sb h = Some \<lparr>sub_handler = 0, sub_next = a\<rparr>"
  shows "sb a = Some \<lparr>sub_handler = f, sub_next = 0\<rparr> \<Longrightarrow> tty_remove_subscriber t f sb = ret sb"
    and "sb a = Some \<lparr>sub_handler = f, sub_next = b\<rparr> \<Longrightarrow> sb b = Some \<lparr>sub_handler = g, sub_next = 0\<rparr> \<Longrightarrow>
      tty_remove_subscriber t f sb = ret (sb(a \<mapsto> \<lparr>sub_handler = f, sub_next = 0\<rparr>, b := None))"
  using assms by (auto simp: tty_remove_subscriber_def remove_subscriber_loop.simps)

text \<open>The size that is reported for a buffer whose contents wrap around is negative.\<close>

lemma wrapped_size_negative: "tty_valid t \<noteq> 0 \<Longrightarrow> tb_write (tty_inb t) < tb_read (tty_inb t) \<Longrightarrow> tty_get_size t < 0"
  by (simp add: tty_get_size_def)

definition demo_subs :: subscribers where
  "demo_subs = [4096 \<mapsto> \<lparr>sub_handler = 0, sub_next = 8192\<rparr>, 8192 \<mapsto> \<lparr>sub_handler = 77, sub_next = 0\<rparr>]"

definition demo_tty :: tty where
  "demo_tty = \<lparr>tty_indev = [], tty_outdev = [115], tty_signal = 0, tty_mode = TTY_MODE_SERIAL, tty_valid = 1, tty_echo = 1, tty_israw = 0,
     tty_ld_addr = 64, tty_ld = demo_ld, tty_subscribers = 4096,
     tty_inb = \<lparr>tb_addr = 128, tb_data = replicate 4 0, tb_size = 4, tb_write = 2, tb_read = 2\<rparr>,
     tty_outb = \<lparr>tb_addr = 256, tb_data = [1, 2, 3, 4], tb_size = 4, tb_write = 1, tb_read = 2\<rparr>\<rparr>"

lemma demo_tty_ok:
  "tty_line demo_tty []" "subscribed demo_subs demo_tty [8192]" "tb_ok 3 (tty_inb demo_tty)" "tb_contents (tty_inb demo_tty) = []"
  "tb_ok 3 (tty_outb demo_tty)" "tb_contents (tty_outb demo_tty) = [3, 4, 1]"
  using demo_ld_holds by (simp_all add: tty_line_def demo_tty_def subscribed_def demo_subs_def tb_ok_def tb_contents_def upt_rec)

subsection \<open>Properties\<close>

text \<open>C17: a line that fits in the line buffer, typed on a terminal in canonical mode whose line and input buffer are empty and ended by
  a carriage return, is what the next read of the terminal returns, terminated by a zero, provided that the line ends before the end
  of the line buffer, from the head index on. Exactly the typed characters, followed by a carriage return and a line feed, are then echoed
  to the output device when echo is on, and every subscriber is told of the input once. A line that wraps around the end of
  the line buffer is not delivered: the carriage return makes the flush read behind the buffer.\<close>

theorem tty_line_roundtrip:
  assumes t: "tty_line t []" "tb_ok N (tty_inb t)" "tb_contents (tty_inb t) = []" "subscribed sb t as"
    and s: "\<forall>c \<in> set s. printable c" "int (length s) < ld_size (tty_ld t)" "length s \<le> N" "length s < length buffer"
  shows "if ld_head (tty_ld t) + int (length s) \<le> ld_size (tty_ld t)
    then \<exists>t' out t''. iter_out (tty_read_cb sb) (s @ [13]) t = ret (t', out) \<and>
      tty_read (int (length buffer)) buffer t' = ret (t'', s @ 0 # drop (Suc (length s)) buffer) \<and> tty_line t'' [] \<and>
      written out = echoes t (s @ [13, 10]) \<and> notified out = map (\<lambda>x. Notify (sub_handler (the (sb x))) TTY_EVENT_INB) as
    else iter_out (tty_read_cb sb) (s @ [13]) t = fault"
proof -
  have ld: "ld_size (tty_ld t) = int (length (ld_buffer (tty_ld t)))" "0 \<le> ld_head (tty_ld t)" using t(1) by (auto simp: tty_line_def holds_def)
  then have "length [] + length s < length (ld_buffer (tty_ld t))" using s(2) by simp
  from tty_type_ok [OF t(1) s(1) this, of sb] obtain ld out1 where
    a: "iter_out (tty_read_cb sb) s t = ret (t\<lparr>tty_ld := ld\<rparr>, out1)" "tty_line (t\<lparr>tty_ld := ld\<rparr>) s" "ld_head ld = ld_head (tty_ld t)"
      "ld_echo ld = ld_echo (tty_ld t)" "length (ld_buffer ld) = length (ld_buffer (tty_ld t))" "written out1 = echoes t s" "notified out1 = []" by auto
  have sz: "ld_size ld = ld_size (tty_ld t)" using a(2,5) ld by (simp add: tty_line_def holds_def)
  show ?thesis
  proof (cases "ld_head (tty_ld t) + int (length s) \<le> ld_size (tty_ld t)")
    case False
    then have "tty_read_cb sb 13 (t\<lparr>tty_ld := ld\<rparr>) = fault" using tty_cret_fault [OF a(2)] a(3) sz by simp
    then show ?thesis using a(1) False by (simp add: iter_out_append)
  next
    case True
    then have "\<exists>t' out. tty_read_cb sb 13 (t\<lparr>tty_ld := ld\<rparr>) = ret (t', out) \<and> tty_line t' [] \<and> tb_ok N (tty_inb t') \<and>
        tb_contents (tty_inb t') = last_n N s \<and> written out = echoes (t\<lparr>tty_ld := ld\<rparr>) [13, 10] \<and>
        notified out = map (\<lambda>x. Notify (sub_handler (the (sb x))) TTY_EVENT_INB) as"
      using tty_cret_ok [OF a(2), of N sb as] t(2-4) a(3) sz by (simp add: subscribed_def)
    then obtain t' out2 where
      b: "tty_read_cb sb 13 (t\<lparr>tty_ld := ld\<rparr>) = ret (t', out2)" "tty_line t' []" "tb_ok N (tty_inb t')" "tb_contents (tty_inb t') = s"
        "written out2 = echoes (t\<lparr>tty_ld := ld\<rparr>) [13, 10]" "notified out2 = map (\<lambda>x. Notify (sub_handler (the (sb x))) TTY_EVENT_INB) as"
      using s(3) by (auto simp: last_n_short)
    have run: "iter_out (tty_read_cb sb) (s @ [13]) t = ret (t', out1 @ out2)" using a(1) b(1) by (simp add: iter_out_append)
    have "0 \<notin> set s" using s(1) by (auto simp: printable_def)
    with tty_read_loop_ok [OF b(3), of 0 "length buffer" buffer] b(4) s(4) obtain b' where
      "tty_read_loop 0 (length buffer) buffer t' = ret (t'\<lparr>tty_inb := b'\<rparr>, s @ 0 # drop (Suc (length s)) buffer)" by (auto simp: min_def)
    then have "tty_read (int (length buffer)) buffer t' = ret (t'\<lparr>tty_inb := b'\<rparr>, s @ 0 # drop (Suc (length s)) buffer)"
      using b(2) by (simp add: tty_read_def tty_line_def)
    moreover have "tty_line (t'\<lparr>tty_inb := b'\<rparr>) []" using b(2) by (simp add: tty_line_def)
    ultimately show ?thesis using run a(4,6,7) b(5,6) True by (auto simp: echoes_def)
  qed
qed

theorem tty_line_roundtrip_witness:
  "\<exists>t out t'. iter_out (tty_read_cb demo_subs) [104, 105, 13] demo_tty = ret (t, out) \<and>
     tty_read 4 [1, 1, 1, 1] t = ret (t', [104, 105, 0, 1]) \<and> written out = [104, 105, 13, 10] \<and> notified out = [Notify 77 1]"
proof -
  have "\<forall>c \<in> set [104, 105]. printable c" "int (length [104, 105 :: u8]) < ld_size (tty_ld demo_tty)"
    "length [104, 105 :: u8] \<le> 3" "length [104, 105 :: u8] < length [1, 1, 1, 1 :: u8]" by (simp_all add: printable_def demo_tty_def demo_ld_def)
  from tty_line_roundtrip [OF demo_tty_ok(1,3,4,2) this] show ?thesis
    by (auto simp: echoes_def demo_tty_def demo_ld_def demo_subs_def ld_modes TTY_EVENT_INB_def)
qed

text \<open>C28: flushing a terminal sends the oldest bytes of its output buffer up to the end of the buffer to the output device, in order, and keeps the rest queued; a second flush sends the rest.\<close>

theorem tty_flush_sends:
  assumes "tb_ok N (tty_outb t)" and "tb_contents (tty_outb t) = q" and "subscribed sb t as" and "k = Suc N - nat (tb_read (tty_outb t))"
    and "k < length q"
  shows "\<exists>t' out t'' out'. tty_flush sb t = ret (t', out) \<and> written out = take k q \<and> tb_contents (tty_outb t') = drop k q \<and>
    tty_flush sb t' = ret (t'', out') \<and> written out' = drop k q \<and> tb_contents (tty_outb t'') = [] \<and> tb_ok N (tty_outb t'')"
proof -
  from tty_flush_ok [OF assms(1,2) _ assms(3)] assms(4,5) obtain b out where
    a: "tty_flush sb t = ret (t\<lparr>tty_outb := b\<rparr>, out)" "tb_ok N b" "written out = take k q" "tb_contents b = drop k q" "tb_read b = 0"
    by fastforce
  have l: "length (drop k q) \<le> Suc N" using a(2,4) tb_cells [OF a(2)] unfolding cells_def tb_ok_def by (metis less_imp_le)
  have "subscribed sb (t\<lparr>tty_outb := b\<rparr>) as" using assms(3) by (simp add: subscribed_def)
  from tty_flush_ok [OF _ _ _ this, of N "drop k q"] a(2,4,5) assms(5) l obtain b' out' where
    "tty_flush sb (t\<lparr>tty_outb := b\<rparr>) = ret (t\<lparr>tty_outb := b'\<rparr>, out')" "tb_ok N b'" "written out' = drop k q" "tb_contents b' = []" by auto
  with a show ?thesis
    by (intro exI [of _ "t\<lparr>tty_outb := b\<rparr>"] exI [of _ out] exI [of _ "t\<lparr>tty_outb := b'\<rparr>"] exI [of _ out']) simp
qed

theorem tty_flush_sends_witness:
  "\<exists>t out t' out'. tty_flush demo_subs demo_tty = ret (t, out) \<and> written out = [3, 4] \<and> tty_flush demo_subs t = ret (t', out') \<and> written out' = [1]"
proof -
  have "2 = Suc 3 - nat (tb_read (tty_outb demo_tty))" "2 < length [3, 4, 1 :: u8]" by (simp_all add: demo_tty_def)
  from tty_flush_sends [OF demo_tty_ok(5,6,2) this] show ?thesis by auto
qed

end
