(* ===== verification/Devices.thy ===== *)
theory Devices
  imports Kernel_Prelude
begin

section \<open>The device registry\<close>

text \<open>
  \<^verbatim>\<open>devices/devices.c\<close>: the list of devices, which always ends in an empty structure, the three tables of drivers, and the dispatch of
  requests to the functions of the drivers, whose addresses are called with the recorded arguments. Names are compared up to the length
  of the wanted name; a wanted name longer than the name field matches no device here. The lemmas show that the names made from majors and
  minors identify the devices under this comparison, that a request reaches the driver of the device the search finds or stays in the loop
  for ever when no driver is registered, and that removing a device has no effect.
\<close>

unbundle bit_operations_syntax

subsection \<open>State\<close>

definition DEVICE_NAME_SIZE :: nat where "DEVICE_NAME_SIZE = 32"

text \<open>Function pointers are addresses, null when the driver does not provide the operation.\<close>

record file_operations =
  fo_read :: u64
  fo_write :: u64
  fo_ioctl :: u64

record network_operations =
  no_send :: u64
  no_recv :: u64
  no_ioctl :: u64

record device_driver =
  dr_fops :: "file_operations option"
  dr_nops :: "network_operations option"
  dr_registered :: bool
  dr_name :: "u8 list"

text \<open>Names are the bytes of the fields \<^verbatim>\<open>char name[32]\<close>; \<open>dv_bc\<close> is False for block devices.\<close>

record device =
  dv_bc :: bool
  dv_valid :: bool
  dv_major :: u8
  dv_minor :: u8
  dv_name :: "u8 list"
  dv_control :: u64
  dv_id :: u64
  dv_next :: u64

type_synonym devices = "u64 \<rightharpoonup> device"

text \<open>The driver tables have 256 entries and are indexed by a byte.\<close>

record registry =
  char_device_drivers :: "u8 \<Rightarrow> device_driver"
  block_device_drivers :: "u8 \<Rightarrow> device_driver"
  net_device_drivers :: "u8 \<Rightarrow> device_driver"
  device_header :: u64
  devices :: devices
  freed_pages :: "u64 list"

text \<open>\<^verbatim>\<open>memset(p, 0, sizeof(struct device))\<close>\<close>

definition zero_device :: device where
  "zero_device = \<lparr>dv_bc = False, dv_valid = False, dv_major = 0, dv_minor = 0, dv_name = replicate DEVICE_NAME_SIZE 0,
     dv_control = 0, dv_id = 0, dv_next = 0\<rparr>"

text \<open>\<^verbatim>\<open>strncpy(name, src, strlen(src))\<close> into a name field; a source that does not fit overruns it.\<close>

definition put_name :: "u8 list \<Rightarrow> u8 list \<Rightarrow> u8 list res" where
  "put_name src field = (if length src < length field then ret (src @ 0 # drop (Suc (length src)) field) else fault)"

text \<open>\<^verbatim>\<open>memcmp(field, name, strlen(name)) == 0\<close>\<close>

definition name_matches :: "u8 list \<Rightarrow> u8 list \<Rightarrow> bool" where
  "name_matches name field \<longleftrightarrow> take (length name) field = name"

text \<open>The full major number: \<^verbatim>\<open>(uint8_t)(bc << 7 | major)\<close>.\<close>

definition full_major :: "device \<Rightarrow> u8" where
  "full_major d = (if dv_bc d then 128 else 0) OR dv_major d"

subsection \<open>Names\<close>

definition ascii :: "string \<Rightarrow> u8 list" where
  "ascii s = map of_char s"

text \<open>The conversion \<^verbatim>\<open>%x\<close> of a number that is not negative.\<close>

definition hex_digit :: "nat \<Rightarrow> u8" where
  "hex_digit n = word_of_nat (if n < 10 then 48 + n else 87 + n)"

fun hex :: "nat \<Rightarrow> u8 list" where
  "hex n = (if n < 16 then [hex_digit n] else hex (n div 16) @ [hex_digit (n mod 16)])"

declare hex.simps [simp del]

text \<open>The entries of \<^verbatim>\<open>device_identifiers\<close>; the entries the initialiser skips are null and the array ends at index 0x8f.\<close>

definition device_identifiers :: "u8 \<Rightarrow> u8 list option" where
  "device_identifiers major =
     (if major = 0x8 then Some (ascii ''hd'') else if major = 0x9 then Some (ascii ''cd'') else if major = 0xa then Some (ascii ''semb'')
      else if major = 0xb then Some (ascii ''pm'') else if major = 0xc then Some (ascii ''sd'') else if major = 0xe then Some (ascii ''tty'')
      else if major = 0x10 then Some (ascii ''mouse'') else if major = 0x11 then Some (ascii ''net'') else if major = 0x12 then Some (ascii ''fb'')
      else if major \<le> 0x13 then Some (ascii ''none'')
      else if major = 0x8d then Some (ascii ''serial'') else if major = 0x8e then Some (ascii ''fifo'') else if major = 0x8f then Some (ascii ''kbd'')
      else None)"

text \<open>\<^verbatim>\<open>sprintf(name, "%s%x", device_identifiers[major], minor+0xa)\<close>\<close>

definition device_name :: "u8 \<Rightarrow> u8 \<Rightarrow> u8 list res" where
  "device_name major minor = (case device_identifiers major of None \<Rightarrow> fault | Some s \<Rightarrow> ret (s @ hex (unat minor + 10)))"

subsection \<open>Devices\<close>

partial_function (option) last_device :: "u8 \<Rightarrow> devices \<Rightarrow> u64 \<Rightarrow> u8 \<Rightarrow> (u64 \<times> u8) res" where
  "last_device major ds p minor = bind_res (deref ds p) (\<lambda>d.
     if dv_next d = 0 then ret (p, minor)
     else last_device major ds (dv_next d) (if full_major d = major then minor + 1 else minor))"

text \<open>The address \<open>p\<close> is the one \<^verbatim>\<open>kmalloc\<close> returns; the result is the device whose name field the function returns.\<close>

definition device_create :: "u64 \<Rightarrow> u64 \<Rightarrow> u8 \<Rightarrow> u64 \<Rightarrow> registry \<Rightarrow> (registry \<times> u64) res" where
  "device_create p control major iid r =
     bind_res (last_device major (devices r) (device_header r) 0) (\<lambda>(a, minor).
     bind_res (device_name major minor) (\<lambda>name.
     if p = 0 then fault
     else bind_res (deref (devices r) a) (\<lambda>d.
     bind_res (put_name name (dv_name d)) (\<lambda>field.
       ret (r\<lparr>devices := (devices r)(p \<mapsto> zero_device,
           a \<mapsto> d\<lparr>dv_next := p, dv_bc := bit major 7, dv_major := major AND 0x7F, dv_minor := minor, dv_name := field,
                  dv_control := control, dv_id := iid, dv_valid := True\<rparr>)\<rparr>, a)))))"

text \<open>
  The first bytes of the structure: the two bit fields, the numbers and the name. \<^verbatim>\<open>device_destroy\<close> compares the name of a device with
  the device itself.
\<close>

definition device_bytes :: "device \<Rightarrow> u8 list" where
  "device_bytes d = [(if dv_bc d then 1 else 0) OR (if dv_valid d then 2 else 0), dv_major d, dv_minor d] @ dv_name d"

partial_function (option) destroy_loop :: "u8 list \<Rightarrow> registry \<Rightarrow> u64 \<Rightarrow> u64 \<Rightarrow> registry res" where
  "destroy_loop name r prev p = bind_res (deref (devices r) p) (\<lambda>d.
     if \<not> dv_valid d then ret r
     else if take (length name) (dv_name d) = take (length name) (device_bytes d) then
       bind_res (modify p (\<lambda>d. d\<lparr>dv_valid := False\<rparr>) (devices r)) (\<lambda>ds.
       bind_res (if prev \<noteq> 0 then modify prev (\<lambda>q. q\<lparr>dv_next := dv_next d\<rparr>) ds else ret ds) (\<lambda>ds.
         ret (r\<lparr>devices := ds, freed_pages := freed_pages r @ [p]\<rparr>)))
     else destroy_loop name r p (dv_next d))"

definition device_destroy :: "u8 list \<Rightarrow> registry \<Rightarrow> registry res" where
  "device_destroy name r = destroy_loop name r 0 (device_header r)"

text \<open>The devices start with an empty list; the discovery of devices then calls \<^verbatim>\<open>device_create\<close>.\<close>

definition init_devices :: "u64 \<Rightarrow> registry \<Rightarrow> registry" where
  "init_devices p r = r\<lparr>device_header := p, devices := (devices r)(p \<mapsto> zero_device)\<rparr>"

subsection \<open>Drivers\<close>

definition set_driver :: "u8 list \<Rightarrow> file_operations option \<Rightarrow> network_operations option \<Rightarrow> device_driver \<Rightarrow> device_driver res" where
  "set_driver name fops nops d =
     bind_res (put_name name (dr_name d)) (\<lambda>field. ret (d\<lparr>dr_name := field, dr_registered := True, dr_fops := fops, dr_nops := nops\<rparr>))"

definition register_char :: "u8 \<Rightarrow> u8 list \<Rightarrow> file_operations option \<Rightarrow> registry \<Rightarrow> registry res" where
  "register_char major name fops r =
     (let major_id = major AND 0x7f in
      bind_res (set_driver name fops None (char_device_drivers r major_id)) (\<lambda>d.
        ret (r\<lparr>char_device_drivers := (char_device_drivers r)(major_id := d)\<rparr>)))"

definition register_block :: "u8 \<Rightarrow> u8 list \<Rightarrow> file_operations option \<Rightarrow> registry \<Rightarrow> registry res" where
  "register_block major name fops r =
     bind_res (set_driver name fops None (block_device_drivers r major)) (\<lambda>d.
       ret (r\<lparr>block_device_drivers := (block_device_drivers r)(major := d)\<rparr>))"

definition register_network :: "u8 \<Rightarrow> u8 list \<Rightarrow> network_operations option \<Rightarrow> registry \<Rightarrow> registry res" where
  "register_network major name nops r =
     bind_res (set_driver name None nops (net_device_drivers r major)) (\<lambda>d.
       ret (r\<lparr>net_device_drivers := (net_device_drivers r)(major := d)\<rparr>))"

definition unregister_block :: "u8 \<Rightarrow> registry \<Rightarrow> registry" where
  "unregister_block major r =
     r\<lparr>block_device_drivers := (block_device_drivers r)(major := (block_device_drivers r major)\<lparr>dr_registered := False\<rparr>)\<rparr>"

definition unregister_char :: "u8 \<Rightarrow> registry \<Rightarrow> registry" where
  "unregister_char major r =
     r\<lparr>char_device_drivers := (char_device_drivers r)(major := (char_device_drivers r major)\<lparr>dr_registered := False\<rparr>)\<rparr>"

definition unregister_network :: "u8 \<Rightarrow> registry \<Rightarrow> registry" where
  "unregister_network major r =
     r\<lparr>net_device_drivers := (net_device_drivers r)(major := (net_device_drivers r major)\<lparr>dr_registered := False\<rparr>)\<rparr>"

subsection \<open>Queries\<close>

definition get_device_head :: "registry \<Rightarrow> u64 res" where
  "get_device_head r = bind_res (deref (devices r) (device_header r)) (\<lambda>d. ret (if dv_valid d then device_header r else 0))"

definition get_next_device :: "u64 \<Rightarrow> registry \<Rightarrow> u64 res" where
  "get_next_device p r = bind_res (deref (devices r) p) (\<lambda>d. bind_res (deref (devices r) (dv_next d)) (\<lambda>n.
     ret (if dv_valid n then dv_next d else 0)))"

partial_function (option) count_devices :: "(device \<Rightarrow> bool) \<Rightarrow> devices \<Rightarrow> u64 \<Rightarrow> u32 \<Rightarrow> u32 res" where
  "count_devices P ds p count = bind_res (deref ds p) (\<lambda>d.
     if dv_valid d then count_devices P ds (dv_next d) (if P d then count + 1 else count) else ret count)"

definition get_device_count :: "registry \<Rightarrow> u32 res" where
  "get_device_count r = count_devices (\<lambda>d. True) (devices r) (device_header r) 0"

definition get_device_count_by_major :: "u8 \<Rightarrow> registry \<Rightarrow> u32 res" where
  "get_device_count_by_major major r = count_devices (\<lambda>d. full_major d = major) (devices r) (device_header r) 0"

text \<open>The first valid device whose name starts with the given one, null if there is none.\<close>

partial_function (option) search_loop :: "u8 list \<Rightarrow> devices \<Rightarrow> u64 \<Rightarrow> u64 res" where
  "search_loop name ds p = bind_res (deref ds p) (\<lambda>d.
     if \<not> dv_valid d then ret 0 else if name_matches name (dv_name d) then ret p else search_loop name ds (dv_next d))"

definition device_search :: "u8 list \<Rightarrow> registry \<Rightarrow> u64 res" where
  "device_search name r = search_loop name (devices r) (device_header r)"

text \<open>The string a name field holds.\<close>

definition field_string :: "u8 list \<Rightarrow> u8 list" where
  "field_string field = takeWhile (\<lambda>c. c \<noteq> 0) field"

definition device_identify :: "u8 list \<Rightarrow> u8 list \<Rightarrow> registry \<Rightarrow> bool res" where
  "device_identify name driver_name r =
     bind_res (device_search name r) (\<lambda>p.
       if p = 0 then ret False
       else bind_res (deref (devices r) p) (\<lambda>d.
         let driver = (if dv_bc d then char_device_drivers r else block_device_drivers r) (dv_major d) in
         ret (dr_registered driver \<and> field_string (dr_name driver) = driver_name)))"

subsection \<open>Input and output\<close>

text \<open>What a request becomes: the call of a function of a driver with its arguments; the buffer is the same in all of them.\<close>

datatype driver_call = Net_call u64 u64 u64 | File_call u64 u64 "u64 list"

type_synonym net_route = "network_operations \<Rightarrow> device \<Rightarrow> driver_call option"

type_synonym file_route = "file_operations \<Rightarrow> device \<Rightarrow> driver_call option"

definition route_file :: "file_route \<Rightarrow> device_driver \<Rightarrow> device \<Rightarrow> driver_call option" where
  "route_file file driver d = (case dr_fops driver of None \<Rightarrow> None | Some f \<Rightarrow> file f d)"

definition route_net :: "net_route \<Rightarrow> device_driver \<Rightarrow> device \<Rightarrow> driver_call option" where
  "route_net net driver d = (case dr_nops driver of None \<Rightarrow> None | Some f \<Rightarrow> net f d)"

text \<open>
  The common loop of \<^verbatim>\<open>device_read\<close>, \<^verbatim>\<open>device_write\<close> and \<^verbatim>\<open>device_ioctl\<close>; None when no driver is called. Its \<^verbatim>\<open>continue\<close> does not move
  on to the next device.
\<close>

partial_function (option) device_loop :: "net_route \<Rightarrow> file_route \<Rightarrow> u8 list \<Rightarrow> registry \<Rightarrow> u64 \<Rightarrow> driver_call option res" where
  "device_loop net file name r p = bind_res (deref (devices r) p) (\<lambda>d.
     if \<not> dv_valid d then ret None
     else if \<not> name_matches name (dv_name d) then device_loop net file name r (dv_next d)
     else if \<not> dv_bc d then
       let b = block_device_drivers r (dv_major d); n = net_device_drivers r (dv_major d) in
       if \<not> dr_registered b \<and> \<not> dr_registered n then device_loop net file name r p
       else (case route_net net n d of Some c \<Rightarrow> ret (Some c)
         | None \<Rightarrow> (case route_file file b d of Some c \<Rightarrow> ret (Some c) | None \<Rightarrow> device_loop net file name r (dv_next d)))
     else
       let c = char_device_drivers r (dv_major d) in
       if \<not> dr_registered c then device_loop net file name r p
       else (case route_file file c d of Some c \<Rightarrow> ret (Some c) | None \<Rightarrow> device_loop net file name r (dv_next d)))"

text \<open>The network operations take a 16-bit size, the control operations a 32-bit request.\<close>

definition device_read :: "u8 list \<Rightarrow> u64 \<Rightarrow> u64 \<Rightarrow> registry \<Rightarrow> driver_call option res" where
  "device_read name sz offset r = device_loop
     (\<lambda>f d. if no_recv f \<noteq> 0 then Some (Net_call (no_recv f) (dv_control d) (ucast (ucast sz :: u16))) else None)
     (\<lambda>f d. if fo_read f \<noteq> 0 then Some (File_call (fo_read f) (dv_id d) [sz, offset]) else None) name r (device_header r)"

definition device_write :: "u8 list \<Rightarrow> u64 \<Rightarrow> u64 \<Rightarrow> registry \<Rightarrow> driver_call option res" where
  "device_write name sz offset r = device_loop
     (\<lambda>f d. if no_send f \<noteq> 0 then Some (Net_call (no_send f) (dv_control d) (ucast (ucast sz :: u16))) else None)
     (\<lambda>f d. if fo_write f \<noteq> 0 then Some (File_call (fo_write f) (dv_id d) [sz, offset]) else None) name r (device_header r)"

definition device_ioctl :: "u8 list \<Rightarrow> u64 \<Rightarrow> registry \<Rightarrow> driver_call option res" where
  "device_ioctl name op r = device_loop
     (\<lambda>f d. if no_ioctl f \<noteq> 0 then Some (Net_call (no_ioctl f) (dv_control d) (ucast (ucast op :: u32))) else None)
     (\<lambda>f d. if fo_ioctl f \<noteq> 0 then Some (File_call (fo_ioctl f) (dv_id d) [ucast (ucast op :: u32)]) else None) name r (device_header r)"

subsection \<open>Names determine devices\<close>

definition hex_val :: "u8 \<Rightarrow> nat" where
  "hex_val c = (if unat c < 58 then unat c - 48 else unat c - 87)"

lemma hex_digit_props: "n < 16 \<Longrightarrow> hex_val (hex_digit n) = n \<and> hex_digit n \<noteq> 0"
proof -
  assume "n < 16"
  then have "n \<in> {0, 1, 2, 3, 4, 5, 6, 7, 8, 9, 10, 11, 12, 13, 14, 15}" by (simp add: less_Suc_eq numeral_eq_Suc)
  then show ?thesis by (elim insertE) (simp_all add: hex_digit_def hex_val_def)
qed

lemma hex_value: "foldl (\<lambda>v c. 16 * v + hex_val c) 0 (hex n) = n"
proof (induction n rule: hex.induct)
  case (1 n)
  then show ?case using hex_digit_props [of n] hex_digit_props [of "n mod 16"] by (subst hex.simps) simp
qed

lemma hex_nonzero: "0 \<notin> set (hex n)"
proof (induction n rule: hex.induct)
  case (1 n)
  show ?case
  proof (cases "n < 16")
    case True
    then show ?thesis using hex_digit_props [of n] by (subst hex.simps) auto
  next
    case False
    then have "0 \<notin> set (hex (n div 16))" by (rule 1)
    moreover have "hex_digit (n mod 16) \<noteq> 0" using hex_digit_props [of "n mod 16"] by simp
    ultimately show ?thesis using False by (subst hex.simps) auto
  qed
qed

lemma hex_prefix: "hex b = hex a @ zs \<Longrightarrow> a \<le> b"
proof -
  have ge: "v \<le> foldl (\<lambda>v c. 16 * v + hex_val c) v zs" for v
  proof (induction zs arbitrary: v)
    case (Cons z zs)
    from Cons.IH [of "16 * v + hex_val z"] show ?case by simp
  qed simp
  assume "hex b = hex a @ zs"
  then show ?thesis using hex_value [of b] hex_value [of a] ge [of a] by simp
qed

lemma hex_length: "n < 4096 \<Longrightarrow> length (hex n) \<le> 3"
  by (subst hex.simps, subst hex.simps, subst hex.simps) auto

text \<open>The majors whose identifier is not shared.\<close>

definition named_major :: "u8 \<Rightarrow> u8 list \<Rightarrow> bool" where
  "named_major m s \<longleftrightarrow> device_identifiers m = Some s \<and> s \<noteq> ascii ''none''"

definition named_table :: "(u8 \<times> u8 list) list" where
  "named_table = [(0x8, ascii ''hd''), (0x9, ascii ''cd''), (0xa, ascii ''semb''), (0xb, ascii ''pm''), (0xc, ascii ''sd''), (0xe, ascii ''tty''),
    (0x10, ascii ''mouse''), (0x11, ascii ''net''), (0x12, ascii ''fb''), (0x8d, ascii ''serial''), (0x8e, ascii ''fifo''), (0x8f, ascii ''kbd'')]"

lemma named_majors: "named_major m s \<Longrightarrow> (m, s) \<in> set named_table"
  by (auto simp: named_major_def device_identifiers_def named_table_def split: if_splits)

lemma named_lengths: "\<forall>(m, s) \<in> set named_table. 2 \<le> length s \<and> length s \<le> 6 \<and> 0 \<notin> set s"
  by code_simp

lemma named_apart: "\<forall>(m, s) \<in> set named_table. \<forall>(m', s') \<in> set named_table.
    take 2 s = take 2 s' \<and> (3 \<le> length s \<and> 3 \<le> length s' \<longrightarrow> take 3 s = take 3 s') \<longrightarrow> m = m'"
  by code_simp

lemma named_prefix:
  assumes "named_major m s" "named_major m' s'" and "s' @ h' = (s @ h) @ zs"
  shows "m = m'"
proof -
  have l: "2 \<le> length s" "2 \<le> length s'" using named_majors [OF assms(1)] named_majors [OF assms(2)] named_lengths by auto
  have "take 2 (s' @ h') = take 2 (s @ h @ zs)" using assms(3) by simp
  then have two: "take 2 s' = take 2 s" using l by simp
  have "take 3 (s' @ h') = take 3 (s @ h @ zs)" using assms(3) by simp
  then have "3 \<le> length s \<Longrightarrow> 3 \<le> length s' \<Longrightarrow> take 3 s' = take 3 s" by simp
  with two show ?thesis using named_majors [OF assms(1)] named_majors [OF assms(2)] named_apart by fastforce
qed

definition padded :: "u8 list \<Rightarrow> u8 list" where
  "padded n = n @ replicate (DEVICE_NAME_SIZE - length n) 0"

lemma matches_padded:
  assumes "name_matches q (padded n)" and "0 \<notin> set q" and "length q \<le> DEVICE_NAME_SIZE"
  obtains zs where "n = q @ zs"
proof -
  have t: "take (length q) (padded n) = q" using assms(1) by (simp add: name_matches_def)
  have "length q \<le> length n"
  proof (rule ccontr)
    assume "\<not> length q \<le> length n"
    then have "take (length q) (padded n) ! length n = 0" "length n < length q" using assms(3) by (simp_all add: padded_def nth_append)
    then show False using t assms(2) by (metis nth_mem)
  qed
  then have "n = q @ drop (length q) n" using t by (simp add: padded_def) (metis append_take_drop_id)
  then show thesis by (rule that)
qed

lemma field_string_padded [simp]: "0 \<notin> set n \<Longrightarrow> field_string (padded n) = n"
  by (auto simp: field_string_def padded_def takeWhile_append)

text \<open>
  A list of devices whose names were made by \<^verbatim>\<open>device_create\<close>: the minor number counts the devices of the same major in front.
\<close>

definition minor_at :: "u8 \<Rightarrow> device list \<Rightarrow> nat" where
  "minor_at m ds = length (filter (\<lambda>e. full_major e = m) ds)"

definition well_named :: "device list \<Rightarrow> nat \<Rightarrow> bool" where
  "well_named ds i \<longleftrightarrow> (let d = ds ! i in dv_valid d \<and> unat (dv_minor d) = minor_at (full_major d) (take i ds) \<and>
     (\<exists>s. named_major (full_major d) s \<and> dv_name d = padded (s @ hex (unat (dv_minor d) + 10))))"

lemma name_bounds:
  assumes "named_major m s" "n = s @ hex (unat (k :: u8) + 10)"
  shows "0 \<notin> set n" "length n < DEVICE_NAME_SIZE"
proof -
  have "unat k < 256" using unsigned_less [of k] by simp
  then have "length (hex (unat k + 10)) \<le> 3" by (intro hex_length) simp
  moreover have "0 \<notin> set s" "length s \<le> 6" using named_majors [OF assms(1)] named_lengths by auto
  ultimately show "0 \<notin> set n" "length n < DEVICE_NAME_SIZE" using assms(2) hex_nonzero by (auto simp: DEVICE_NAME_SIZE_def)
qed

lemma names_exact:
  assumes i: "well_named ds i" and j: "well_named ds j" and ji: "j < i" "i < length ds"
  shows "\<not> name_matches (field_string (dv_name (ds ! i))) (dv_name (ds ! j))"
proof
  from i obtain s where s: "named_major (full_major (ds ! i)) s" "dv_name (ds ! i) = padded (s @ hex (unat (dv_minor (ds ! i)) + 10))"
    by (auto simp: well_named_def Let_def)
  from j obtain s' where s': "named_major (full_major (ds ! j)) s'" "dv_name (ds ! j) = padded (s' @ hex (unat (dv_minor (ds ! j)) + 10))"
    by (auto simp: well_named_def Let_def)
  let ?q = "s @ hex (unat (dv_minor (ds ! i)) + 10)"
  note b = name_bounds [OF s(1) refl, of "dv_minor (ds ! i)"]
  assume "name_matches (field_string (dv_name (ds ! i))) (dv_name (ds ! j))"
  then have "name_matches ?q (padded (s' @ hex (unat (dv_minor (ds ! j)) + 10)))" using s s' b by simp
  then obtain zs where z: "s' @ hex (unat (dv_minor (ds ! j)) + 10) = ?q @ zs" using b by (elim matches_padded) auto
  then have m: "full_major (ds ! i) = full_major (ds ! j)" using named_prefix [OF s(1) s'(1)] by simp
  then have "s' = s" using s(1) s'(1) by (simp add: named_major_def)
  then have "unat (dv_minor (ds ! i)) \<le> unat (dv_minor (ds ! j))" using z hex_prefix [of "unat (dv_minor (ds ! j)) + 10"] by fastforce
  moreover have "minor_at (full_major (ds ! i)) (take (Suc j) ds) \<le> minor_at (full_major (ds ! i)) (take i ds)"
  proof -
    have "take i ds = take (Suc j) ds @ drop (Suc j) (take i ds)" using ji by (metis Suc_leI append_take_drop_id min.absorb1 take_take)
    then show ?thesis unfolding minor_at_def by (metis filter_append le_add1 length_append)
  qed
  moreover have "minor_at (full_major (ds ! i)) (take (Suc j) ds) = Suc (minor_at (full_major (ds ! j)) (take j ds))"
    using m ji by (simp add: minor_at_def take_Suc_conv_app_nth)
  ultimately show False using i j by (simp add: well_named_def Let_def)
qed

subsection \<open>The list of devices\<close>

text \<open>\<open>registered r as z\<close>: the devices are those at \<open>as\<close>, in this order, and \<open>z\<close> is the empty structure at the end.\<close>

definition device_at :: "registry \<Rightarrow> u64 \<Rightarrow> device" where
  "device_at r a = the (devices r a)"

definition registered :: "registry \<Rightarrow> u64 list \<Rightarrow> u64 \<Rightarrow> bool" where
  "registered r as z \<longleftrightarrow> chain dv_next (devices r) (device_header r) (as @ [z]) \<and> devices r z = Some zero_device \<and>
     (\<forall>a \<in> set as. dv_valid (device_at r a))"

definition all_named :: "registry \<Rightarrow> u64 list \<Rightarrow> bool" where
  "all_named r as \<longleftrightarrow> (\<forall>i < length as. well_named (map (device_at r) as) i)"

lemma last_device_chain:
  "chain dv_next ds p (as @ [z]) \<Longrightarrow>
   last_device m ds p k = ret (z, k + word_of_nat (minor_at m (map (\<lambda>a. the (ds a)) as)))"
proof (induction as arbitrary: p k)
  case Nil
  then show ?case by (auto simp: last_device.simps minor_at_def)
next
  case (Cons a as)
  then obtain d where d: "ds a = Some d" "chain dv_next ds (dv_next d) (as @ [z])" "p = a" by auto
  then have "dv_next d \<noteq> 0" by (cases as) auto
  then show ?case using d Cons.IH [OF d(2)] by (subst last_device.simps) (simp add: minor_at_def algebra_simps)
qed

text \<open>The walk over the valid devices, up to the first that satisfies \<open>P\<close>.\<close>

lemma search_loop_chain:
  assumes "chain dv_next ds p (as @ [z])" "\<forall>a \<in> set as. dv_valid (the (ds a))" "ds z = Some zero_device"
  shows "search_loop name ds p = ret (case find (\<lambda>a. name_matches name (dv_name (the (ds a)))) as of None \<Rightarrow> 0 | Some a \<Rightarrow> a)"
  using assms
proof (induction as arbitrary: p)
  case Nil
  then show ?case by (auto simp: search_loop.simps zero_device_def)
next
  case (Cons a as)
  then obtain d where "ds a = Some d" "chain dv_next ds (dv_next d) (as @ [z])" "p = a" by auto
  then show ?case using Cons by (subst search_loop.simps) simp
qed

lemma device_search_ok:
  "registered r as z \<Longrightarrow> device_search name r =
     ret (case find (\<lambda>a. name_matches name (dv_name (device_at r a))) as of None \<Rightarrow> 0 | Some a \<Rightarrow> a)"
  using search_loop_chain [of "devices r" "device_header r" as z name] by (simp add: device_search_def registered_def device_at_def)

lemma count_devices_chain:
  assumes "chain dv_next ds p (as @ [z])" "\<forall>a \<in> set as. dv_valid (the (ds a))" "ds z = Some zero_device"
  shows "count_devices P ds p k = ret (k + word_of_nat (length (filter (\<lambda>a. P (the (ds a))) as)))"
  using assms
proof (induction as arbitrary: p k)
  case Nil
  then show ?case by (auto simp: count_devices.simps zero_device_def)
next
  case (Cons a as)
  then obtain d where "ds a = Some d" "chain dv_next ds (dv_next d) (as @ [z])" "p = a" by auto
  then show ?case using Cons by (subst count_devices.simps) (simp add: algebra_simps)
qed

lemma device_count_ok:
  "registered r as z \<Longrightarrow> get_device_count r = ret (word_of_nat (length as))"
  "registered r as z \<Longrightarrow> get_device_count_by_major m r = ret (word_of_nat (minor_at m (map (device_at r) as)))"
  using count_devices_chain [of "devices r" "device_header r" as z]
  by (simp_all add: get_device_count_def get_device_count_by_major_def registered_def device_at_def minor_at_def filter_map comp_def)

text \<open>A device is found by its full name.\<close>

lemma search_exact:
  assumes r: "registered r as z" and n: "all_named r as" and a: "a \<in> set as"
  shows "device_search (field_string (dv_name (device_at r a))) r = ret a"
proof -
  have d: "distinct as" using r chain_distinct by (fastforce simp: registered_def)
  from a obtain i where i: "i < length as" "as ! i = a" by (auto simp: in_set_conv_nth)
  let ?q = "field_string (dv_name (device_at r a))"
  have "name_matches ?q (dv_name (device_at r a))" by (simp add: name_matches_def field_string_def) (metis takeWhile_eq_take)
  moreover have "\<not> name_matches ?q (dv_name (device_at r (as ! j)))" if "j < i" for j
    using names_exact [of "map (device_at r) as" i j] n i that by (simp add: all_named_def)
  ultimately have "find (\<lambda>a. name_matches ?q (dv_name (device_at r a))) as = Some a"
    using i by (auto simp: find_Some_iff)
  then show ?thesis using device_search_ok [OF r] by simp
qed

lemma full_major_split: "(if bit m 7 then 128 else 0) OR (m AND 0x7F) = (m :: u8)"
proof (rule bit_word_eqI)
  fix n assume "n < LENGTH(8)"
  then have "n \<in> {0, 1, 2, 3, 4, 5, 6, 7}" by (simp add: less_Suc_eq numeral_eq_Suc)
  then show "bit ((if bit m 7 then 128 else 0) OR (m AND 0x7F)) n = bit m n" by (elim insertE) (simp_all add: bit_simps)
qed

lemma well_named_snoc: "i < length ds \<Longrightarrow> well_named (ds @ [d]) i = well_named ds i"
  by (simp add: well_named_def nth_append)

lemma device_create_ok:
  assumes r: "registered r as z" and n: "all_named r as" and m: "named_major major s"
    and few: "minor_at major (map (device_at r) as) < 256" and p: "p \<noteq> 0" "p \<notin> set as" "p \<noteq> z"
  shows "\<exists>r'. device_create p control major iid r = ret (r', z) \<and> registered r' (as @ [z]) p \<and> all_named r' (as @ [z]) \<and>
    device_header r' = device_header r \<and> dv_control (device_at r' z) = control \<and> dv_id (device_at r' z) = iid \<and> full_major (device_at r' z) = major \<and>
    (\<forall>a \<in> set as. device_at r' a = device_at r a)"
proof -
  have c: "chain dv_next (devices r) (device_header r) (as @ [z])" and z: "devices r z = Some zero_device" using r by (auto simp: registered_def)
  have d: "distinct (as @ [z])" using chain_distinct [OF c] .
  define k where "k = minor_at major (map (device_at r) as)"
  let ?k = "word_of_nat k :: u8" and ?n = "s @ hex (k + 10)"
  have k: "unat ?k = k" using few by (simp add: k_def unat_of_nat)
  note b = name_bounds [OF m, of ?n ?k, unfolded k, OF refl]
  let ?d = "\<lparr>dv_bc = bit major 7, dv_valid = True, dv_major = major AND 0x7F, dv_minor = ?k, dv_name = padded ?n, dv_control = control, dv_id = iid, dv_next = p\<rparr>"
  let ?ds = "(devices r)(p \<mapsto> zero_device, z \<mapsto> ?d)"
  let ?r = "r\<lparr>devices := ?ds\<rparr>"
  have "put_name ?n (dv_name zero_device) = ret (padded ?n)"
    using b(2) by (simp add: put_name_def zero_device_def padded_def flip: replicate_Suc)
  moreover have "device_name major ?k = ret ?n" using m k by (simp add: device_name_def named_major_def)
  moreover have "last_device major (devices r) (device_header r) 0 = ret (z, ?k)"
    using last_device_chain [OF c, of major 0] by (simp add: k_def device_at_def [abs_def])
  ultimately have create: "device_create p control major iid r = ret (?r, z)" using p(1) z by (simp add: device_create_def zero_device_def)
  have at: "device_at ?r z = ?d" "\<And>a. a \<in> set as \<Longrightarrow> device_at ?r a = device_at r a" using d p by (auto simp: device_at_def)
  then have ds: "map (device_at ?r) (as @ [z]) = map (device_at r) as @ [?d]" by simp
  have "path dv_next (devices r) (device_header r) as z" using c by (auto simp: path_append)
  then have "path dv_next ?ds (device_header r) as z" using d p by simp
  then have "registered ?r (as @ [z]) p" using r p at c
    by (auto simp: registered_def path_append zero_device_def)
  moreover have "all_named ?r (as @ [z])" if fm: "full_major ?d = major"
  proof -
    have "well_named (map (device_at r) as @ [?d]) (length as)"
      using m k fm by (auto simp: well_named_def nth_append Let_def simp flip: k_def)
    then show ?thesis
      using n unfolding all_named_def ds by (simp add: less_Suc_eq all_conj_distrib) (auto simp: well_named_snoc)
  qed
  moreover have "full_major ?d = major" using full_major_split [of major] by (simp add: full_major_def)
  ultimately show ?thesis using create at by (intro exI [of _ ?r]) simp
qed

subsection \<open>Dispatch\<close>

lemma device_loop_skip:
  assumes "path dv_next (devices r) p bs a" "\<forall>b \<in> set bs. dv_valid (device_at r b) \<and> \<not> name_matches name (dv_name (device_at r b))"
  shows "device_loop net file name r p = device_loop net file name r a"
  using assms
proof (induction bs arbitrary: p)
  case (Cons b bs)
  then obtain d where "devices r b = Some d" "path dv_next (devices r) (dv_next d) bs a" "p = b" by auto
  then show ?case using Cons by (subst device_loop.simps) (simp add: device_at_def)
qed simp

lemma device_loop_reaches:
  assumes r: "registered r as z" and s: "device_search name r = ret a" "a \<noteq> 0"
  shows "device_loop net file name r (device_header r) = device_loop net file name r a \<and> devices r a = Some (device_at r a) \<and>
    dv_valid (device_at r a) \<and> name_matches name (dv_name (device_at r a))"
proof -
  from s device_search_ok [OF r, of name] have f: "find (\<lambda>a. name_matches name (dv_name (device_at r a))) as = Some a"
    by (auto split: option.splits)
  then obtain i where i: "i < length as" "as ! i = a" "name_matches name (dv_name (device_at r a))"
    "\<forall>j < i. \<not> name_matches name (dv_name (device_at r (as ! j)))" by (auto simp: find_Some_iff)
  define us vs where "us = take i as" and "vs = drop (Suc i) as"
  then have "as = us @ a # vs" using id_take_nth_drop [OF i(1)] i(2) by simp
  then have c: "path dv_next (devices r) (device_header r) us a" "devices r a \<noteq> None"
    using r by (auto simp: registered_def path_append)
  have "\<forall>b \<in> set us. dv_valid (device_at r b) \<and> \<not> name_matches name (dv_name (device_at r b))"
  proof
    fix b assume b: "b \<in> set us"
    then have "b \<in> set as" using in_set_takeD by (fastforce simp: us_def)
    moreover obtain j where "j < i" "as ! j = b" using b i(1) by (auto simp: us_def in_set_conv_nth)
    ultimately show "dv_valid (device_at r b) \<and> \<not> name_matches name (dv_name (device_at r b))" using r i(4) by (auto simp: registered_def)
  qed
  from device_loop_skip [OF c(1) this] show ?thesis using c(2) i r by (auto simp: device_at_def registered_def)
qed

text \<open>A device without a registered driver keeps every request for it in the loop for ever.\<close>

lemma device_loop_stuck:
  assumes "devices r a = Some d" "dv_valid d" "name_matches name (dv_name d)"
    and "if dv_bc d then \<not> dr_registered (char_device_drivers r (dv_major d))
      else \<not> dr_registered (block_device_drivers r (dv_major d)) \<and> \<not> dr_registered (net_device_drivers r (dv_major d))"
  shows "device_loop net file name r a = None"
proof (rule ccontr)
  assume "device_loop net file name r a \<noteq> None"
  then obtain y where y: "device_loop net file name r a = Some y" by blast
  have "\<not> (name' = name \<and> r' = r \<and> p = a)" if "device_loop net' file' name' r' p = Some v" for net' file' name' r' p v
    by (rule device_loop.raw_induct [where P = "\<lambda>net file name' r' p v. \<not> (name' = name \<and> r' = r \<and> p = a)", OF _ that])
      (use assms in \<open>fastforce simp: Let_def split: if_splits\<close>)
  from this [OF y] show False by simp
qed

text \<open>
  \<^verbatim>\<open>device_destroy\<close> compares a name with the flag byte in front of the structure, so it destroys nothing.
\<close>

lemma named_letters: "\<forall>(m, s) \<in> set named_table. s \<noteq> [] \<and> 96 < hd s"
  by code_simp

lemma destroy_compares_itself:
  assumes "well_named ds i" "name \<noteq> []"
  shows "take (length name) (dv_name (ds ! i)) \<noteq> take (length name) (device_bytes (ds ! i))"
proof
  assume e: "take (length name) (dv_name (ds ! i)) = take (length name) (device_bytes (ds ! i))"
  from assms(1) obtain m s h where s: "named_major m s" "dv_name (ds ! i) = padded (s @ h)" and v: "dv_valid (ds ! i)"
    by (auto simp: well_named_def Let_def)
  then have n: "s \<noteq> []" "96 < hd s" using named_majors [OF s(1)] named_letters by auto
  obtain k where "length name = Suc k" using assms(2) by (cases name) auto
  then have "hd s = (if dv_bc (ds ! i) then 1 else 0) OR 2" using e s n(1) v by (cases s) (simp_all add: padded_def device_bytes_def)
  then show False using n(2) by (simp split: if_splits)
qed

lemma device_destroy_nothing:
  assumes r: "registered r as z" and n: "all_named r as" and name: "name \<noteq> []"
  shows "device_destroy name r = ret r"
proof -
  have "destroy_loop name r prev p = ret r"
    if "chain dv_next (devices r) p (bs @ [z])" "set bs \<subseteq> set as" for bs prev p
    using that
  proof (induction bs arbitrary: prev p)
    case Nil
    then show ?case using r by (auto simp: destroy_loop.simps registered_def zero_device_def)
  next
    case (Cons b bs)
    then obtain d where d: "devices r b = Some d" "chain dv_next (devices r) (dv_next d) (bs @ [z])" "p = b" by auto
    from Cons.prems(2) obtain i where i: "i < length as" "as ! i = b" by (auto simp: in_set_conv_nth)
    then have "take (length name) (dv_name d) \<noteq> take (length name) (device_bytes d)"
      using destroy_compares_itself [of "map (device_at r) as" i name] n name d(1) by (simp add: all_named_def device_at_def)
    moreover have "dv_valid d" using r Cons.prems(2) d(1) by (auto simp: registered_def device_at_def)
    ultimately show ?case using d Cons.IH [OF d(2)] Cons.prems(2) by (subst destroy_loop.simps) simp
  qed
  from this [of "device_header r" as 0] show ?thesis using r by (simp add: device_destroy_def registered_def)
qed

definition no_driver :: device_driver where
  "no_driver = \<lparr>dr_fops = None, dr_nops = None, dr_registered = False, dr_name = replicate 32 0\<rparr>"

definition demo_registry :: registry where
  "demo_registry = \<lparr>char_device_drivers = \<lambda>_. no_driver,
     block_device_drivers = (\<lambda>_. no_driver)(14 := no_driver\<lparr>dr_registered := True, dr_fops := Some \<lparr>fo_read = 99, fo_write = 0, fo_ioctl = 0\<rparr>\<rparr>),
     net_device_drivers = \<lambda>_. no_driver, device_header = 4096,
     devices = [4096 \<mapsto> \<lparr>dv_bc = False, dv_valid = True, dv_major = 14, dv_minor = 0, dv_name = padded (ascii ''ttya''), dv_control = 0, dv_id = 5, dv_next = 8192\<rparr>,
       8192 \<mapsto> zero_device], freed_pages = []\<rparr>"

lemma demo_registered: "registered demo_registry [4096] 8192" "all_named demo_registry [4096]"
proof -
  show "registered demo_registry [4096] 8192" by (simp add: registered_def demo_registry_def zero_device_def device_at_def)
  have "ascii ''ttya'' = ascii ''tty'' @ hex 10" "named_major 14 (ascii ''tty'')"
    by (simp_all add: ascii_def hex.simps hex_digit_def named_major_def device_identifiers_def)
  then show "all_named demo_registry [4096]"
    by (auto simp: all_named_def well_named_def demo_registry_def device_at_def full_major_def minor_at_def)
qed

subsection \<open>Properties\<close>

text \<open>C18: \<^verbatim>\<open>device_create\<close> fills the empty structure at the end of the list, appends a new one and keeps every other device; afterwards the search for the name of any device, the new one included, returns exactly that device, although the search compares only as many characters as it is given. It covers majors whose identifier is not shared and fewer than 256 devices of a major.\<close>

theorem device_create_found:
  assumes "registered r as z" and "all_named r as" and "named_major major s" and "minor_at major (map (device_at r) as) < 256"
    and "p \<noteq> 0" "p \<notin> set as" "p \<noteq> z"
  shows "\<exists>r'. device_create p control major iid r = ret (r', z) \<and> registered r' (as @ [z]) p \<and> all_named r' (as @ [z]) \<and>
    dv_control (device_at r' z) = control \<and> dv_id (device_at r' z) = iid \<and> full_major (device_at r' z) = major \<and>
    (\<forall>a \<in> set as. device_at r' a = device_at r a) \<and>
    (\<forall>a \<in> set (as @ [z]). device_search (field_string (dv_name (device_at r' a))) r' = ret a)"
proof -
  from device_create_ok [OF assms] obtain r' where
    r': "device_create p control major iid r = ret (r', z)" "registered r' (as @ [z]) p" "all_named r' (as @ [z])"
      "dv_control (device_at r' z) = control" "dv_id (device_at r' z) = iid" "full_major (device_at r' z) = major"
      "\<forall>a \<in> set as. device_at r' a = device_at r a" by blast
  with search_exact [OF r'(2,3)] show ?thesis by blast
qed

theorem device_create_found_witness:
  "\<exists>r. device_create 12288 0 14 6 demo_registry = ret (r, 8192) \<and> device_search (field_string (dv_name (device_at r 8192))) r = ret 8192 \<and>
     device_search (field_string (dv_name (device_at r 4096))) r = ret 4096"
proof -
  have "named_major 14 (ascii ''tty'')" by (simp add: named_major_def device_identifiers_def ascii_def)
  moreover have "minor_at 14 (map (device_at demo_registry) [4096]) < 256" by (simp add: minor_at_def)
  ultimately show ?thesis using device_create_found [OF demo_registered, of 14 "ascii ''tty''" 12288 0 6] by auto
qed

text \<open>C23: a read from the device that the search finds calls the driver of its major: the receive function of a network driver with the size cut to 16 bits, else the read function of the block driver, or that of the character driver, with the number of the device, size and offset. When the driver is not registered the read never returns.\<close>

theorem device_read_dispatch:
  assumes "registered r as z" and "device_search name r = ret a" and "a \<noteq> 0" and "d = device_at r a"
    and "b = block_device_drivers r (dv_major d)" and "c = char_device_drivers r (dv_major d)" and "n = net_device_drivers r (dv_major d)"
  shows "(\<not> dv_bc d \<and> (dr_registered b \<or> dr_registered n) \<and> dr_nops n = Some g \<and> no_recv g \<noteq> 0 \<longrightarrow>
      device_read name sz off r = ret (Some (Net_call (no_recv g) (dv_control d) (ucast (ucast sz :: u16))))) \<and>
    (\<not> dv_bc d \<and> dr_registered b \<and> dr_nops n = None \<and> dr_fops b = Some f \<and> fo_read f \<noteq> 0 \<longrightarrow>
      device_read name sz off r = ret (Some (File_call (fo_read f) (dv_id d) [sz, off]))) \<and>
    (dv_bc d \<and> dr_registered c \<and> dr_fops c = Some f \<and> fo_read f \<noteq> 0 \<longrightarrow>
      device_read name sz off r = ret (Some (File_call (fo_read f) (dv_id d) [sz, off]))) \<and>
    ((if dv_bc d then \<not> dr_registered c else \<not> dr_registered b \<and> \<not> dr_registered n) \<longrightarrow> device_read name sz off r = None)"
proof -
  have l: "device_loop nt fl name r (device_header r) = device_loop nt fl name r a" for nt fl
    using device_loop_reaches [OF assms(1-3)] by blast
  have a: "devices r a = Some d" "dv_valid d" "name_matches name (dv_name d)"
    using device_loop_reaches [OF assms(1-3)] assms(4) by auto
  show ?thesis
  proof (intro conjI impI)
    assume "if dv_bc d then \<not> dr_registered c else \<not> dr_registered b \<and> \<not> dr_registered n"
    then show "device_read name sz off r = None" unfolding device_read_def l assms(5-7) using device_loop_stuck [OF a] by blast
  qed (unfold device_read_def l; subst device_loop.simps; use a assms(5-7) in \<open>auto simp: route_net_def route_file_def Let_def\<close>)+
qed

theorem device_read_dispatch_witness:
  "device_read (ascii ''tty'') 64 0 demo_registry = ret (Some (File_call 99 5 [64, 0])) \<and>
   device_read (ascii ''tty'') 64 0 (unregister_block 14 demo_registry) = None"
proof
  have s: "device_search (ascii ''tty'') demo_registry = ret 4096"
    using device_search_ok [OF demo_registered(1)] by (simp add: demo_registry_def device_at_def name_matches_def padded_def ascii_def)
  show "device_read (ascii ''tty'') 64 0 demo_registry = ret (Some (File_call 99 5 [64, 0]))"
    using device_read_dispatch [OF demo_registered(1) s _ refl refl refl refl, of _ 64 0 "\<lparr>fo_read = 99, fo_write = 0, fo_ioctl = 0\<rparr>"]
    by (simp add: demo_registry_def device_at_def no_driver_def)
  let ?r = "unregister_block 14 demo_registry"
  have u: "registered ?r [4096] 8192" "device_search (ascii ''tty'') ?r = ret 4096"
    using demo_registered(1) s by (auto simp: registered_def unregister_block_def device_at_def device_search_def)
  show "device_read (ascii ''tty'') 64 0 ?r = None"
    using device_read_dispatch [OF u _ refl refl refl refl, of _ 64 0] by (simp add: demo_registry_def device_at_def no_driver_def unregister_block_def)
qed

end
