(* ===== verification/Spec2Isabelle.thy ===== *)
theory Spec2Isabelle
  imports Heap Linked_Lists Hashmap Crc Sleepers Tty Devices
begin

text \<open>
  \<^bold>\<open>The bloodmoon kernel.\<close> Paths are relative to \<^verbatim>\<open>src/src\<close>. The kernel takes the memory map of the boot loader, hands out
  physical frames, edits the page tables of the processor with them, and builds the kernel and user heaps on both. A round-robin
  scheduler with signals runs the tasks, a timer interrupt drives it, and tasks sleep in queues that a spin lock guards. Devices are kept
  in a registry that passes requests on to drivers; terminals join a line discipline to an output device. Lists, circular buffers, a hash
  map over MD5, the string functions and a CRC-32 serve the rest.

  \<^bold>\<open>How code is represented.\<close> \<open>Kernel_Prelude\<close> has the conventions. A call has a result of type \<open>'a res\<close>: \<open>ret x\<close> returns,
  \<open>panic msg\<close> stops the machine, \<open>fault\<close> is an access outside of an object (or a division by zero), and \<open>None\<close> is a call that never
  returns. Loops that may run for ever are \<open>partial_function (option)\<close>; no fuel is used, so a claim that code returns is an
  equation with \<open>ret\<close>, and a claim that it hangs an equation with \<open>None\<close>. Structures are records, structures behind pointers are finite or
  partial maps from 64-bit addresses to records, and null is 0. Machine integers are words of their width; C's \<^verbatim>\<open>int\<close> is \<open>int\<close>, with a
  \<open>fault\<close> where a sum can leave its range (\<open>int_ok\<close>, \<open>int_inc\<close>). The address that the heap returns to another component is an argument of the operation that
  asked for it; messages are left out, and port writes, callbacks and device requests are lists of events.

  \<^bold>\<open>Memory.\<close> \<open>Frames\<close> (\<^verbatim>\<open>memory/memory.c\<close>): the bitmap of the biggest usable chunk with its counters and cursor. Requests never
  return an address that is still handed out and return whenever a frame is free; initialisation takes the first frames, which
  cover its structure and bitmap. Three theorems state what the code does against its intent: counters, the page behind the chunk, and the
  base of contiguous requests. \<open>Paging\<close> (\<^verbatim>\<open>memory/paging.c\<close>): the four levels of tables as a map from physical pages to 512 words each, with
  their bit fields. Mapping, unmapping and changing permissions change exactly the translations they are asked to change and keep the
  invariant that no table is shared. \<open>Heap\<close> (\<^verbatim>\<open>memory/heap.c\<close>): the segments as a store of headers over a byte memory, with growth by
  frames and mappings. Allocation returns a block that overlaps no other, release frees exactly one block and joins it with its free neighbours,
  resizing keeps the contents, and no sequence of both makes two owned blocks overlap; the second release of a block panics.

  \<^bold>\<open>Tasks.\<close> \<open>Concurrency\<close> (\<^verbatim>\<open>sched/concurrency.c\<close>): spin lock, semaphore and try-lock. The spin lock is modelled one memory access at a time; any number of
  threads interleave these steps, and mutual exclusion is an invariant of every interleaving. The calls that the other components make are the
  same steps of one thread that runs alone. One theorem shows that the flags a thread restores can be another's. \<open>Timer\<close> (\<^verbatim>\<open>sched/pit.c\<close>): ticks and conversions. \<open>Scheduler\<close>
  (\<^verbatim>\<open>sched/scheduler.c\<close>): the task list, the choice of the next task, blocking, signals, creation and removal. The choice always
  returns and is the next runnable task in cyclic order, every runnable task is reached within one round, the operations keep the list well
  formed as long as the idle task is not their target and the current task is not removed, and signals are delivered in order; one theorem shows what
  \<^verbatim>\<open>kill_task\<close> does to the idle task. \<open>Sleepers\<close> (\<^verbatim>\<open>sched/sline.c\<close>, and the sleeping lock of \<^verbatim>\<open>concurrency.c\<close>): the wake-up
  handler wakes exactly the tasks that are due; sleeping on an address never returns.

  \<^bold>\<open>Devices.\<close> \<open>Devices\<close> (\<^verbatim>\<open>devices/devices.c\<close>): the device list, the driver tables and the dispatch. A device is found by its name,
  and a request reaches its driver or never returns. \<open>Line_Discipline\<close> (\<^verbatim>\<open>drivers/tty/ld/line_discipline.c\<close>): reading a character edits
  the line as an editor of a list would, but for an erase at the start of the buffer. \<open>Tty\<close> (\<^verbatim>\<open>drivers/tty/tty.c\<close>, \<^verbatim>\<open>tty_dd.c\<close>): the buffers are bounded queues, a typed line that does
  not wrap around the line buffer is echoed and read back, and a flush sends the output in order.

  \<^bold>\<open>Utilities.\<close> \<open>Linked_Lists\<close> and \<open>Circular_Buffer\<close> (\<^verbatim>\<open>util/lists.c\<close>) refine operations on abstract lists and queues. \<open>Md5\<close>
  (\<^verbatim>\<open>util/md5.c\<close>): feeding a message in parts gives the digest of the whole. \<open>Hashmap\<close> (\<^verbatim>\<open>util/hashmap.c\<close>): lookups after insertions, and the
  end of the probing loop. \<open>Crc\<close> (\<^verbatim>\<open>net/crc.c\<close>): the table-driven checksum is the bitwise one and detects a changed byte. \<open>Strings\<close>
  (\<^verbatim>\<open>util/ctype.c\<close>, \<^verbatim>\<open>util/string.c\<close>): searching, comparing, concatenating and parsing terminated strings in a byte memory.

  \<^bold>\<open>Interfaces.\<close> \<open>linked_node\<close> (in the prelude) is what a structure with a link field promises; it is interpreted on tasks, signals, sleepers
  and subscribers. \<open>byte_queue\<close> (in \<open>Circular_Buffer\<close>) is a bounded queue of bytes; it is interpreted on the circular buffers
  and on the buffers of the terminals. The remaining interfaces are next to their components.

  \<^bold>\<open>Bounds.\<close> Hypotheses on sizes are the limits at which the words of the code wrap: chunks below the 64-bit limit in \<open>Frames\<close>, strings shorter
  than the 64-bit address space in \<open>Strings\<close>, fewer than 256 devices of a major in \<open>Devices\<close>, lists below \<open>2 ^ 31\<close> elements in \<open>Linked_Lists\<close> and
  buffers up to \<open>2 ^ 30\<close> bytes in \<open>Circular_Buffer\<close>. Every theorem with hypotheses is applied to a
  concrete state that satisfies them.

  \<^bold>\<open>Not modelled.\<close> The translation cache of the processor, assembly and privileged instructions (\<^verbatim>\<open>arch\<close>, \<^verbatim>\<open>io\<close>), the start of the other
  processors and the boot loader structures (\<^verbatim>\<open>cpus\<close>, \<^verbatim>\<open>bootservices\<close>): their effect is on hardware. Drivers and discovery of disks, network
  cards, graphics, serial lines and PS/2 (\<^verbatim>\<open>drivers\<close>, \<^verbatim>\<open>devices/pci\<close>, \<^verbatim>\<open>acpi\<close>, \<^verbatim>\<open>apic\<close>, \<^verbatim>\<open>smbios\<close>): registers and shared memory of
  the machine. File systems and partitions (\<^verbatim>\<open>vfs\<close>): they work on the image of a disk that only a device provides, and FatFs is third-party code.
  The network service and its frames (\<^verbatim>\<open>devices/net\<close>, \<^verbatim>\<open>net/eth.c\<close>, \<^verbatim>\<open>net/arp.c\<close>), the program loader and system calls (\<^verbatim>\<open>proc\<close>,
  \<^verbatim>\<open>syscall\<close>): they run over those devices. Printing, JSON, the debugger, tests and user programs: output only or third-party code. What a
  subscriber, signal handler or driver does when it is called is outside of the model; a call is recorded with its arguments.
\<close>

end
